(* ===== verification/Dram_Prelude.thy ===== *)
theory Dram_Prelude
  imports Main "HOL-Library.Word" "HOL-Library.Multiset"
begin

text \<open>
  Shared material of the development: the machine integers of the C++ sources, the ways
  a run of the program can stop (a value of type \<open>error\<close>), the result type every
  fallible operation returns, loops over fallible bodies, checked access to vectors and
  to the three-dimensional vector of banks, and the generic lemmas the components use.
\<close>

section \<open>Machine integers and failures\<close>

text \<open>
  \<open>uint64_t\<close> and \<open>uint32_t\<close> are words, so additions wrap. The C++ type \<open>int\<close> is
  modelled by \<open>int\<close>: overflow of a signed integer is undefined in C++ and no
  definition of the development relies on it. Narrowing a \<open>uint64_t\<close> to \<open>int\<close> is
  written out by \<open>to_int32\<close>.
\<close>

type_synonym u64 = "64 word"
type_synonym u32 = "32 word"

definition to_int32 :: "u64 \<Rightarrow> int" where
  "to_int32 w = sint (ucast w :: u32)"

text \<open>
  \<open>AbruptExit file line\<close> is a call of \<open>AbruptExit(__FILE__, __LINE__)\<close>; \<open>Exit\<close> is
  \<open>exit(n)\<close>; \<open>Aborted\<close> is \<open>abort()\<close>; \<open>AssertFailed\<close> is a failed \<open>assert\<close>;
  \<open>OutOfRange\<close> is the exception of \<open>std::map::at\<close>; \<open>OutOfBounds\<close> is an index outside a
  vector; \<open>DivByZero\<close> is an integer division by zero; \<open>BadShift\<close> is a shift by a
  negative amount or by at least the width of the type; \<open>LengthError\<close> is the exception of a
  vector asked to reserve a negative number of elements; \<open>BadCast\<close> is a \<open>double\<close> converted to
  an integer type that cannot hold it; \<open>Diverges\<close> is a loop that never ends.
\<close>

datatype error =
    AbruptExit string nat
  | Exit int
  | Aborted
  | AssertFailed
  | OutOfRange
  | OutOfBounds
  | DivByZero
  | BadShift
  | LengthError
  | BadCast
  | Diverges

type_synonym 'a result = "error + 'a"

definition bindR :: "'a result \<Rightarrow> ('a \<Rightarrow> 'b result) \<Rightarrow> 'b result" where
  "bindR m f = (case m of Inl e \<Rightarrow> Inl e | Inr x \<Rightarrow> f x)"

lemma bindR_Inl [simp]: "bindR (Inl e) f = Inl e"
  by (simp add: bindR_def)

lemma bindR_Inr [simp]: "bindR (Inr x) f = f x"
  by (simp add: bindR_def)

lemma bindR_eq_Inr: "bindR m f = Inr y \<longleftrightarrow> (\<exists>x. m = Inr x \<and> f x = Inr y)"
  by (cases m) auto

lemma bindR_eq_Inl:
  "bindR m f = Inl e \<longleftrightarrow> m = Inl e \<or> (\<exists>x. m = Inr x \<and> f x = Inl e)"
  by (cases m) auto

lemma bindR_InrE [elim]:
  assumes "bindR m f = Inr y"
  obtains x where "m = Inr x" and "f x = Inr y"
  using assms by (auto simp: bindR_eq_Inr)

lemma bindR_cong [fundef_cong]:
  "m = m' \<Longrightarrow> (\<And>x. m' = Inr x \<Longrightarrow> f x = f' x) \<Longrightarrow> bindR m f = bindR m' f'"
  by (cases m') auto

lemma bindR_assoc: "bindR (bindR m f) g = bindR m (\<lambda>x. bindR (f x) g)"
  by (cases m) auto

text \<open>A \<open>for\<close> loop with a fallible body: the first failure ends the loop.\<close>

lemma bindR_unit [simp]: "bindR m Inr = m"
  by (cases m) simp_all

fun foldR :: "('a \<Rightarrow> 's \<Rightarrow> 's result) \<Rightarrow> 'a list \<Rightarrow> 's \<Rightarrow> 's result" where
  "foldR f [] s = Inr s"
| "foldR f (x # xs) s = bindR (f x s) (foldR f xs)"

lemma foldR_append: "foldR f (xs @ ys) s = bindR (foldR f xs s) (foldR f ys)"
  by (induction xs arbitrary: s) (auto simp: bindR_assoc intro!: bindR_cong)

lemma foldR_snoc: "foldR f (xs @ [x]) s = bindR (foldR f xs s) (f x)"
proof -
  have "foldR f [] = Inr" by (rule ext) simp
  then have "foldR f [x] = f x" by (intro ext) simp
  then show ?thesis by (simp add: foldR_append)
qed

lemma foldR_invariant:
  assumes "foldR f xs s = Inr s'" and "P s"
    and "\<And>x s t. x \<in> set xs \<Longrightarrow> P s \<Longrightarrow> f x s = Inr t \<Longrightarrow> P t"
  shows "P s'"
  using assms by (induction xs arbitrary: s) (auto elim!: bindR_InrE)

lemma foldR_total:
  assumes "P s" and "\<And>x s. x \<in> set xs \<Longrightarrow> P s \<Longrightarrow> \<exists>t. f x s = Inr t \<and> P t"
  shows "\<exists>s'. foldR f xs s = Inr s' \<and> P s'"
  using assms
proof (induction xs arbitrary: s)
  case Nil
  then show ?case by simp
next
  case (Cons x xs)
  then obtain t where "f x s = Inr t" and "P t" by fastforce
  with Cons show ?case by simp
qed

lemma foldR_Inr: "foldR (\<lambda>x s. Inr (g x s)) xs s = Inr (fold g xs s)"
  by (induction xs arbitrary: s) auto

lemma foldR_map: "foldR f (map h xs) s = foldR (\<lambda>x. f (h x)) xs s"
  by (induction xs arbitrary: s) (auto intro!: bindR_cong)

text \<open>
  A loop that may run forever is a partial function into \<open>option\<close>, whose value is \<open>None\<close>
  when it does not return.
\<close>

definition returned :: "'a result option \<Rightarrow> 'a result" where
  "returned r = (case r of None \<Rightarrow> Inl Diverges | Some x \<Rightarrow> x)"

lemma returned_Some [simp]: "returned (Some x) = x"
  by (simp add: returned_def)

section \<open>Vectors\<close>

text \<open>Reading and writing a vector at an \<open>int\<close> index; outside the vector is a failure.\<close>

definition vec_at :: "'a list \<Rightarrow> int \<Rightarrow> 'a result" where
  "vec_at xs i = (if 0 \<le> i \<and> i < int (length xs) then Inr (xs ! nat i) else Inl OutOfBounds)"

definition vec_set :: "'a list \<Rightarrow> int \<Rightarrow> 'a \<Rightarrow> 'a list result" where
  "vec_set xs i v =
     (if 0 \<le> i \<and> i < int (length xs) then Inr (xs[nat i := v]) else Inl OutOfBounds)"

lemma vec_at_nat [simp]: "i < length xs \<Longrightarrow> vec_at xs (int i) = Inr (xs ! i)"
  by (simp add: vec_at_def)

lemma vec_set_nat [simp]: "i < length xs \<Longrightarrow> vec_set xs (int i) v = Inr (xs[i := v])"
  by (simp add: vec_set_def)

lemma vec_at_Inr: "vec_at xs i = Inr x \<longleftrightarrow> 0 \<le> i \<and> nat i < length xs \<and> x = xs ! nat i"
  by (auto simp: vec_at_def)

lemma vec_set_Inr:
  "vec_set xs i v = Inr ys \<longleftrightarrow> 0 \<le> i \<and> nat i < length xs \<and> ys = xs[nat i := v]"
  by (auto simp: vec_set_def)

text \<open>Erase the first element that satisfies the test: the loop with \<open>erase\<close> and \<open>break\<close>.\<close>

fun erase_first :: "('a \<Rightarrow> bool) \<Rightarrow> 'a list \<Rightarrow> 'a list" where
  "erase_first p [] = []"
| "erase_first p (x # xs) = (if p x then xs else x # erase_first p xs)"

lemma erase_first_keeps: "x \<in> set xs \<Longrightarrow> \<not> p x \<Longrightarrow> x \<in> set (erase_first p xs)"
  by (induction xs) auto

lemma set_erase_first: "set (erase_first p xs) \<subseteq> set xs"
  by (induction xs) auto

section \<open>Checked arithmetic\<close>

text \<open>Shift of a \<open>uint64_t\<close> to the right, \<open>1 << n\<close> on \<open>int\<close>, and C++ integer division.\<close>

definition shr64 :: "u64 \<Rightarrow> int \<Rightarrow> u64 result" where
  "shr64 w n = (if 0 \<le> n \<and> n < 64 then Inr (drop_bit (nat n) w) else Inl BadShift)"

definition one_shl :: "int \<Rightarrow> int result" where
  "one_shl n = (if 0 \<le> n \<and> n < 31 then Inr (2 ^ nat n) else Inl BadShift)"

definition c_div :: "int \<Rightarrow> int \<Rightarrow> int" where
  "c_div a b = sgn a * sgn b * (\<bar>a\<bar> div \<bar>b\<bar>)"

definition div_int :: "int \<Rightarrow> int \<Rightarrow> int result" where
  "div_int a b = (if b = 0 then Inl DivByZero else Inr (c_div a b))"

lemma c_div_nonneg: "0 \<le> a \<Longrightarrow> 0 < b \<Longrightarrow> c_div a b = a div b"
  by (cases "a = 0") (auto simp: c_div_def)

lemma uint_less_of_unat: "unat (w :: u64) < 2 ^ n \<Longrightarrow> uint w < 2 ^ n"
proof -
  assume "unat w < 2 ^ n"
  then have "int (unat w) < int (2 ^ n)" by (simp only: of_nat_less_iff)
  then show ?thesis by (simp only: of_nat_power of_nat_numeral of_nat_unat)
qed

lemma uint_ucast_u32: "uint (ucast (w :: u64) :: u32) = take_bit 32 (uint w)"
  by (simp only: unsigned_ucast_eq len_num1 len_num0 len_bit0) simp

lemma to_int32_small:
  assumes "unat w < 2 ^ 31"
  shows "to_int32 w = uint w"
proof -
  have less: "uint w < 2 ^ 31"
    using assms by (rule uint_less_of_unat)
  then have "uint (ucast w :: u32) = uint w"
    by (auto simp: uint_ucast_u32 intro!: take_bit_int_eq_self)
  moreover have "signed_take_bit 31 (uint w) = uint w"
    by (rule signed_take_bit_int_eq_self) (use less in \<open>auto intro: order_trans [of _ 0]\<close>)
  moreover have "sint v = signed_take_bit 31 (uint v)" for v :: u32
    by (simp add: sint_uint)
  ultimately show ?thesis
    by (simp add: to_int32_def)
qed

lemma uint_add_of_int:
  fixes clk :: u64
  assumes "0 \<le> d" and "uint clk + d < 2 ^ 64"
  shows "uint (clk + of_int d) = uint clk + d"
proof -
  have "0 \<le> uint clk" by simp
  then have "d < 2 ^ 64" and "0 \<le> uint clk + d" using assms by linarith+
  then have "d mod 2 ^ 64 = d" "(uint clk + d) mod 2 ^ 64 = uint clk + d"
    using assms by (auto intro!: mod_pos_pos_trivial)
  then show ?thesis by (simp add: uint_word_ariths uint_word_of_int)
qed

section \<open>Three-dimensional vectors\<close>

text \<open>
  \<open>std::vector<std::vector<std::vector<T>>>\<close>, read and updated by three \<open>int\<close> indices. A
  grid of shape \<open>(nr, nj, nk)\<close> is rectangular; on such a grid the pointwise reader
  \<open>at3\<close> describes it completely.
\<close>

type_synonym 'a grid = "'a list list list"

definition at3 :: "'a grid \<Rightarrow> nat \<Rightarrow> nat \<Rightarrow> nat \<Rightarrow> 'a" where
  "at3 g r j k = g ! r ! j ! k"

definition upd3 :: "'a grid \<Rightarrow> nat \<Rightarrow> nat \<Rightarrow> nat \<Rightarrow> 'a \<Rightarrow> 'a grid" where
  "upd3 g r j k v = g[r := (g ! r)[j := (g ! r ! j)[k := v]]]"

definition in3 :: "'a grid \<Rightarrow> int \<Rightarrow> int \<Rightarrow> int \<Rightarrow> bool" where
  "in3 g r j k \<longleftrightarrow> 0 \<le> r \<and> nat r < length g \<and> 0 \<le> j \<and> nat j < length (g ! nat r) \<and>
     0 \<le> k \<and> nat k < length (g ! nat r ! nat j)"

definition get3 :: "'a grid \<Rightarrow> int \<Rightarrow> int \<Rightarrow> int \<Rightarrow> 'a result" where
  "get3 g r j k = (if in3 g r j k then Inr (at3 g (nat r) (nat j) (nat k)) else Inl OutOfBounds)"

definition mod3 :: "('a \<Rightarrow> 'a) \<Rightarrow> 'a grid \<Rightarrow> int \<Rightarrow> int \<Rightarrow> int \<Rightarrow> 'a grid result" where
  "mod3 f g r j k =
     (if in3 g r j k
      then Inr (upd3 g (nat r) (nat j) (nat k) (f (at3 g (nat r) (nat j) (nat k))))
      else Inl OutOfBounds)"

definition shape3 :: "nat \<Rightarrow> nat \<Rightarrow> nat \<Rightarrow> 'a grid \<Rightarrow> bool" where
  "shape3 nr nj nk g \<longleftrightarrow> length g = nr \<and>
     (\<forall>r < nr. length (g ! r) = nj \<and> (\<forall>j < nj. length (g ! r ! j) = nk))"

lemma in3_shape:
  "shape3 nr nj nk g \<Longrightarrow>
   in3 g r j k \<longleftrightarrow> 0 \<le> r \<and> nat r < nr \<and> 0 \<le> j \<and> nat j < nj \<and> 0 \<le> k \<and> nat k < nk"
  by (auto simp: in3_def shape3_def)

lemma shape3_upd3 [simp]: "shape3 nr nj nk g \<Longrightarrow> shape3 nr nj nk (upd3 g r j k v)"
  by (cases "r < length g"; cases "j < nj")
    (auto simp: shape3_def upd3_def nth_list_update list_update_beyond)

lemma at3_upd3:
  assumes "shape3 nr nj nk g" and "r < nr" and "j < nj" and "k < nk"
  shows "at3 (upd3 g r j k v) r' j' k' =
    (if r' = r \<and> j' = j \<and> k' = k then v else at3 g r' j' k')"
  using assms by (auto simp: at3_def upd3_def shape3_def nth_list_update)

lemma shape3_replicate:
  "shape3 nr nj nk (replicate nr (replicate nj (replicate nk v)))"
  by (simp add: shape3_def)

lemma at3_replicate:
  "r < nr \<Longrightarrow> j < nj \<Longrightarrow> k < nk \<Longrightarrow> at3 (replicate nr (replicate nj (replicate nk v))) r j k = v"
  by (simp add: at3_def)

lemma shape3_eqI:
  assumes "shape3 nr nj nk g" and "shape3 nr nj nk h"
    and "\<And>r j k. r < nr \<Longrightarrow> j < nj \<Longrightarrow> k < nk \<Longrightarrow> at3 g r j k = at3 h r j k"
  shows "g = h"
  using assms by (auto simp: shape3_def at3_def intro!: nth_equalityI)

lemma upd3_same [simp]: "upd3 (upd3 g r j k v) r j k w = upd3 g r j k w"
  by (cases "r < length g"; cases "j < length (g ! r)") (auto simp: upd3_def list_update_beyond)

lemma upd3_self:
  assumes "shape3 nr nj nk g" and "r < nr" and "j < nj" and "k < nk"
  shows "upd3 g r j k (at3 g r j k) = g"
  using assms by (auto simp: upd3_def at3_def shape3_def)

end
