(* ===== verification/Common.thy ===== *)
theory Common
  imports Dram_Prelude
begin

text \<open>
  \<open>DRAMSIM3/src/common.h\<close> and \<open>common.cc\<close>: the decoded address, the DRAM commands, the
  transactions, and the bit and string helpers.
\<close>

section \<open>Addresses, commands, transactions\<close>

record Address =
  channel :: int
  rank :: int
  bankgroup :: int
  bank :: int
  row :: int
  column :: int

definition Address0 :: Address where
  "Address0 = \<lparr>channel = -1, rank = -1, bankgroup = -1, bank = -1, row = -1, column = -1\<rparr>"

definition mk_Address :: "int \<Rightarrow> int \<Rightarrow> int \<Rightarrow> int \<Rightarrow> int \<Rightarrow> int \<Rightarrow> Address" where
  "mk_Address ch ra bg ba ro co =
     \<lparr>channel = ch, rank = ra, bankgroup = bg, bank = ba, row = ro, column = co\<rparr>"

datatype CommandType =
    READ
  | READ_PRECHARGE
  | WRITE
  | WRITE_PRECHARGE
  | ACTIVATE
  | PRECHARGE
  | REFRESH_BANK
  | REFRESH
  | SREF_ENTER
  | SREF_EXIT
  | SIZE_CMD

record Command =
  cmd_type :: CommandType
  cmd_addr :: Address
  hex_addr :: u64

definition Command0 :: Command where
  "Command0 = \<lparr>cmd_type = SIZE_CMD, cmd_addr = Address0, hex_addr = 0\<rparr>"

definition mk_Command :: "CommandType \<Rightarrow> Address \<Rightarrow> u64 \<Rightarrow> Command" where
  "mk_Command t a h = \<lparr>cmd_type = t, cmd_addr = a, hex_addr = h\<rparr>"

definition IsValid :: "Command \<Rightarrow> bool" where
  "IsValid c \<longleftrightarrow> cmd_type c \<noteq> SIZE_CMD"

definition IsRefresh :: "Command \<Rightarrow> bool" where
  "IsRefresh c \<longleftrightarrow> cmd_type c = REFRESH \<or> cmd_type c = REFRESH_BANK"

definition IsRead :: "Command \<Rightarrow> bool" where
  "IsRead c \<longleftrightarrow> cmd_type c = READ \<or> cmd_type c = READ_PRECHARGE"

definition IsWrite :: "Command \<Rightarrow> bool" where
  "IsWrite c \<longleftrightarrow> cmd_type c = WRITE \<or> cmd_type c = WRITE_PRECHARGE"

definition IsReadWrite :: "Command \<Rightarrow> bool" where
  "IsReadWrite c \<longleftrightarrow> IsRead c \<or> IsWrite c"

definition IsRankCMD :: "Command \<Rightarrow> bool" where
  "IsRankCMD c \<longleftrightarrow>
     cmd_type c = REFRESH \<or> cmd_type c = SREF_ENTER \<or> cmd_type c = SREF_EXIT"

abbreviation Rank :: "Command \<Rightarrow> int" where
  "Rank c \<equiv> rank (cmd_addr c)"

abbreviation Bankgroup :: "Command \<Rightarrow> int" where
  "Bankgroup c \<equiv> bankgroup (cmd_addr c)"

abbreviation Bank :: "Command \<Rightarrow> int" where
  "Bank c \<equiv> bank (cmd_addr c)"

abbreviation Row :: "Command \<Rightarrow> int" where
  "Row c \<equiv> row (cmd_addr c)"

abbreviation Column :: "Command \<Rightarrow> int" where
  "Column c \<equiv> column (cmd_addr c)"

record Transaction =
  trans_addr :: u64
  added_cycle :: u64
  complete_cycle :: u64
  is_write :: bool

definition mk_Transaction :: "u64 \<Rightarrow> bool \<Rightarrow> Transaction" where
  "mk_Transaction a w = \<lparr>trans_addr = a, added_cycle = 0, complete_cycle = 0, is_write = w\<rparr>"

lemmas command_simps [simp] =
  IsValid_def IsRefresh_def IsRead_def IsWrite_def IsReadWrite_def IsRankCMD_def

lemma mk_Command_simps [simp]:
  "cmd_type (mk_Command t a h) = t"
  "cmd_addr (mk_Command t a h) = a"
  "hex_addr (mk_Command t a h) = h"
  by (simp_all add: mk_Command_def)

lemma Command0_simps [simp]: "cmd_type Command0 = SIZE_CMD"
  by (simp add: Command0_def)

lemma mk_Address_simps [simp]:
  "channel (mk_Address ch ra bg ba ro co) = ch"
  "rank (mk_Address ch ra bg ba ro co) = ra"
  "bankgroup (mk_Address ch ra bg ba ro co) = bg"
  "bank (mk_Address ch ra bg ba ro co) = ba"
  "row (mk_Address ch ra bg ba ro co) = ro"
  "column (mk_Address ch ra bg ba ro co) = co"
  by (simp_all add: mk_Address_def)

section \<open>Bits and logarithms\<close>

unbundle bit_operations_syntax

definition ModuloWidth :: "u64 \<Rightarrow> u32 \<Rightarrow> u32 \<Rightarrow> u32 result" where
  "ModuloWidth a bit_width pos =
     (if unat pos < 64 \<and> unat bit_width < 64 then
        let a1 = drop_bit (unat pos) a;
            store = a1;
            a2 = push_bit (unat bit_width) (drop_bit (unat bit_width) a1)
        in Inr (ucast (store XOR a2))
      else Inl BadShift)"

definition GetBitInPos :: "u64 \<Rightarrow> int \<Rightarrow> int result" where
  "GetBitInPos bits pos = bindR (shr64 bits pos) (\<lambda>w. Inr (to_int32 (w AND 1)))"

function LogBase2_loop :: "int \<Rightarrow> int \<Rightarrow> int" where
  "LogBase2_loop power_of_two i =
     (if power_of_two > 1 then LogBase2_loop (power_of_two div 2) (i + 1) else i)"
  by pat_completeness auto
termination
  by (relation "measure (\<lambda>(p, i). nat p)") auto

declare LogBase2_loop.simps [simp del]

definition LogBase2 :: "int \<Rightarrow> int" where
  "LogBase2 power_of_two = LogBase2_loop power_of_two 0"

lemma LogBase2_loop_bounds:
  assumes "1 \<le> p"
  shows "\<exists>n. LogBase2_loop p i = i + int n \<and> 2 ^ n \<le> p \<and> p < 2 ^ Suc n"
  using assms
proof (induction p i rule: LogBase2_loop.induct)
  case (1 p i)
  show ?case
  proof (cases "p > 1")
    case True
    then have "1 \<le> p div 2" by presburger
    with True obtain n where "LogBase2_loop (p div 2) (i + 1) = i + 1 + int n"
      and "2 ^ n \<le> p div 2" and "p div 2 < 2 ^ Suc n"
      using "1.IH" by blast
    with True show ?thesis
      by (intro exI [of _ "Suc n"]) (simp add: LogBase2_loop.simps [of p], arith)
  next
    case False
    with "1.prems" show ?thesis
      by (intro exI [of _ 0]) (simp add: LogBase2_loop.simps [of 1])
  qed
qed

lemma LogBase2_floor:
  assumes "1 \<le> p"
  shows "0 \<le> LogBase2 p" and "2 ^ nat (LogBase2 p) \<le> p" and "p < 2 ^ Suc (nat (LogBase2 p))"
  using LogBase2_loop_bounds [OF assms, of 0] by (auto simp: LogBase2_def)

lemma LogBase2_nonneg: "0 \<le> LogBase2 p"
proof (cases "1 \<le> p")
  case True
  then show ?thesis by (rule LogBase2_floor)
next
  case False
  then show ?thesis by (simp add: LogBase2_def LogBase2_loop.simps)
qed

lemma LogBase2_power [simp]: "LogBase2 (2 ^ n) = int n"
proof -
  obtain m where m: "LogBase2 (2 ^ n) = int m" "(2::int) ^ m \<le> 2 ^ n" "(2::int) ^ n < 2 ^ Suc m"
    using LogBase2_loop_bounds [of "2 ^ n" 0] by (auto simp: LogBase2_def)
  from m(2) have "m \<le> n" by (rule power_le_imp_le_exp [rotated]) simp
  moreover from m(3) have "n < Suc m" by (rule power_less_imp_less_exp [rotated]) simp
  ultimately show ?thesis using m(1) by simp
qed

section \<open>Splitting strings\<close>

text \<open>
  \<open>std::getline\<close> on a string stream takes the characters up to the next delimiter; the
  stream is at its end when no characters are left, so a trailing delimiter gives no
  further item. Empty items are dropped.
\<close>

function StringSplit :: "string \<Rightarrow> char \<Rightarrow> string list" where
  "StringSplit s delim =
     (if s = [] then []
      else let item = takeWhile (\<lambda>c. c \<noteq> delim) s;
               rest = drop 1 (dropWhile (\<lambda>c. c \<noteq> delim) s)
           in (if item = [] then [] else [item]) @ StringSplit rest delim)"
  by pat_completeness auto
termination
proof (relation "measure (\<lambda>(s, d). length s)")
  fix s :: string and delim :: char and item rest
  assume "s \<noteq> []" and "rest = drop 1 (dropWhile (\<lambda>c. c \<noteq> delim) s)"
  then show "((rest, delim), s, delim) \<in> measure (\<lambda>(s, d). length s)"
    using length_dropWhile_le [of "\<lambda>c. c \<noteq> delim" s] by (cases s) auto
qed simp

declare StringSplit.simps [simp del]

lemma filter_dropWhile_delim:
  "filter (\<lambda>c. c \<noteq> d) (dropWhile (\<lambda>c. c \<noteq> d) s) =
   filter (\<lambda>c. c \<noteq> d) (drop 1 (dropWhile (\<lambda>c. c \<noteq> d) s))"
  by (induction s) auto

lemma StringSplit_concat:
  "concat (StringSplit s delim) = filter (\<lambda>c. c \<noteq> delim) s"
proof (induction s delim rule: StringSplit.induct)
  case (1 s delim)
  show ?case
  proof (cases "s = []")
    case True
    then show ?thesis by (simp add: StringSplit.simps)
  next
    case False
    let ?P = "\<lambda>c. c \<noteq> delim"
    have "filter ?P s = filter ?P (takeWhile ?P s) @ filter ?P (dropWhile ?P s)"
      by (metis filter_append takeWhile_dropWhile_id)
    also have "filter ?P (takeWhile ?P s) = takeWhile ?P s"
      by (auto simp: filter_id_conv dest: set_takeWhileD)
    also have "filter ?P (dropWhile ?P s) = filter ?P (drop 1 (dropWhile ?P s))"
      by (rule filter_dropWhile_delim)
    finally show ?thesis
      using "1.IH" [OF False refl refl] False
      by (simp add: StringSplit.simps [of s] Let_def)
  qed
qed

lemma StringSplit_items:
  "item \<in> set (StringSplit s delim) \<Longrightarrow> item \<noteq> [] \<and> delim \<notin> set item"
proof (induction s delim rule: StringSplit.induct)
  case (1 s delim)
  then show ?case
    by (subst (asm) (2) StringSplit.simps)
      (auto simp: Let_def split: if_splits dest: set_takeWhileD)
qed

end
