(* ===== verification/Bank_State.thy ===== *)
theory Bank_State
  imports Common
begin

text \<open>
  \<open>DRAMSIM3/src/bankstate.h\<close> and \<open>bankstate.cc\<close>: the state machine of one bank, and the
  earliest cycle at which each command may be issued to it. The vector \<open>cmd_timing\<close>,
  indexed by the enumeration of commands, is a function of the command type.
\<close>

section \<open>The bank\<close>

datatype State = OPEN | CLOSED | SREF | PD | SIZE_STATE

record BankState =
  bank_state :: State
  cmd_timing :: "CommandType \<Rightarrow> u64"
  open_row :: int
  row_hit_count :: int

definition BankState0 :: BankState where
  "BankState0 =
     \<lparr>bank_state = CLOSED, cmd_timing = (\<lambda>_. 0), open_row = -1, row_hit_count = 0\<rparr>"

definition IsRowOpen :: "BankState \<Rightarrow> bool" where
  "IsRowOpen b \<longleftrightarrow> bank_state b = OPEN"

abbreviation OpenRow :: "BankState \<Rightarrow> int" where
  "OpenRow b \<equiv> open_row b"

abbreviation RowHitCount :: "BankState \<Rightarrow> int" where
  "RowHitCount b \<equiv> row_hit_count b"

text \<open>The switch of \<open>GetReadyCommand\<close>: which command the bank needs next.\<close>

definition required_type :: "BankState \<Rightarrow> Command \<Rightarrow> CommandType result" where
  "required_type b cmd =
     (case bank_state b of
        CLOSED \<Rightarrow>
          (case cmd_type cmd of
             READ \<Rightarrow> Inr ACTIVATE
           | READ_PRECHARGE \<Rightarrow> Inr ACTIVATE
           | WRITE \<Rightarrow> Inr ACTIVATE
           | WRITE_PRECHARGE \<Rightarrow> Inr ACTIVATE
           | REFRESH \<Rightarrow> Inr (cmd_type cmd)
           | REFRESH_BANK \<Rightarrow> Inr (cmd_type cmd)
           | SREF_ENTER \<Rightarrow> Inr (cmd_type cmd)
           | _ \<Rightarrow> Inl (AbruptExit ''bankstate.cc'' 40))
      | OPEN \<Rightarrow>
          (case cmd_type cmd of
             READ \<Rightarrow> Inr (if Row cmd = open_row b then cmd_type cmd else PRECHARGE)
           | READ_PRECHARGE \<Rightarrow> Inr (if Row cmd = open_row b then cmd_type cmd else PRECHARGE)
           | WRITE \<Rightarrow> Inr (if Row cmd = open_row b then cmd_type cmd else PRECHARGE)
           | WRITE_PRECHARGE \<Rightarrow> Inr (if Row cmd = open_row b then cmd_type cmd else PRECHARGE)
           | REFRESH \<Rightarrow> Inr PRECHARGE
           | REFRESH_BANK \<Rightarrow> Inr PRECHARGE
           | SREF_ENTER \<Rightarrow> Inr PRECHARGE
           | _ \<Rightarrow> Inl (AbruptExit ''bankstate.cc'' 63))
      | SREF \<Rightarrow>
          (case cmd_type cmd of
             READ \<Rightarrow> Inr SREF_EXIT
           | READ_PRECHARGE \<Rightarrow> Inr SREF_EXIT
           | WRITE \<Rightarrow> Inr SREF_EXIT
           | WRITE_PRECHARGE \<Rightarrow> Inr SREF_EXIT
           | _ \<Rightarrow> Inl (AbruptExit ''bankstate.cc'' 77))
      | PD \<Rightarrow> Inl (AbruptExit ''bankstate.cc'' 84)
      | SIZE_STATE \<Rightarrow> Inl (AbruptExit ''bankstate.cc'' 84))"

definition bank_GetReadyCommand :: "BankState \<Rightarrow> Command \<Rightarrow> u64 \<Rightarrow> Command result" where
  "bank_GetReadyCommand b cmd clk =
     bindR (required_type b cmd) (\<lambda>req.
       if req \<noteq> SIZE_CMD \<and> clk \<ge> cmd_timing b req
       then Inr (mk_Command req (cmd_addr cmd) (hex_addr cmd))
       else Inr Command0)"

definition bank_UpdateState :: "BankState \<Rightarrow> Command \<Rightarrow> BankState result" where
  "bank_UpdateState b cmd =
     (case bank_state b of
        OPEN \<Rightarrow>
          (case cmd_type cmd of
             READ \<Rightarrow> Inr (b\<lparr>row_hit_count := row_hit_count b + 1\<rparr>)
           | WRITE \<Rightarrow> Inr (b\<lparr>row_hit_count := row_hit_count b + 1\<rparr>)
           | READ_PRECHARGE \<Rightarrow> Inr (b\<lparr>bank_state := CLOSED, open_row := -1, row_hit_count := 0\<rparr>)
           | WRITE_PRECHARGE \<Rightarrow> Inr (b\<lparr>bank_state := CLOSED, open_row := -1, row_hit_count := 0\<rparr>)
           | PRECHARGE \<Rightarrow> Inr (b\<lparr>bank_state := CLOSED, open_row := -1, row_hit_count := 0\<rparr>)
           | _ \<Rightarrow> Inl (AbruptExit ''bankstate.cc'' 117))
      | CLOSED \<Rightarrow>
          (case cmd_type cmd of
             REFRESH \<Rightarrow> Inr b
           | REFRESH_BANK \<Rightarrow> Inr b
           | ACTIVATE \<Rightarrow> Inr (b\<lparr>bank_state := OPEN, open_row := Row cmd\<rparr>)
           | SREF_ENTER \<Rightarrow> Inr (b\<lparr>bank_state := SREF\<rparr>)
           | _ \<Rightarrow> Inl (AbruptExit ''bankstate.cc'' 140))
      | SREF \<Rightarrow>
          (case cmd_type cmd of
             SREF_EXIT \<Rightarrow> Inr (b\<lparr>bank_state := CLOSED\<rparr>)
           | _ \<Rightarrow> Inl (AbruptExit ''bankstate.cc'' 158))
      | _ \<Rightarrow> Inl (AbruptExit ''bankstate.cc'' 162))"

definition bank_UpdateTiming :: "BankState \<Rightarrow> CommandType \<Rightarrow> u64 \<Rightarrow> BankState" where
  "bank_UpdateTiming b t time =
     b\<lparr>cmd_timing := (cmd_timing b)(t := max (cmd_timing b t) time)\<rparr>"

section \<open>Invariant and behaviour\<close>

text \<open>
  A bank is open, closed or in self refresh; only an open bank has an open row and row
  hits.
\<close>

definition bank_inv :: "BankState \<Rightarrow> bool" where
  "bank_inv b \<longleftrightarrow> bank_state b \<in> {OPEN, CLOSED, SREF} \<and>
     (bank_state b \<noteq> OPEN \<longrightarrow> open_row b = -1 \<and> row_hit_count b = 0) \<and>
     0 \<le> row_hit_count b"

text \<open>The requests a bank answers without aborting: which depends on its state.\<close>

definition bank_request :: "Command \<Rightarrow> bool" where
  "bank_request cmd \<longleftrightarrow> IsReadWrite cmd \<or>
     cmd_type cmd \<in> {REFRESH, REFRESH_BANK, SREF_ENTER}"

definition bank_answers :: "BankState \<Rightarrow> Command \<Rightarrow> bool" where
  "bank_answers b cmd \<longleftrightarrow>
     (bank_state b \<in> {OPEN, CLOSED} \<and> bank_request cmd) \<or>
     (bank_state b = SREF \<and> IsReadWrite cmd)"

lemma bank_inv_BankState0 [simp]: "bank_inv BankState0"
  by (simp add: bank_inv_def BankState0_def)

lemma required_type_Inr: "(\<exists>t. required_type b cmd = Inr t) \<longleftrightarrow> bank_answers b cmd"
  by (cases "bank_state b"; cases "cmd_type cmd")
    (simp_all add: required_type_def bank_answers_def bank_request_def)

lemma bank_GetReadyCommand_Inr:
  "(\<exists>r. bank_GetReadyCommand b cmd clk = Inr r) \<longleftrightarrow> bank_answers b cmd"
  unfolding required_type_Inr [symmetric]
  by (cases "required_type b cmd") (auto simp: bank_GetReadyCommand_def)

lemma bank_ready_cases:
  assumes "bank_GetReadyCommand b cmd clk = Inr r" and "IsValid r"
  shows "required_type b cmd = Inr (cmd_type r)" and "cmd_timing b (cmd_type r) \<le> clk"
    and "cmd_addr r = cmd_addr cmd" and "hex_addr r = hex_addr cmd"
  using assms
  by (auto simp: bank_GetReadyCommand_def bindR_eq_Inr split: if_splits)

text \<open>The command a bank asks for, in its state, is one its \<open>UpdateState\<close> performs.\<close>

lemma required_type_applies:
  assumes "required_type b cmd = Inr t" and "cmd_type r = t"
  shows "\<exists>b'. bank_UpdateState b r = Inr b'"
  using assms
  by (cases "bank_state b"; cases "cmd_type cmd")
    (auto simp: required_type_def bank_UpdateState_def split: if_splits)

lemma bank_UpdateState_inv:
  assumes "bank_UpdateState b cmd = Inr b'" and "bank_inv b"
  shows "bank_inv b'"
  using assms
  by (cases "bank_state b"; cases "cmd_type cmd")
    (auto simp: bank_UpdateState_def bank_inv_def)

lemma bank_UpdateState_timing:
  assumes "bank_UpdateState b cmd = Inr b'"
  shows "cmd_timing b' = cmd_timing b"
  using assms
  by (cases "bank_state b"; cases "cmd_type cmd") (auto simp: bank_UpdateState_def)

lemma bank_UpdateTiming_frame [simp]:
  "bank_state (bank_UpdateTiming b t u) = bank_state b"
  "open_row (bank_UpdateTiming b t u) = open_row b"
  "row_hit_count (bank_UpdateTiming b t u) = row_hit_count b"
  by (simp_all add: bank_UpdateTiming_def)

lemma bank_UpdateTiming_inv [simp]: "bank_inv (bank_UpdateTiming b t u) = bank_inv b"
  by (simp add: bank_inv_def)

section \<open>Timing constraints\<close>

text \<open>
  A store of lower bounds that only ever rise: what the users of \<open>UpdateTiming\<close> rely on.
\<close>

locale timing_store =
  fixes get :: "'s \<Rightarrow> 'k \<Rightarrow> 't::linorder"
    and upd :: "'s \<Rightarrow> 'k \<Rightarrow> 't \<Rightarrow> 's"
  assumes get_upd: "get (upd s k t) k' = (if k' = k then max (get s k) t else get s k')"
begin

definition upd_all :: "('k \<times> 't) list \<Rightarrow> 's \<Rightarrow> 's" where
  "upd_all l s = fold (\<lambda>(k, t) s. upd s k t) l s"

lemma upd_all_simps [simp]:
  "upd_all [] s = s"
  "upd_all ((k, t) # l) s = upd_all l (upd s k t)"
  by (simp_all add: upd_all_def)

lemma upd_mono: "get s k' \<le> get (upd s k t) k'"
  by (simp add: get_upd)

lemma upd_all_mono: "get s k \<le> get (upd_all l s) k"
proof (induction l arbitrary: s)
  case Nil
  then show ?case by simp
next
  case (Cons p l)
  obtain k' t where p: "p = (k', t)" by (cases p)
  have "get s k \<le> get (upd s k' t) k" by (rule upd_mono)
  also have "\<dots> \<le> get (upd_all l (upd s k' t)) k" by (rule Cons.IH)
  finally show ?case by (simp add: p)
qed

lemma upd_all_ge: "(k, t) \<in> set l \<Longrightarrow> t \<le> get (upd_all l s) k"
proof (induction l arbitrary: s)
  case Nil
  then show ?case by simp
next
  case (Cons p l)
  show ?case
  proof (cases "p = (k, t)")
    case True
    have "t \<le> get (upd s k t) k" by (simp add: get_upd)
    also have "\<dots> \<le> get (upd_all l (upd s k t)) k" by (rule upd_all_mono)
    finally show ?thesis using True by simp
  next
    case False
    with Cons show ?thesis by (cases p) auto
  qed
qed

lemma upd_all_other: "k \<notin> fst ` set l \<Longrightarrow> get (upd_all l s) k = get s k"
  by (induction l arbitrary: s) (auto simp: get_upd)

lemma get_upd_all: "get (upd_all l s) k = fold max (map snd (filter (\<lambda>p. fst p = k) l)) (get s k)"
  by (induction l arbitrary: s) (auto simp: get_upd max.commute)

end

interpretation bank_timing: timing_store cmd_timing bank_UpdateTiming
  by unfold_locales (simp add: bank_UpdateTiming_def)

text \<open>The loop over a list of constraints: \<open>UpdateTiming(type, clk + delay)\<close> for each.\<close>

definition apply_timings :: "(CommandType \<times> int) list \<Rightarrow> u64 \<Rightarrow> BankState \<Rightarrow> BankState" where
  "apply_timings l clk b = fold (\<lambda>(t, d) b. bank_UpdateTiming b t (clk + of_int d)) l b"

lemma apply_timings_simps [simp]:
  "apply_timings [] clk b = b"
  "apply_timings ((t, d) # l) clk b = apply_timings l clk (bank_UpdateTiming b t (clk + of_int d))"
  by (simp_all add: apply_timings_def)

lemma apply_timings_upd_all:
  "apply_timings l clk b = bank_timing.upd_all (map (\<lambda>(t, d). (t, clk + of_int d)) l) b"
  by (induction l arbitrary: b) auto

lemma apply_timings_frame [simp]:
  "bank_state (apply_timings l clk b) = bank_state b"
  "open_row (apply_timings l clk b) = open_row b"
  "row_hit_count (apply_timings l clk b) = row_hit_count b"
  by (induction l arbitrary: b) auto

lemma apply_timings_inv [simp]: "bank_inv (apply_timings l clk b) = bank_inv b"
  by (simp add: bank_inv_def)

lemma apply_timings_mono: "cmd_timing b t \<le> cmd_timing (apply_timings l clk b) t"
  unfolding apply_timings_upd_all by (rule bank_timing.upd_all_mono)

lemma apply_timings_ge:
  "(t, d) \<in> set l \<Longrightarrow> clk + of_int d \<le> cmd_timing (apply_timings l clk b) t"
  unfolding apply_timings_upd_all by (rule bank_timing.upd_all_ge) force

section \<open>Histories of a bank\<close>

text \<open>
  What the DRAM protocol says of a bank, told from the commands it was given and not from the
  variables of the code. A row is open when the last command that opens or closes one is an
  activation; the bank sleeps when the last command about self refresh enters it.
\<close>

definition last_among :: "CommandType set \<Rightarrow> Command list \<Rightarrow> Command option" where
  "last_among ts h = List.find (\<lambda>cmd. cmd_type cmd \<in> ts) (rev h)"

definition row_after :: "Command list \<Rightarrow> int option" where
  "row_after h =
     (case last_among {ACTIVATE, PRECHARGE, READ_PRECHARGE, WRITE_PRECHARGE} h of
        None \<Rightarrow> None
      | Some cmd \<Rightarrow> if cmd_type cmd = ACTIVATE then Some (Row cmd) else None)"

definition asleep_after :: "Command list \<Rightarrow> bool" where
  "asleep_after h =
     (case last_among {SREF_ENTER, SREF_EXIT} h of None \<Rightarrow> False | Some cmd \<Rightarrow> cmd_type cmd = SREF_ENTER)"

definition hits_after :: "Command list \<Rightarrow> nat" where
  "hits_after h =
     (if row_after h = None then 0
      else length (filter (\<lambda>cmd. cmd_type cmd \<in> {READ, WRITE}) (takeWhile (\<lambda>cmd. cmd_type cmd \<noteq> ACTIVATE) (rev h))))"

definition legal_next :: "Command list \<Rightarrow> Command \<Rightarrow> bool" where
  "legal_next h cmd \<longleftrightarrow>
     (if cmd_type cmd \<in> {ACTIVATE, REFRESH, REFRESH_BANK, SREF_ENTER} then row_after h = None \<and> \<not> asleep_after h
      else if cmd_type cmd = SREF_EXIT then asleep_after h
      else cmd_type cmd \<noteq> SIZE_CMD \<and> row_after h \<noteq> None)"

definition legal_history :: "Command list \<Rightarrow> bool" where
  "legal_history h \<longleftrightarrow> list_all (\<lambda>i. legal_next (take i h) (h ! i)) [0..<length h]"

definition bank_run :: "Command list \<Rightarrow> BankState \<Rightarrow> BankState result" where
  "bank_run h b = foldR (\<lambda>cmd b. bank_UpdateState b cmd) h b"

definition bank_after :: "Command list \<Rightarrow> BankState" where
  "bank_after h = BankState0\<lparr>
     bank_state := (if asleep_after h then SREF else if row_after h = None then CLOSED else OPEN),
     open_row := (case row_after h of None \<Rightarrow> -1 | Some r \<Rightarrow> r),
     row_hit_count := int (hits_after h)\<rparr>"

lemma last_among_snoc:
  "last_among ts (h @ [cmd]) = (if cmd_type cmd \<in> ts then Some cmd else last_among ts h)"
  by (simp add: last_among_def)

lemma legal_history_snoc: "legal_history (h @ [cmd]) \<longleftrightarrow> legal_history h \<and> legal_next h cmd"
proof -
  have "list_all (\<lambda>i. legal_next (take i (h @ [cmd])) ((h @ [cmd]) ! i)) [0..<length h] = legal_history h"
    unfolding legal_history_def by (rule list.pred_cong) (auto simp: nth_append)
  then show ?thesis by (simp add: legal_history_def)
qed

text \<open>A legal history never has a row open in a sleeping bank.\<close>

lemma legal_closed: "legal_history h \<Longrightarrow> asleep_after h \<Longrightarrow> row_after h = None"
proof (induction h rule: rev_induct)
  case (snoc cmd h)
  then show ?case
    by (cases "cmd_type cmd")
      (auto simp: legal_history_snoc legal_next_def asleep_after_def row_after_def last_among_snoc split: option.splits if_splits)
qed (simp add: asleep_after_def last_among_def)

lemmas history_defs = legal_next_def asleep_after_def row_after_def hits_after_def last_among_snoc

lemma bank_step_legal:
  assumes "legal_history h" and "legal_next h cmd"
  shows "bank_UpdateState (bank_after h) cmd = Inr (bank_after (h @ [cmd]))"
  using assms legal_closed [OF assms(1)]
  by (cases "cmd_type cmd")
    (auto simp: bank_UpdateState_def bank_after_def history_defs split: option.splits if_splits)

lemma bank_step_illegal:
  assumes "legal_history h" and "\<not> legal_next h cmd"
  shows "\<exists>e. bank_UpdateState (bank_after h) cmd = Inl e"
  using assms legal_closed [OF assms(1)]
  by (cases "cmd_type cmd")
    (auto simp: bank_UpdateState_def bank_after_def legal_next_def split: option.splits if_splits)

lemma bank_run_snoc: "bank_run (h @ [cmd]) b = bindR (bank_run h b) (\<lambda>b. bank_UpdateState b cmd)"
  unfolding bank_run_def foldR_snoc ..

lemma bank_run_history:
  "if legal_history h then bank_run h BankState0 = Inr (bank_after h) else \<exists>e. bank_run h BankState0 = Inl e"
proof (induction h rule: rev_induct)
  case Nil
  show ?case by (simp add: bank_run_def legal_history_def bank_after_def BankState0_def history_defs last_among_def)
next
  case (snoc cmd h)
  show ?case
  proof (cases "legal_history h")
    case True
    with snoc bank_step_legal [of h cmd] bank_step_illegal [of h cmd] show ?thesis
      by (simp add: bank_run_snoc legal_history_snoc)
  next
    case False
    with snoc show ?thesis by (auto simp: bank_run_snoc legal_history_snoc)
  qed
qed

lemma bank_ready_legal:
  assumes "legal_history h" and "bank_GetReadyCommand (bank_after h) req clk = Inr r" and "IsValid r"
  shows "legal_next h r" and "IsReadWrite r \<Longrightarrow> row_after h = Some (Row r)"
proof -
  have t: "required_type (bank_after h) req = Inr (cmd_type r)" "Row r = Row req"
    using bank_ready_cases [OF assms(2,3)] by simp_all
  have "legal_next h r \<and> (IsReadWrite r \<longrightarrow> row_after h = Some (Row r))"
    using t legal_closed [OF assms(1)]
    by (cases "cmd_type req")
      (auto simp: required_type_def bank_after_def legal_next_def split: option.splits if_splits)
  then show "legal_next h r" and "IsReadWrite r \<Longrightarrow> row_after h = Some (Row r)" by blast+
qed

section \<open>Properties of the bank\<close>

text \<open>
  C18: A bank implements the DRAM protocol. Given any sequence of commands from its initial
  state, \<open>BankState::UpdateState\<close> accepts them all exactly when the sequence is legal: rows are
  opened, refreshes run and self refresh is entered only with no row open and the bank awake,
  accesses and precharges need an open row, and only a sleeping bank is woken. Its variables
  then are what the sequence says: whether a row is open, that it is the row last activated,
  and the number of accesses to it since; an illegal sequence aborts. After a legal sequence
  \<open>GetReadyCommand\<close> proposes only commands that continue it legally, and a read or write
  only for the row that is open.
\<close>

theorem bank_implements_protocol:
  "(if legal_history h then bank_run h BankState0 = Inr (bank_after h) else \<exists>e. bank_run h BankState0 = Inl e) \<and>
   (legal_history h \<longrightarrow> bank_GetReadyCommand (bank_after h) req clk = Inr r \<longrightarrow> IsValid r \<longrightarrow>
      legal_next h r \<and> (IsReadWrite r \<longrightarrow> row_after h = Some (Row r)))"
  using bank_run_history [of h] bank_ready_legal [of h req clk r] by blast

definition sample_row :: "CommandType \<Rightarrow> int \<Rightarrow> Command" where
  "sample_row t r = mk_Command t (mk_Address 0 0 0 0 r 0) 64"

definition sample_history :: "Command list" where
  "sample_history = [sample_row ACTIVATE 7, sample_row READ 7, sample_row PRECHARGE (-1), sample_row REFRESH (-1),
     sample_row ACTIVATE 9, sample_row WRITE 9, sample_row READ 9]"

theorem bank_implements_protocol_witness:
  "bank_run sample_history BankState0 = Inr (BankState0\<lparr>bank_state := OPEN, open_row := 9, row_hit_count := 2\<rparr>) \<and>
   row_after sample_history = Some (Row (sample_row READ 9)) \<and>
   (\<exists>e. bank_run (sample_history @ [sample_row REFRESH (-1)]) BankState0 = Inl e)"
proof -
  have l: "legal_history sample_history" "\<not> legal_history (sample_history @ [sample_row REFRESH (-1)])" by code_simp+
  have a: "asleep_after sample_history = False" "row_after sample_history = Some 9" "hits_after sample_history = 2"
    by code_simp+
  have g: "bank_GetReadyCommand (bank_after sample_history) (sample_row READ 9) 0 = Inr (sample_row READ 9)"
    by (simp add: bank_GetReadyCommand_def required_type_def bank_after_def a BankState0_def sample_row_def)
  have v: "IsValid (sample_row READ 9)" "IsReadWrite (sample_row READ 9)" by code_simp+
  show ?thesis
    using bank_implements_protocol [of sample_history "sample_row READ 9" 0 "sample_row READ 9"]
      bank_implements_protocol [of "sample_history @ [sample_row REFRESH (-1)]" Command0 0 Command0] l g v
    by (auto simp: bank_after_def a)
qed

end
