(* ===== verification/INIReader.thy ===== *)
theory INIReader
  imports Dram_Prelude
begin

text \<open>
  \<open>DRAMSIM3/ext/headers/INIReader.h\<close>: looking up a value of a parsed INI file as a
  string, an integer or a boolean, and collecting the values while parsing. The C
  library functions it uses (\<open>isspace\<close>, \<open>tolower\<close>, \<open>strtol\<close>) are modelled in the C
  locale, characters being bytes.
\<close>

section \<open>The C library functions\<close>

abbreviation char_code :: "char \<Rightarrow> nat" where
  "char_code c \<equiv> of_char c"

definition isspace :: "char \<Rightarrow> bool" where
  "isspace c \<longleftrightarrow> (9 \<le> char_code c \<and> char_code c \<le> 13) \<or> char_code c = 32"

definition tolower :: "char \<Rightarrow> char" where
  "tolower c = (if 65 \<le> char_code c \<and> char_code c \<le> 90 then char_of (char_code c + 32) else c)"

definition digit_val :: "char \<Rightarrow> nat option" where
  "digit_val c =
     (let n = char_code c in
      if 48 \<le> n \<and> n \<le> 57 then Some (n - 48)
      else if 97 \<le> n \<and> n \<le> 122 then Some (n - 87)
      else if 65 \<le> n \<and> n \<le> 90 then Some (n - 55)
      else None)"

definition is_digit_of :: "nat \<Rightarrow> char \<Rightarrow> bool" where
  "is_digit_of base c \<longleftrightarrow> (case digit_val c of None \<Rightarrow> False | Some d \<Rightarrow> d < base)"

definition digits_value :: "nat \<Rightarrow> string \<Rightarrow> int" where
  "digits_value base ds = foldl (\<lambda>v c. v * int base + int (the (digit_val c))) 0 ds"

text \<open>
  \<open>strtol(value, &end, 0)\<close>: white space, a sign, then a \<open>0x\<close> number, a \<open>0\<close> number in
  base 8 or a decimal one, clamped to the range of \<open>long\<close>. The boolean says whether
  \<open>end > value\<close>, that is, whether a number was found.
\<close>

definition clamp_long :: "int \<Rightarrow> int" where
  "clamp_long n = max (- (2 ^ 63)) (min (2 ^ 63 - 1) n)"

definition strtol_base0 :: "string \<Rightarrow> int \<times> bool" where
  "strtol_base0 s =
     (let s1 = dropWhile isspace s;
          neg = (s1 \<noteq> [] \<and> hd s1 = CHR ''-'');
          s2 = (if s1 \<noteq> [] \<and> (hd s1 = CHR ''-'' \<or> hd s1 = CHR ''+'') then tl s1 else s1);
          hex = (3 \<le> length s2 \<and> hd s2 = CHR ''0'' \<and> tolower (s2 ! 1) = CHR ''x'' \<and>
                 is_digit_of 16 (s2 ! 2));
          base = (if hex then 16 else if s2 \<noteq> [] \<and> hd s2 = CHR ''0'' then 8 else 10);
          ds = takeWhile (is_digit_of base) (if hex then drop 2 s2 else s2);
          v = digits_value base ds
      in if ds = [] then (0, False) else (clamp_long (if neg then - v else v), True))"

section \<open>The reader\<close>

record INIReader =
  ini_error :: int
  ini_values :: "string \<rightharpoonup> string"
  ini_sections :: "string set"

definition MakeKey :: "string \<Rightarrow> string \<Rightarrow> string" where
  "MakeKey sec name = map tolower (sec @ ''='' @ name)"

definition ParseError :: "INIReader \<Rightarrow> int" where
  "ParseError r = ini_error r"

definition Get :: "INIReader \<Rightarrow> string \<Rightarrow> string \<Rightarrow> string \<Rightarrow> string" where
  "Get r sec name default_value =
     (case ini_values r (MakeKey sec name) of None \<Rightarrow> default_value | Some v \<Rightarrow> v)"

definition GetInteger_ini :: "INIReader \<Rightarrow> string \<Rightarrow> string \<Rightarrow> int \<Rightarrow> int" where
  "GetInteger_ini r sec name default_value =
     (let (n, found) = strtol_base0 (Get r sec name []) in if found then n else default_value)"

definition GetBoolean :: "INIReader \<Rightarrow> string \<Rightarrow> string \<Rightarrow> bool \<Rightarrow> bool" where
  "GetBoolean r sec name default_value =
     (let valstr = map tolower (Get r sec name []) in
      if valstr = ''true'' \<or> valstr = ''yes'' \<or> valstr = ''on'' \<or> valstr = ''1'' then True
      else if valstr = ''false'' \<or> valstr = ''no'' \<or> valstr = ''off'' \<or> valstr = ''0'' then False
      else default_value)"

definition ValueHandler :: "INIReader \<Rightarrow> string \<Rightarrow> string \<Rightarrow> string \<Rightarrow> INIReader" where
  "ValueHandler r sec name value =
     (let key = MakeKey sec name;
          old = (case ini_values r key of None \<Rightarrow> [] | Some v \<Rightarrow> v);
          new = (if 0 < length old then old @ [CHR 0x0A] else old) @ value
      in r\<lparr>ini_values := (ini_values r)(key \<mapsto> new),
           ini_sections := insert sec (ini_sections r)\<rparr>)"

lemma tolower_idem [simp]: "tolower (tolower c) = tolower c"
  by (simp add: tolower_def)

lemma Get_ValueHandler_same:
  assumes "ini_values r (MakeKey sec name) = None"
  shows "Get (ValueHandler r sec name value) sec name d = value"
  using assms by (simp add: Get_def ValueHandler_def Let_def)

lemma Get_ValueHandler_other:
  assumes "MakeKey sec name \<noteq> MakeKey sec' name'"
  shows "Get (ValueHandler r sec name value) sec' name' d = Get r sec' name' d"
  using assms by (simp add: Get_def ValueHandler_def Let_def)

lemma GetInteger_missing:
  "ini_values r (MakeKey sec name) = None \<Longrightarrow> GetInteger_ini r sec name d = d"
  by (simp add: GetInteger_ini_def Get_def strtol_base0_def Let_def)

lemma GetBoolean_missing:
  "ini_values r (MakeKey sec name) = None \<Longrightarrow> GetBoolean r sec name d = d"
  by (simp add: GetBoolean_def Get_def)

end
