(* ===== verification/Configuration.thy ===== *)
theory Configuration
  imports Common INIReader
begin

text \<open>
  \<open>DRAMSIM3/src/configuration.h\<close> and \<open>configuration.cc\<close>: the parameters read from
  the INI file, the sizes derived from them, and the mapping of a physical address to
  channel, rank, bank group, bank, row and column. The INI reader (\<open>INIReader.h\<close>) is the
  interface the constructor calls.
\<close>

section \<open>The parameters\<close>

datatype DRAMProtocol =
    DDR3 | DDR4 | GDDR5 | GDDR5X | GDDR6 | LPDDR | LPDDR3 | LPDDR4 | LPDDR5 | HBM | HBM2
  | HMC | SIZE_PROTOCOL

datatype RefreshPolicy =
    RANK_LEVEL_SIMULTANEOUS
  | RANK_LEVEL_STAGGERED
  | BANK_LEVEL_STAGGERED
  | SIZE_POLICY

text \<open>
  The fields of class \<open>Config\<close>, group by group as the header lists them: physical
  structure, address mapping, timing, HMC, system. The fields of type \<open>double\<close> (the clock
  period and the energy increments) and the names of the output files are not modelled.
\<close>

record Config_structure =
  protocol :: DRAMProtocol
  channel_size :: int
  channels :: int
  ranks :: int
  banks :: int
  bankgroups :: int
  banks_per_group :: int
  bankgroup_enable :: bool
  rows :: int
  columns :: int
  device_width :: int
  bus_width :: int
  devices_per_rank :: int
  BL :: int

record Config_mapping = Config_structure +
  shift_bits :: int
  ch_pos :: int
  ra_pos :: int
  bg_pos :: int
  ba_pos :: int
  ro_pos :: int
  co_pos :: int
  ch_mask :: u64
  ra_mask :: u64
  bg_mask :: u64
  ba_mask :: u64
  ro_mask :: u64
  co_mask :: u64
  request_size_bytes :: int

record Config_timing = Config_mapping +
  burst_cycle :: int
  AL :: int
  CL :: int
  CWL :: int
  RL :: int
  WL :: int
  tCCD_L :: int
  tCCD_S :: int
  tRTRS :: int
  tRTP :: int
  tWTR_L :: int
  tWTR_S :: int
  tWR :: int
  tRP :: int
  tRRD_L :: int
  tRRD_S :: int
  tRAS :: int
  tRCD :: int
  tRFC :: int
  tRC :: int
  tCKE :: int
  tCKESR :: int
  tXS :: int
  tXP :: int
  tRFCb :: int
  tREFI :: int
  tREFIb :: int
  tFAW :: int
  tRPRE :: int
  tWPRE :: int
  read_delay :: int
  write_delay :: int
  tPPD :: int
  t32AW :: int
  tRCDRD :: int
  tRCDWR :: int
  ideal_memory_latency :: int

record Config = Config_timing +
  num_links :: int
  num_dies :: int
  link_width :: int
  link_speed :: int
  block_size :: int
  xbar_queue_depth :: int
  address_mapping :: string
  queue_structure :: string
  row_buf_policy :: string
  refresh_policy :: RefreshPolicy
  cmd_queue_size :: int
  unified_queue :: bool
  trans_queue_size :: int
  write_buf_size :: int
  enable_self_refresh :: bool
  sref_threshold :: int
  aggressive_precharging_enabled :: bool
  enable_hbm_dual_cmd :: bool
  epoch_period :: int
  output_level :: int

definition IsGDDR :: "'a Config_structure_scheme \<Rightarrow> bool" where
  "IsGDDR c \<longleftrightarrow> protocol c = GDDR5 \<or> protocol c = GDDR5X \<or> protocol c = GDDR6"

definition IsHBM :: "'a Config_structure_scheme \<Rightarrow> bool" where
  "IsHBM c \<longleftrightarrow> protocol c = HBM \<or> protocol c = HBM2"

definition IsHMC :: "'a Config_structure_scheme \<Rightarrow> bool" where
  "IsHMC c \<longleftrightarrow> protocol c = HMC"

definition IsDDR4 :: "'a Config_structure_scheme \<Rightarrow> bool" where
  "IsDDR4 c \<longleftrightarrow> protocol c = DDR4"

definition IsLP5 :: "'a Config_structure_scheme \<Rightarrow> bool" where
  "IsLP5 c \<longleftrightarrow> protocol c = LPDDR5"

section \<open>Reading the parameters\<close>

text \<open>The narrowing of a \<open>long\<close> to \<open>int\<close>.\<close>

definition long_to_int :: "int \<Rightarrow> int" where
  "long_to_int n = signed_take_bit 31 n"

definition GetInteger :: "INIReader \<Rightarrow> string \<Rightarrow> string \<Rightarrow> int \<Rightarrow> int" where
  "GetInteger r sec opt default_val = long_to_int (GetInteger_ini r sec opt default_val)"

definition GetDRAMProtocol :: "string \<Rightarrow> DRAMProtocol result" where
  "GetDRAMProtocol protocol_str =
     (case map_of
        [(''DDR3'', DDR3), (''DDR4'', DDR4), (''GDDR5'', GDDR5), (''GDDR5X'', GDDR5X),
         (''GDDR6'', GDDR6), (''LPDDR'', LPDDR), (''LPDDR3'', LPDDR3), (''LPDDR4'', LPDDR4),
         (''LPDDR5'', LPDDR5), (''HBM'', HBM), (''HBM2'', HBM2), (''HMC'', HMC)] protocol_str
      of None \<Rightarrow> Inl (AbruptExit ''configuration.cc'' 88) | Some p \<Rightarrow> Inr p)"

definition InitSystemParams :: "INIReader \<Rightarrow> Config \<Rightarrow> Config result" where
  "InitSystemParams reader c0 =
     (let c = c0\<lparr>
        channel_size := GetInteger reader ''system'' ''channel_size'' 1024,
        channels := GetInteger reader ''system'' ''channels'' 1,
        bus_width := GetInteger reader ''system'' ''bus_width'' 64,
        address_mapping := Get reader ''system'' ''address_mapping'' ''chrobabgraco'',
        queue_structure := Get reader ''system'' ''queue_structure'' ''PER_BANK'',
        row_buf_policy := Get reader ''system'' ''row_buf_policy'' ''OPEN_PAGE'',
        cmd_queue_size := GetInteger reader ''system'' ''cmd_queue_size'' 16,
        trans_queue_size := GetInteger reader ''system'' ''trans_queue_size'' 32,
        unified_queue := GetBoolean reader ''system'' ''unified_queue'' False,
        write_buf_size := GetInteger reader ''system'' ''write_buf_size'' 16\<rparr>;
        ref_policy = Get reader ''system'' ''refresh_policy'' ''RANK_LEVEL_STAGGERED''
      in bindR
        (if ref_policy = ''RANK_LEVEL_SIMULTANEOUS'' then Inr RANK_LEVEL_SIMULTANEOUS
         else if ref_policy = ''RANK_LEVEL_STAGGERED'' then Inr RANK_LEVEL_STAGGERED
         else if ref_policy = ''BANK_LEVEL_STAGGERED'' then Inr BANK_LEVEL_STAGGERED
         else Inl (AbruptExit ''configuration.cc'' 265))
        (\<lambda>pol. Inr (c\<lparr>
          refresh_policy := pol,
          enable_self_refresh := GetBoolean reader ''system'' ''enable_self_refresh'' False,
          sref_threshold := GetInteger reader ''system'' ''sref_threshold'' 1000,
          aggressive_precharging_enabled :=
            GetBoolean reader ''system'' ''aggressive_precharging_enabled'' False\<rparr>)))"

text \<open>
  The burst length and the number of clock cycles of a burst, by protocol: the second
  half of \<open>InitDRAMParams\<close>.
\<close>

definition set_burst :: "Config \<Rightarrow> Config" where
  "set_burst c =
     (if protocol c = GDDR5 then
        c\<lparr>burst_cycle := (if BL c = 0 then 0 else c_div (BL c) 4), BL := (if BL c = 0 then 8 else BL c)\<rparr>
      else if protocol c = GDDR5X then
        c\<lparr>burst_cycle := (if BL c = 0 then 0 else c_div (BL c) 8), BL := (if BL c = 0 then 8 else BL c)\<rparr>
      else if protocol c = GDDR6 then
        c\<lparr>burst_cycle := (if BL c = 0 then 0 else c_div (BL c) 16), BL := (if BL c = 0 then 8 else BL c)\<rparr>
      else
        c\<lparr>burst_cycle := (if BL c = 0 then 0 else c_div (BL c) 2),
          BL := (if BL c = 0 then (if IsHBM c then 4 else 8) else BL c)\<rparr>)"

definition set_burst_LP5 :: "Config \<Rightarrow> Config result" where
  "set_burst_LP5 c =
     (if IsLP5 c then
        if BL c \<noteq> 16 \<and> BL c \<noteq> 32 then Inl (AbruptExit ''configuration.cc'' 160)
        else Inr (c\<lparr>burst_cycle := c_div (BL c) (2 * 4)\<rparr>)
      else Inr c)"

definition set_columns :: "Config \<Rightarrow> Config" where
  "set_columns c =
     (if IsGDDR c then c\<lparr>columns := columns c * BL c\<rparr>
      else if IsHBM c then c\<lparr>columns := columns c * 2\<rparr>
      else c)"

definition InitDRAMParams :: "INIReader \<Rightarrow> Config \<Rightarrow> Config result" where
  "InitDRAMParams reader c0 =
     bindR (GetDRAMProtocol (Get reader ''dram_structure'' ''protocol'' ''DDR3'')) (\<lambda>prot.
     let c1 = c0\<lparr>
           protocol := prot,
           bankgroups := GetInteger reader ''dram_structure'' ''bankgroups'' 2,
           banks_per_group := GetInteger reader ''dram_structure'' ''banks_per_group'' 2,
           bankgroup_enable := GetBoolean reader ''dram_structure'' ''bankgroup_enable'' True\<rparr>;
         c2 = (if \<not> bankgroup_enable c1
               then c1\<lparr>banks_per_group := banks_per_group c1 * bankgroups c1, bankgroups := 1\<rparr>
               else c1);
         c3 = c2\<lparr>
           banks := bankgroups c2 * banks_per_group c2,
           rows := GetInteger reader ''dram_structure'' ''rows'' 65536,
           columns := GetInteger reader ''dram_structure'' ''columns'' 1024,
           device_width := GetInteger reader ''dram_structure'' ''device_width'' 8,
           BL := GetInteger reader ''dram_structure'' ''BL'' 8,
           num_dies := GetInteger reader ''dram_structure'' ''num_dies'' 1,
           enable_hbm_dual_cmd :=
             GetBoolean reader ''dram_structure'' ''hbm_dual_cmd'' True \<and> IsHBM c2,
           num_links := GetInteger reader ''hmc'' ''num_links'' 4,
           link_width := GetInteger reader ''hmc'' ''link_width'' 16,
           link_speed := GetInteger reader ''hmc'' ''link_speed'' 15000,
           block_size := GetInteger reader ''hmc'' ''block_size'' 64,
           xbar_queue_depth := GetInteger reader ''hmc'' ''xbar_queue_depth'' 16\<rparr>
     in bindR
       (if IsHMC c3
        then bindR (div_int (block_size c3 * 8) (device_width c3)) (\<lambda>q. Inr (c3\<lparr>BL := q\<rparr>))
        else Inr c3) (\<lambda>c4.
     bindR (set_burst_LP5 (set_burst c4)) (\<lambda>c5. Inr (set_columns c5))))"

definition CalculateSize :: "Config \<Rightarrow> Config result" where
  "CalculateSize c =
     bindR (div_int (bus_width c) (device_width c)) (\<lambda>dpr.
     let c1 = c\<lparr>devices_per_rank := dpr\<rparr>;
         page_size =
           (if IsLP5 c then
              c_div (columns c *
                  (if bankgroup_enable c then 128
                   else if banks_per_group c = 16 then 128 else 256) *
                  (if device_width c = 8 then 1 else 2)) 8
            else c_div (columns c * device_width c) 8);
         megs_per_bank = c_div (page_size * c_div (rows c) 1024) 1024;
         megs_per_rank = megs_per_bank * banks c * dpr
     in if megs_per_rank > channel_size c
        then Inr (c1\<lparr>ranks := 1, channel_size := megs_per_rank\<rparr>)
        else bindR (div_int (channel_size c) megs_per_rank) (\<lambda>n.
          Inr (c1\<lparr>ranks := n, channel_size := n * megs_per_rank\<rparr>)))"

definition InitTimingParams :: "INIReader \<Rightarrow> Config \<Rightarrow> Config" where
  "InitTimingParams reader c0 =
     (let c1 = c0\<lparr>
        AL := GetInteger reader ''timing'' ''AL'' 0,
        CL := GetInteger reader ''timing'' ''CL'' 12,
        CWL := GetInteger reader ''timing'' ''CWL'' 12,
        tCCD_L := GetInteger reader ''timing'' ''tCCD_L'' 6,
        tCCD_S := GetInteger reader ''timing'' ''tCCD_S'' 4,
        tRTRS := GetInteger reader ''timing'' ''tRTRS'' 2,
        tRTP := GetInteger reader ''timing'' ''tRTP'' 5,
        tWTR_L := GetInteger reader ''timing'' ''tWTR_L'' 5,
        tWTR_S := GetInteger reader ''timing'' ''tWTR_S'' 5,
        tWR := GetInteger reader ''timing'' ''tWR'' 10,
        tRP := GetInteger reader ''timing'' ''tRP'' 10,
        tRRD_L := GetInteger reader ''timing'' ''tRRD_L'' 4,
        tRRD_S := GetInteger reader ''timing'' ''tRRD_S'' 4,
        tRAS := GetInteger reader ''timing'' ''tRAS'' 24,
        tRCD := GetInteger reader ''timing'' ''tRCD'' 10,
        tRFC := GetInteger reader ''timing'' ''tRFC'' 74\<rparr>;
      c2 = c1\<lparr>tRC := tRAS c1 + tRP c1,
        tCKE := GetInteger reader ''timing'' ''tCKE'' 6,
        tCKESR := GetInteger reader ''timing'' ''tCKESR'' 12,
        tXS := GetInteger reader ''timing'' ''tXS'' 432,
        tXP := GetInteger reader ''timing'' ''tXP'' 8,
        tRFCb := GetInteger reader ''timing'' ''tRFCb'' 20,
        tREFI := GetInteger reader ''timing'' ''tREFI'' 7800,
        tREFIb := GetInteger reader ''timing'' ''tREFIb'' 1950,
        tFAW := GetInteger reader ''timing'' ''tFAW'' 50,
        tRPRE := GetInteger reader ''timing'' ''tRPRE'' 1,
        tWPRE := GetInteger reader ''timing'' ''tWPRE'' 1,
        tPPD := GetInteger reader ''timing'' ''tPPD'' 0,
        t32AW := GetInteger reader ''timing'' ''t32AW'' 330,
        tRCDRD := GetInteger reader ''timing'' ''tRCDRD'' 24,
        tRCDWR := GetInteger reader ''timing'' ''tRCDWR'' 20,
        ideal_memory_latency := GetInteger reader ''timing'' ''ideal_memory_latency'' 10\<rparr>;
      c3 = c2\<lparr>RL := AL c2 + CL c2, WL := AL c2 + CWL c2\<rparr>
      in c3\<lparr>read_delay := RL c3 + burst_cycle c3, write_delay := WL c3 + burst_cycle c3\<rparr>)"

definition InitOtherParams :: "INIReader \<Rightarrow> Config \<Rightarrow> Config" where
  "InitOtherParams reader c =
     c\<lparr>epoch_period := GetInteger reader ''other'' ''epoch_period'' 100000,
       output_level := long_to_int (GetInteger_ini reader ''other'' ''output_level'' 1)\<rparr>"

section \<open>The address mapping\<close>

text \<open>
  \<open>SetAddressMapping\<close> cuts the twelve characters of \<open>address_mapping\<close> into six tokens and
  lays the fields out from the last token up: a token's position is the sum of the
  widths of the tokens after it.
\<close>

definition field_widths :: "Config \<Rightarrow> string \<rightharpoonup> int" where
  "field_widths c =
     (let col_low_bits = LogBase2 (BL c);
          actual_col_bits =
            (if IsLP5 c then LogBase2 (columns c) else LogBase2 (columns c) - col_low_bits)
      in map_of
        [(''ch'', LogBase2 (channels c)), (''ra'', LogBase2 (ranks c)),
         (''bg'', LogBase2 (bankgroups c)), (''ba'', LogBase2 (banks_per_group c)),
         (''ro'', LogBase2 (rows c)), (''co'', actual_col_bits)])"

fun mapping_tokens :: "string \<Rightarrow> string list" where
  "mapping_tokens (a # b # s) = [a, b] # mapping_tokens s"
| "mapping_tokens [a] = [[a]]"
| "mapping_tokens [] = []"

fun place_fields ::
  "(string \<rightharpoonup> int) \<Rightarrow> string list \<Rightarrow> (string \<rightharpoonup> int) \<Rightarrow> int \<Rightarrow> (string \<rightharpoonup> int) result" where
  "place_fields widths [] field_pos pos = Inr field_pos"
| "place_fields widths (token # toks) field_pos pos =
     (case widths token of
        None \<Rightarrow> Inl (AbruptExit ''configuration.cc'' 416)
      | Some w \<Rightarrow> place_fields widths toks (field_pos(token \<mapsto> pos)) (pos + w))"

definition map_at :: "('k \<rightharpoonup> 'v) \<Rightarrow> 'k \<Rightarrow> 'v result" where
  "map_at m k = (case m k of None \<Rightarrow> Inl OutOfRange | Some v \<Rightarrow> Inr v)"

definition field_mask :: "(string \<rightharpoonup> int) \<Rightarrow> string \<Rightarrow> u64 result" where
  "field_mask widths token =
     bindR (map_at widths token) (\<lambda>w. bindR (one_shl w) (\<lambda>v. Inr (of_int (v - 1))))"

definition set_positions :: "(string \<rightharpoonup> int) \<Rightarrow> Config \<Rightarrow> Config result" where
  "set_positions field_pos c =
     bindR (map_at field_pos ''ch'') (\<lambda>pch. bindR (map_at field_pos ''ra'') (\<lambda>pra.
     bindR (map_at field_pos ''bg'') (\<lambda>pbg. bindR (map_at field_pos ''ba'') (\<lambda>pba.
     bindR (map_at field_pos ''ro'') (\<lambda>pro. bindR (map_at field_pos ''co'') (\<lambda>pco.
     Inr (c\<lparr>ch_pos := pch, ra_pos := pra, bg_pos := pbg, ba_pos := pba, ro_pos := pro,
            co_pos := pco\<rparr>)))))))"

definition set_masks :: "(string \<rightharpoonup> int) \<Rightarrow> Config \<Rightarrow> Config result" where
  "set_masks widths c =
     bindR (field_mask widths ''ch'') (\<lambda>mch. bindR (field_mask widths ''ra'') (\<lambda>mra.
     bindR (field_mask widths ''bg'') (\<lambda>mbg. bindR (field_mask widths ''ba'') (\<lambda>mba.
     bindR (field_mask widths ''ro'') (\<lambda>mro. bindR (field_mask widths ''co'') (\<lambda>mco.
     Inr (c\<lparr>ch_mask := mch, ra_mask := mra, bg_mask := mbg, ba_mask := mba, ro_mask := mro,
            co_mask := mco\<rparr>)))))))"

definition SetAddressMapping :: "Config \<Rightarrow> Config result" where
  "SetAddressMapping c0 =
     (let rsb = c_div (bus_width c0) 8 * BL c0;
          c = c0\<lparr>request_size_bytes := rsb, shift_bits := LogBase2 rsb\<rparr>;
          widths = field_widths c0
      in if length (address_mapping c0) \<noteq> 12 then Inl (AbruptExit ''configuration.cc'' 398)
         else
           bindR (place_fields widths (rev (mapping_tokens (address_mapping c0))) Map.empty 0)
             (\<lambda>field_pos. bindR (set_positions field_pos c) (set_masks widths)))"

unbundle bit_operations_syntax

definition map_field :: "u64 \<Rightarrow> int \<Rightarrow> u64 \<Rightarrow> int result" where
  "map_field a pos msk = bindR (shr64 a pos) (\<lambda>v. Inr (to_int32 (v AND msk)))"

definition AddressMapping :: "Config \<Rightarrow> u64 \<Rightarrow> Address result" where
  "AddressMapping c hex =
     bindR (shr64 hex (shift_bits c)) (\<lambda>a.
     bindR (map_field a (ch_pos c) (ch_mask c)) (\<lambda>ch.
     bindR (map_field a (ra_pos c) (ra_mask c)) (\<lambda>ra.
     bindR (map_field a (bg_pos c) (bg_mask c)) (\<lambda>bg.
     bindR (map_field a (ba_pos c) (ba_mask c)) (\<lambda>ba.
     bindR (map_field a (ro_pos c) (ro_mask c)) (\<lambda>ro.
     bindR (map_field a (co_pos c) (co_mask c)) (\<lambda>co.
     Inr (mk_Address ch ra bg ba ro co))))))))"

text \<open>
  The constructor. \<open>c0\<close> is the storage of the object before it runs, about which nothing
  is known.
\<close>

definition mk_Config :: "INIReader \<Rightarrow> Config \<Rightarrow> Config result" where
  "mk_Config reader c0 =
     (if ParseError reader < 0 then Inl (AbruptExit ''configuration.cc'' 15)
      else
        bindR (InitSystemParams reader c0) (\<lambda>c1.
        bindR (InitDRAMParams reader c1) (\<lambda>c2.
        bindR (CalculateSize c2) (\<lambda>c3.
        bindR (SetAddressMapping c3) (\<lambda>c4.
        Inr (InitOtherParams reader (InitTimingParams reader c4)))))))"

section \<open>Correctness of the address mapping\<close>

lemma place_fields_dom:
  "place_fields w toks fp p = Inr fp' \<Longrightarrow> dom fp' = set toks \<union> dom fp"
  by (induction toks arbitrary: fp p) (auto split: option.splits)

lemma place_fields_known:
  "place_fields w toks fp p = Inr fp' \<Longrightarrow> set toks \<subseteq> dom w"
  by (induction toks arbitrary: fp p) (auto split: option.splits)

lemma place_fields_other:
  "place_fields w toks fp p = Inr fp' \<Longrightarrow> t \<notin> set toks \<Longrightarrow> fp' t = fp t"
  by (induction toks arbitrary: fp p) (auto split: option.splits)

lemma place_fields_bounds:
  assumes "place_fields w toks fp p = Inr fp'" and "distinct toks"
    and "\<forall>t \<in> set toks. 0 \<le> the (w t)"
    and "t \<in> set toks" and "fp' t = Some q"
  shows "p \<le> q \<and> q + the (w t) \<le> p + (\<Sum>t\<leftarrow>toks. the (w t))"
  using assms
proof (induction toks arbitrary: fp p)
  case Nil
  then show ?case by simp
next
  case (Cons u toks)
  from Cons.prems(1) obtain wu where wu: "w u = Some wu"
    and rec: "place_fields w toks (fp(u \<mapsto> p)) (p + wu) = Inr fp'"
    by (auto split: option.splits)
  have nn: "0 \<le> wu" and nns: "\<forall>t \<in> set toks. 0 \<le> the (w t)"
    using Cons.prems(3) wu by auto
  have sum: "0 \<le> (\<Sum>t\<leftarrow>toks. the (w t))"
    using nns by (intro sum_list_nonneg) auto
  show ?case
  proof (cases "t = u")
    case True
    have "fp' u = Some p"
      using place_fields_other [OF rec, of u] Cons.prems(2) by simp
    with True Cons.prems(5) have "q = p" by simp
    with True wu sum show ?thesis by simp
  next
    case False
    with Cons.prems(4) have "t \<in> set toks" by simp
    with Cons.IH [OF rec _ nns _ Cons.prems(5)] Cons.prems(2)
    have "p + wu \<le> q \<and> q + the (w t) \<le> p + wu + (\<Sum>t\<leftarrow>toks. the (w t))" by simp
    with nn wu show ?thesis by simp
  qed
qed

text \<open>Every position below the total width lies in a field.\<close>

lemma place_fields_cover:
  assumes "place_fields w toks fp p = Inr fp'" and "distinct toks"
    and "p \<le> i" and "i < p + (\<Sum>t\<leftarrow>toks. the (w t))"
  shows "\<exists>t q x. t \<in> set toks \<and> fp' t = Some q \<and> w t = Some x \<and> q \<le> i \<and> i < q + x"
  using assms
proof (induction toks arbitrary: fp p)
  case Nil
  then show ?case by simp
next
  case (Cons u toks)
  from Cons.prems(1) obtain wu where wu: "w u = Some wu"
    and rec: "place_fields w toks (fp(u \<mapsto> p)) (p + wu) = Inr fp'"
    by (auto split: option.splits)
  show ?case
  proof (cases "i < p + wu")
    case True
    have "fp' u = Some p"
      using place_fields_other [OF rec, of u] Cons.prems(2) by simp
    with True Cons.prems(3) wu show ?thesis
      by (intro exI [of _ u] exI [of _ p] exI [of _ wu]) simp
  next
    case False
    with Cons.IH [OF rec] Cons.prems wu show ?thesis by simp blast
  qed
qed

text \<open>Six known tokens that include each of the six names are a permutation of them.\<close>

definition field_names :: "string list" where
  "field_names = [''ch'', ''ra'', ''bg'', ''ba'', ''ro'', ''co'']"

lemma field_names_distinct: "distinct field_names"
  by (simp add: field_names_def)

lemma length_mapping_tokens: "length (mapping_tokens s) = (length s + 1) div 2"
  by (induction s rule: mapping_tokens.induct) auto

lemma six_tokens_perm:
  assumes "length toks = 6" and "set field_names \<subseteq> set toks"
  shows "distinct toks" and "set toks = set field_names"
proof -
  have c6: "card (set field_names) = 6" by (simp add: field_names_def)
  have "card (set field_names) \<le> card (set toks)"
    using assms(2) by (intro card_mono) auto
  moreover have "card (set toks) \<le> 6" using card_length [of toks] assms(1) by simp
  ultimately have "card (set toks) = 6" using c6 by simp
  then show "distinct toks" using assms(1) by (simp add: card_distinct)
  show "set toks = set field_names"
    using card_subset_eq [OF _ assms(2)] c6 \<open>card (set toks) = 6\<close> by simp
qed

lemma mask_word: "n < 31 \<Longrightarrow> (of_int (2 ^ n - 1) :: u64) = mask n"
  by (simp add: mask_eq_exp_minus_1)

lemma map_field_eq:
  assumes "0 \<le> p" and "p < 64" and "n < 31"
  shows "map_field a p (of_int (2 ^ n - 1)) = Inr (uint (take_bit n (drop_bit (nat p) a)))"
proof -
  let ?v = "take_bit n (drop_bit (nat p) a)"
  have "uint ?v < 2 ^ n" by (simp add: unsigned_take_bit_eq)
  then have "unat ?v < 2 ^ n"
    by (metis of_nat_less_iff of_nat_numeral of_nat_power of_nat_unat)
  also have "\<dots> \<le> 2 ^ 31" using assms(3) by (intro power_increasing) auto
  finally have "to_int32 ?v = uint ?v" by (rule to_int32_small)
  then show ?thesis
    using assms by (simp only: map_field_def mask_word shr64_def take_bit_eq_mask simp_thms if_True bindR_Inr)
qed

text \<open>The six fields of a configuration and of an address, by name.\<close>

definition pos_of :: "Config \<Rightarrow> string \<rightharpoonup> int" where
  "pos_of c = map_of [(''ch'', ch_pos c), (''ra'', ra_pos c), (''bg'', bg_pos c),
     (''ba'', ba_pos c), (''ro'', ro_pos c), (''co'', co_pos c)]"

definition mask_of :: "Config \<Rightarrow> string \<rightharpoonup> u64" where
  "mask_of c = map_of [(''ch'', ch_mask c), (''ra'', ra_mask c), (''bg'', bg_mask c),
     (''ba'', ba_mask c), (''ro'', ro_mask c), (''co'', co_mask c)]"

definition field_of :: "Address \<Rightarrow> string \<rightharpoonup> int" where
  "field_of a = map_of [(''ch'', channel a), (''ra'', rank a), (''bg'', bankgroup a),
     (''ba'', bank a), (''ro'', row a), (''co'', column a)]"

definition total_width :: "Config \<Rightarrow> int" where
  "total_width c = (\<Sum>t\<leftarrow>field_names. the (field_widths c t))"

lemma field_mask_Inr:
  "field_mask w t = Inr m \<longleftrightarrow>
   (\<exists>x. w t = Some x \<and> 0 \<le> x \<and> x < 31 \<and> m = of_int (2 ^ nat x - 1))"
  by (auto simp: field_mask_def map_at_def one_shl_def bindR_eq_Inr split: option.splits if_splits)

lemma map_at_Inr: "map_at m k = Inr v \<longleftrightarrow> m k = Some v"
  by (auto simp: map_at_def split: option.splits)

lemma field_names_all:
  "(\<forall>t \<in> set field_names. P t) \<longleftrightarrow> P ''ch'' \<and> P ''ra'' \<and> P ''bg'' \<and> P ''ba'' \<and> P ''ro'' \<and> P ''co''"
  by (simp add: field_names_def)

lemma set_positions_fields:
  assumes "set_positions fp c = Inr c'"
  shows "(\<forall>t \<in> set field_names. \<exists>p. fp t = Some p \<and> pos_of c' t = Some p) \<and>
    shift_bits c' = shift_bits c"
  using assms unfolding field_names_all
  by (auto simp: set_positions_def bindR_eq_Inr map_at_Inr pos_of_def)

lemma set_masks_fields:
  assumes "set_masks w c = Inr c'"
  shows "(\<forall>t \<in> set field_names. \<exists>m. field_mask w t = Inr m \<and> mask_of c' t = Some m) \<and>
    shift_bits c' = shift_bits c \<and> pos_of c' = pos_of c"
  using assms unfolding field_names_all
  by (auto simp: set_masks_def bindR_eq_Inr mask_of_def pos_of_def)

lemma SetAddressMapping_fields:
  assumes "SetAddressMapping c = Inr c'"
  obtains fp where
    "place_fields (field_widths c) (rev (mapping_tokens (address_mapping c))) Map.empty 0 = Inr fp"
    and "length (address_mapping c) = 12"
    and "\<And>t. t \<in> set field_names \<Longrightarrow> fp t = pos_of c' t \<and> fp t \<noteq> None"
    and "\<And>t. t \<in> set field_names \<Longrightarrow> \<exists>m. field_mask (field_widths c) t = Inr m \<and> mask_of c' t = Some m"
    and "shift_bits c' = LogBase2 (c_div (bus_width c) 8 * BL c)"
proof -
  let ?c = "c\<lparr>request_size_bytes := c_div (bus_width c) 8 * BL c,
    shift_bits := LogBase2 (c_div (bus_width c) 8 * BL c)\<rparr>"
  from assms obtain fp c1 where len: "length (address_mapping c) = 12"
    and place: "place_fields (field_widths c) (rev (mapping_tokens (address_mapping c))) Map.empty 0 = Inr fp"
    and p: "set_positions fp ?c = Inr c1" and m: "set_masks (field_widths c) c1 = Inr c'"
    by (auto simp: SetAddressMapping_def Let_def bindR_eq_Inr split: if_splits)
  show thesis
    using set_positions_fields [OF p] set_masks_fields [OF m]
    by (intro that [OF place len]) auto
qed

lemma AddressMapping_fields:
  assumes "AddressMapping c x = Inr ad"
  shows "\<exists>a. shr64 x (shift_bits c) = Inr a \<and>
    (\<forall>t \<in> set field_names. \<exists>v. map_field a (the (pos_of c t)) (the (mask_of c t)) = Inr v \<and>
       field_of ad t = Some v)"
  using assms unfolding field_names_all
  by (auto simp: AddressMapping_def bindR_eq_Inr pos_of_def mask_of_def field_of_def)

lemma sum_field_names:
  assumes "distinct toks" and "set toks = set field_names"
  shows "(\<Sum>t\<leftarrow>toks. the (field_widths c t)) = total_width c"
proof -
  have "(\<Sum>t\<leftarrow>toks. the (field_widths c t)) = (\<Sum>t\<in>set toks. the (field_widths c t))"
    using assms(1) by (rule sum_list_distinct_conv_sum_set)
  also have "\<dots> = (\<Sum>t\<in>set field_names. the (field_widths c t))"
    using assms(2) by simp
  also have "\<dots> = total_width c"
    unfolding total_width_def using field_names_distinct
    by (rule sum_list_distinct_conv_sum_set [symmetric])
  finally show ?thesis .
qed


lemma place_fields_disjoint:
  assumes "place_fields w toks fp p = Inr fp'" and "distinct toks"
    and "\<forall>t \<in> set toks. 0 \<le> the (w t)"
    and "t \<in> set toks" and "u \<in> set toks" and "t \<noteq> u"
    and "fp' t = Some q" and "fp' u = Some r"
  shows "q + the (w t) \<le> r \<or> r + the (w u) \<le> q"
  using assms
proof (induction toks arbitrary: fp p)
  case Nil
  then show ?case by simp
next
  case (Cons v toks)
  from Cons.prems(1) obtain wv where wv: "w v = Some wv"
    and rec: "place_fields w toks (fp(v \<mapsto> p)) (p + wv) = Inr fp'"
    by (auto split: option.splits)
  have d: "distinct toks" and nns: "\<forall>t \<in> set toks. 0 \<le> the (w t)"
    using Cons.prems(2,3) by auto
  have v: "fp' v = Some p"
    using place_fields_other [OF rec, of v] Cons.prems(2) by simp
  note b = place_fields_bounds [OF rec d nns]
  consider "t = v" "u \<in> set toks" | "u = v" "t \<in> set toks" | "t \<in> set toks" "u \<in> set toks"
    using Cons.prems(4-6) by auto
  then show ?case
  proof cases
    case 1
    with b [OF _ Cons.prems(8)] v wv Cons.prems(7) show ?thesis by simp
  next
    case 2
    with b [OF _ Cons.prems(7)] v wv Cons.prems(8) show ?thesis by simp
  next
    case 3
    then show ?thesis by (rule Cons.IH [OF rec d nns _ _ Cons.prems(6-8)])
  qed
qed

text \<open>
  What a successful \<open>SetAddressMapping\<close> gives for every field \<open>t\<close>: its position, its
  width and its mask; the fields tile the bits below \<open>total_width\<close>.
\<close>

lemma mapping_tokens_perm:
  assumes "SetAddressMapping c = Inr c'"
  shows "distinct (rev (mapping_tokens (address_mapping c)))"
    and "set (rev (mapping_tokens (address_mapping c))) = set field_names"
proof -
  from SetAddressMapping_fields [OF assms] obtain fp where
    place: "place_fields (field_widths c) (rev (mapping_tokens (address_mapping c))) Map.empty 0 = Inr fp"
    and len: "length (address_mapping c) = 12"
    and pos: "\<And>t. t \<in> set field_names \<Longrightarrow> fp t \<noteq> None" by metis
  have "set field_names \<subseteq> dom fp" using pos by auto
  also have "dom fp = set (rev (mapping_tokens (address_mapping c)))"
    using place_fields_dom [OF place] by simp
  finally have sub: "set field_names \<subseteq> set (rev (mapping_tokens (address_mapping c)))" .
  have six: "length (rev (mapping_tokens (address_mapping c))) = 6"
    using len by (simp add: length_mapping_tokens)
  show "distinct (rev (mapping_tokens (address_mapping c)))"
    and "set (rev (mapping_tokens (address_mapping c))) = set field_names"
    using six_tokens_perm [OF six sub] by auto
qed

lemma mapping_widths:
  assumes "SetAddressMapping c = Inr c'" and "t \<in> set field_names"
  shows "\<exists>n. field_widths c t = Some (int n) \<and> n < 31 \<and> mask_of c' t = Some (of_int (2 ^ n - 1))"
proof -
  from SetAddressMapping_fields [OF assms(1)] assms(2)
  obtain m where "field_mask (field_widths c) t = Inr m" and "mask_of c' t = Some m" by metis
  then obtain x where "field_widths c t = Some x" "0 \<le> x" "x < 31" "m = of_int (2 ^ nat x - 1)"
    by (auto simp only: field_mask_Inr)
  with \<open>mask_of c' t = Some m\<close> show ?thesis
    by (intro exI [of _ "nat x"]) (auto simp del: of_int_diff)
qed

lemma mapping_layout:
  assumes "SetAddressMapping c = Inr c'" and "t \<in> set field_names"
  obtains p n where "pos_of c' t = Some p" and "field_widths c t = Some (int n)" and "n < 31"
    and "mask_of c' t = Some (of_int (2 ^ n - 1))" and "0 \<le> p" and "p + int n \<le> total_width c"
proof -
  let ?toks = "rev (mapping_tokens (address_mapping c))"
  obtain fp where place: "place_fields (field_widths c) ?toks Map.empty 0 = Inr fp"
    and pos: "\<And>t. t \<in> set field_names \<Longrightarrow> fp t = pos_of c' t \<and> fp t \<noteq> None"
    using SetAddressMapping_fields [OF assms(1)] by metis
  note perm = mapping_tokens_perm [OF assms(1)]
  obtain p where p: "fp t = Some p" "pos_of c' t = Some p"
    using pos [OF assms(2)] by (metis not_None_eq)
  obtain n where n: "field_widths c t = Some (int n)" "n < 31" "mask_of c' t = Some (of_int (2 ^ n - 1))"
    using mapping_widths [OF assms] by blast
  have nn: "\<forall>t \<in> set ?toks. 0 \<le> the (field_widths c t)"
    using mapping_widths [OF assms(1)] perm(2) by force
  have "0 \<le> p \<and> p + the (field_widths c t) \<le> 0 + (\<Sum>t\<leftarrow>?toks. the (field_widths c t))"
    by (rule place_fields_bounds [OF place perm(1) nn _ p(1)]) (use perm assms(2) in simp)
  then have "0 \<le> p" and "p + int n \<le> total_width c"
    using sum_field_names [OF perm, of c] n by simp_all
  with p n that show thesis by blast
qed

lemma mapping_cover:
  assumes "SetAddressMapping c = Inr c'" and "0 \<le> i" and "i < total_width c"
  obtains t p x where "t \<in> set field_names" and "pos_of c' t = Some p"
    and "field_widths c t = Some x" and "p \<le> i" and "i < p + x"
proof -
  let ?toks = "rev (mapping_tokens (address_mapping c))"
  obtain fp where place: "place_fields (field_widths c) ?toks Map.empty 0 = Inr fp"
    and pos: "\<And>t. t \<in> set field_names \<Longrightarrow> fp t = pos_of c' t \<and> fp t \<noteq> None"
    using SetAddressMapping_fields [OF assms(1)] by metis
  note perm = mapping_tokens_perm [OF assms(1)]
  have "i < 0 + (\<Sum>t\<leftarrow>?toks. the (field_widths c t))"
    using sum_field_names [OF perm, of c] assms(3) by simp
  then obtain t q x where "t \<in> set ?toks" "fp t = Some q" "field_widths c t = Some x" "q \<le> i" "i < q + x"
    using place_fields_cover [OF place perm(1) assms(2)] by blast
  with pos perm(2) that show thesis by metis
qed

lemma mapping_disjoint:
  assumes "SetAddressMapping c = Inr c'" and "t \<in> set field_names" and "u \<in> set field_names"
    and "t \<noteq> u" and "pos_of c' t = Some q" and "pos_of c' u = Some r"
  shows "q + the (field_widths c t) \<le> r \<or> r + the (field_widths c u) \<le> q"
proof -
  let ?toks = "rev (mapping_tokens (address_mapping c))"
  obtain fp where place: "place_fields (field_widths c) ?toks Map.empty 0 = Inr fp"
    and pos: "\<And>t. t \<in> set field_names \<Longrightarrow> fp t = pos_of c' t \<and> fp t \<noteq> None"
    using SetAddressMapping_fields [OF assms(1)] by metis
  note perm = mapping_tokens_perm [OF assms(1)]
  have nn: "\<forall>t \<in> set ?toks. 0 \<le> the (field_widths c t)"
    using mapping_widths [OF assms(1)] perm(2) by force
  show ?thesis
    using place_fields_disjoint [OF place perm(1) nn _ _ assms(4)] pos [OF assms(2)] pos [OF assms(3)]
      perm(2) assms by auto
qed


text \<open>A field of a decoded address is the slice of the shifted address at its position.\<close>

lemma AddressMapping_slice:
  assumes "SetAddressMapping c = Inr c'" and "AddressMapping c' x = Inr ad"
    and "t \<in> set field_names" and "pos_of c' t = Some p" and "field_widths c t = Some (int n)"
  shows "field_of ad t =
    Some (uint (take_bit n (drop_bit (nat p) (drop_bit (nat (shift_bits c')) x))))"
proof -
  obtain a where a: "shr64 x (shift_bits c') = Inr a"
    and f: "\<forall>t \<in> set field_names. \<exists>v. map_field a (the (pos_of c' t)) (the (mask_of c' t)) = Inr v \<and>
       field_of ad t = Some v"
    using AddressMapping_fields [OF assms(2)] by blast
  have a': "a = drop_bit (nat (shift_bits c')) x"
    using a by (auto simp: shr64_def split: if_splits)
  obtain m where m: "mask_of c' t = Some (of_int (2 ^ n - 1))" "n < 31"
    using mapping_widths [OF assms(1,3)] assms(5) by auto
  obtain v where v: "map_field a p (of_int (2 ^ n - 1)) = Inr v" "field_of ad t = Some v"
    using f assms(3,4) m by (metis option.sel)
  then have "0 \<le> p" and "p < 64"
    by (auto simp: map_field_def shr64_def split: if_splits)
  with v map_field_eq [of p n a] m(2) a' show ?thesis by simp
qed

text \<open>Every field of a decoded address is within the width \<open>SetAddressMapping\<close> gave it.\<close>

lemma AddressMapping_field_range:
  assumes "SetAddressMapping c = Inr c'" and "AddressMapping c' x = Inr ad"
    and "t \<in> set field_names" and "field_of ad t = Some v"
  shows "0 \<le> v \<and> v < 2 ^ nat (the (field_widths c t))"
proof -
  obtain p n where l: "pos_of c' t = Some p" "field_widths c t = Some (int n)"
    using mapping_layout [OF assms(1,3)] by metis
  have "v = uint (take_bit n (drop_bit (nat p) (drop_bit (nat (shift_bits c')) x)))"
    using AddressMapping_slice [OF assms(1-3) l] assms(4) by simp
  then have "0 \<le> v \<and> v < 2 ^ n" by (simp add: unsigned_take_bit_eq)
  with l show ?thesis by simp
qed

lemma LogBase2_less: "1 \<le> m \<Longrightarrow> v < 2 ^ nat (LogBase2 m) \<Longrightarrow> v < m"
  using LogBase2_floor(2) [of m] by linarith

lemma AddressMapping_range:
  assumes "SetAddressMapping c = Inr c'" and "AddressMapping c' x = Inr ad"
    and "1 \<le> channels c" and "1 \<le> ranks c" and "1 \<le> bankgroups c"
    and "1 \<le> banks_per_group c" and "1 \<le> rows c"
  shows "0 \<le> channel ad \<and> channel ad < channels c"
    and "0 \<le> rank ad \<and> rank ad < ranks c"
    and "0 \<le> bankgroup ad \<and> bankgroup ad < bankgroups c"
    and "0 \<le> bank ad \<and> bank ad < banks_per_group c"
    and "0 \<le> row ad \<and> row ad < rows c"
    and "0 \<le> column ad"
  using AddressMapping_field_range [OF assms(1,2), of "''ch''"]
    AddressMapping_field_range [OF assms(1,2), of "''ra''"]
    AddressMapping_field_range [OF assms(1,2), of "''bg''"]
    AddressMapping_field_range [OF assms(1,2), of "''ba''"]
    AddressMapping_field_range [OF assms(1,2), of "''ro''"]
    AddressMapping_field_range [OF assms(1,2), of "''co''"]
    LogBase2_less [OF assms(3)] LogBase2_less [OF assms(4)] LogBase2_less [OF assms(5)]
    LogBase2_less [OF assms(6)] LogBase2_less [OF assms(7)]
  by (simp_all add: field_of_def field_names_def field_widths_def Let_def)

text \<open>Two addresses with the same fields agree on every mapped bit.\<close>

lemma AddressMapping_inj_bits:
  assumes "SetAddressMapping c = Inr c'"
    and "AddressMapping c' x = Inr ad" and "AddressMapping c' y = Inr ad"
  shows "take_bit (nat (total_width c)) (drop_bit (nat (shift_bits c')) x) =
    take_bit (nat (total_width c)) (drop_bit (nat (shift_bits c')) y)"
proof (rule bit_word_eqI)
  let ?s = "nat (shift_bits c')"
  fix i assume i64: "i < LENGTH(64)"
  show "bit (take_bit (nat (total_width c)) (drop_bit ?s x)) i =
    bit (take_bit (nat (total_width c)) (drop_bit ?s y)) i"
  proof (cases "int i < total_width c")
    case True
    then obtain t p z where t: "t \<in> set field_names" "pos_of c' t = Some p"
      "field_widths c t = Some z" "p \<le> int i" "int i < p + z"
      using mapping_cover [OF assms(1), of "int i"] by auto
    obtain n where n: "field_widths c t = Some (int n)" "0 \<le> p"
      using mapping_layout [OF assms(1) t(1)] t(2) by (metis option.inject)
    define j where "j = i - nat p"
    have j: "i = nat p + j" "j < n" using t n by (auto simp: j_def)
    have "take_bit n (drop_bit (nat p) (drop_bit ?s x)) = take_bit n (drop_bit (nat p) (drop_bit ?s y))"
      using AddressMapping_slice [OF assms(1,2) t(1,2) n(1)]
        AddressMapping_slice [OF assms(1,3) t(1,2) n(1)] by (metis option.inject word_uint_eq_iff)
    then have "bit (take_bit n (drop_bit (nat p) (drop_bit ?s x))) j =
      bit (take_bit n (drop_bit (nat p) (drop_bit ?s y))) j" by simp
    then show ?thesis using j by (simp add: bit_simps add.commute add.left_commute)
  next
    case False
    then show ?thesis by (simp add: bit_simps zless_nat_eq_int_zless)
  qed
qed


lemma AddressMapping_total:
  assumes "SetAddressMapping c = Inr c'" and "0 \<le> shift_bits c'" and "shift_bits c' < 64"
    and "total_width c < 64"
  shows "\<exists>ad. AddressMapping c' x = Inr ad"
proof -
  have pos: "0 \<le> the (pos_of c' t) \<and> the (pos_of c' t) < 64" if "t \<in> set field_names" for t
    using mapping_layout [OF assms(1) that] assms(4) by fastforce
  then show ?thesis
    using assms(2,3) pos [of "''ch''"] pos [of "''ra''"] pos [of "''bg''"] pos [of "''ba''"]
      pos [of "''ro''"] pos [of "''co''"]
    by (simp add: AddressMapping_def map_field_def shr64_def pos_of_def field_names_def)
qed

text \<open>
  The inverse of the mapping: every field shifted to its position, the whole shifted by
  the bits below the access granularity.
\<close>

definition field_bits :: "Config \<Rightarrow> Address \<Rightarrow> string \<Rightarrow> u64" where
  "field_bits c ad t = push_bit (nat (the (pos_of c t))) (of_int (the (field_of ad t)))"

definition encode_address :: "Config \<Rightarrow> Address \<Rightarrow> u64" where
  "encode_address c ad =
     push_bit (nat (shift_bits c)) (foldr (\<lambda>t w. field_bits c ad t OR w) field_names 0)"

lemma bit_foldr_OR:
  "bit (foldr (\<lambda>t w. f t OR w) ts (0 :: u64)) i \<longleftrightarrow> (\<exists>t \<in> set ts. bit (f t) i)"
  by (induction ts) (auto simp: bit_simps)

lemma bit_of_int_small:
  assumes "0 \<le> v" and "v < 2 ^ n" and "bit (of_int v :: u64) i"
  shows "i < n"
proof (rule ccontr)
  assume "\<not> i < n"
  then have "take_bit n v = v" using assms by (simp add: take_bit_int_eq_self)
  then have "\<not> bit v i" using \<open>\<not> i < n\<close> by (metis bit_take_bit_iff)
  then show False using assms(3) by (simp add: bit_word_of_int_iff)
qed

lemma AddressMapping_encode:
  assumes set: "SetAddressMapping c = Inr c'"
    and shift: "0 \<le> shift_bits c'" and fits: "shift_bits c' + total_width c < 64"
    and range: "\<forall>t \<in> set field_names. 0 \<le> the (field_of ad t) \<and>
      the (field_of ad t) < 2 ^ nat (the (field_widths c t))"
    and dec: "AddressMapping c' (encode_address c' ad) = Inr ad'"
    and t: "t \<in> set field_names"
  shows "field_of ad' t = field_of ad t"
proof -
  let ?s = "nat (shift_bits c')"
  let ?x = "drop_bit ?s (encode_address c' ad)"
  obtain p n where l: "pos_of c' t = Some p" "field_widths c t = Some (int n)" "n < 31" "0 \<le> p"
    "p + int n \<le> total_width c"
    using mapping_layout [OF set t] by metis
  define v where "v = the (field_of ad t)"
  have v: "0 \<le> v" "v < 2 ^ n" using range t l by (auto simp: v_def)
  have bits: "bit (take_bit n (drop_bit (nat p) ?x)) j \<longleftrightarrow> bit (of_int v :: u64) j" if "j < 64" for j
  proof (cases "j < n")
    case True
    have small: "?s + (nat p + j) < 64" using True l shift fits by linarith
    have "bit (take_bit n (drop_bit (nat p) ?x)) j \<longleftrightarrow>
        (\<exists>u \<in> set field_names. bit (field_bits c' ad u) (nat p + j))"
      using True small
      by (simp add: encode_address_def bit_simps bit_foldr_OR add.commute add.left_commute)
    also have "\<dots> \<longleftrightarrow> bit (field_bits c' ad t) (nat p + j)"
    proof
      assume "\<exists>u \<in> set field_names. bit (field_bits c' ad u) (nat p + j)"
      then obtain u where u: "u \<in> set field_names" "bit (field_bits c' ad u) (nat p + j)" by blast
      obtain q m where q: "pos_of c' u = Some q" "field_widths c u = Some (int m)" "0 \<le> q"
        using mapping_layout [OF set u(1)] by metis
      have b: "nat q \<le> nat p + j" "bit (of_int (the (field_of ad u)) :: u64) (nat p + j - nat q)"
        using u(2) q by (auto simp: field_bits_def bit_simps)
      then have "nat p + j - nat q < m"
        using range u(1) q by (intro bit_of_int_small [OF _ _ b(2)]) auto
      moreover have "q + int m \<le> p \<or> p + int n \<le> q" if "u \<noteq> t"
        using mapping_disjoint [OF set u(1) t that q(1) l(1)] q l by simp
      ultimately have "u = t"
        using b(1) True q(3) l(4) by (cases "u = t") (simp, linarith)
      with u show "bit (field_bits c' ad t) (nat p + j)" by simp
    qed (use t in blast)
    also have "\<dots> \<longleftrightarrow> bit (of_int v :: u64) j"
      using small l by (simp add: field_bits_def v_def bit_simps)
    finally show ?thesis .
  next
    case False
    then show ?thesis using bit_of_int_small [OF v, of j] by (auto simp: bit_simps)
  qed
  have "take_bit n (drop_bit (nat p) ?x) = of_int v"
    by (rule bit_word_eqI) (use bits in simp)
  moreover have "uint (of_int v :: u64) = v"
  proof -
    have "(2::int) ^ n \<le> 2 ^ 64" using l(3) by (intro power_increasing) auto
    then show ?thesis using v by (simp add: uint_word_of_int_eq take_bit_int_eq_self)
  qed
  ultimately have "field_of ad' t = Some v"
    using AddressMapping_slice [OF set dec t l(1,2)] by simp
  moreover have "field_of ad t = Some v"
    using t by (auto simp: v_def field_of_def field_names_def)
  ultimately show ?thesis by simp
qed

end
