(* ===== verification/Timing.thy ===== *)
theory Timing
  imports Configuration
begin

text \<open>
  \<open>DRAMSIM3/src/timing.h\<close> and \<open>timing.cc\<close>: for every command the minimum number of
  cycles until each later command, in the same bank, in another bank of the bank group,
  in another bank group of the rank, in another rank, and in the whole rank. Each vector
  of vectors, indexed by the command type, is a function of the command type; the entries
  the constructor does not assign are the empty vectors it starts with.
\<close>

type_synonym timing_table = "CommandType \<Rightarrow> (CommandType \<times> int) list"

record Timing =
  same_bank :: timing_table
  other_banks_same_bankgroup :: timing_table
  other_bankgroups_same_rank :: timing_table
  other_ranks :: timing_table
  same_rank :: timing_table

section \<open>The delays\<close>

text \<open>The local variables of the constructor, after the correction for one bank group.\<close>

definition read_to_read_l :: "Config \<Rightarrow> int" where
  "read_to_read_l c =
     (if bankgroups c = 1 then max (burst_cycle c) (tCCD_S c) else max (burst_cycle c) (tCCD_L c))"

definition read_to_read_s :: "Config \<Rightarrow> int" where
  "read_to_read_s c = max (burst_cycle c) (tCCD_S c)"

definition read_to_read_o :: "Config \<Rightarrow> int" where
  "read_to_read_o c = burst_cycle c + tRTRS c"

definition read_to_write :: "Config \<Rightarrow> int" where
  "read_to_write c = RL c + burst_cycle c - WL c + tRTRS c"

definition read_to_write_o :: "Config \<Rightarrow> int" where
  "read_to_write_o c = read_delay c + burst_cycle c + tRTRS c - write_delay c"

definition read_to_precharge :: "Config \<Rightarrow> int" where
  "read_to_precharge c = AL c + tRTP c"

definition readp_to_act :: "Config \<Rightarrow> int" where
  "readp_to_act c = AL c + burst_cycle c + tRTP c + tRP c"

definition write_to_read_l :: "Config \<Rightarrow> int" where
  "write_to_read_l c =
     (if bankgroups c = 1 then write_delay c + tWTR_S c else write_delay c + tWTR_L c)"

definition write_to_read_s :: "Config \<Rightarrow> int" where
  "write_to_read_s c = write_delay c + tWTR_S c"

definition write_to_read_o :: "Config \<Rightarrow> int" where
  "write_to_read_o c = write_delay c + burst_cycle c + tRTRS c - read_delay c"

definition write_to_write_l :: "Config \<Rightarrow> int" where
  "write_to_write_l c =
     (if bankgroups c = 1 then max (burst_cycle c) (tCCD_S c) else max (burst_cycle c) (tCCD_L c))"

definition write_to_write_s :: "Config \<Rightarrow> int" where
  "write_to_write_s c = max (burst_cycle c) (tCCD_S c)"

definition write_to_write_o :: "Config \<Rightarrow> int" where
  "write_to_write_o c = burst_cycle c"

definition write_to_precharge :: "Config \<Rightarrow> int" where
  "write_to_precharge c = WL c + burst_cycle c + tWR c"

definition precharge_to_activate :: "Config \<Rightarrow> int" where
  "precharge_to_activate c = tRP c"

definition precharge_to_precharge :: "Config \<Rightarrow> int" where
  "precharge_to_precharge c = tPPD c"

definition read_to_activate :: "Config \<Rightarrow> int" where
  "read_to_activate c = read_to_precharge c + precharge_to_activate c"

definition write_to_activate :: "Config \<Rightarrow> int" where
  "write_to_activate c = write_to_precharge c + precharge_to_activate c"

definition activate_to_activate :: "Config \<Rightarrow> int" where
  "activate_to_activate c = tRC c"

definition activate_to_activate_l :: "Config \<Rightarrow> int" where
  "activate_to_activate_l c = (if bankgroups c = 1 then tRRD_S c else tRRD_L c)"

definition activate_to_activate_s :: "Config \<Rightarrow> int" where
  "activate_to_activate_s c = tRRD_S c"

definition activate_to_precharge :: "Config \<Rightarrow> int" where
  "activate_to_precharge c = tRAS c"

definition activate_to_read :: "Config \<Rightarrow> int" where
  "activate_to_read c = (if IsGDDR c \<or> IsHBM c then tRCDRD c else tRCD c - AL c)"

definition activate_to_write :: "Config \<Rightarrow> int" where
  "activate_to_write c = (if IsGDDR c \<or> IsHBM c then tRCDWR c else tRCD c - AL c)"

definition activate_to_refresh :: "Config \<Rightarrow> int" where
  "activate_to_refresh c = tRC c"

definition refresh_to_refresh :: "Config \<Rightarrow> int" where
  "refresh_to_refresh c = tREFI c"

definition refresh_to_activate :: "Config \<Rightarrow> int" where
  "refresh_to_activate c = tRFC c"

definition refresh_to_activate_bank :: "Config \<Rightarrow> int" where
  "refresh_to_activate_bank c = tRFCb c"

definition self_refresh_entry_to_exit :: "Config \<Rightarrow> int" where
  "self_refresh_entry_to_exit c = tCKESR c"

definition self_refresh_exit :: "Config \<Rightarrow> int" where
  "self_refresh_exit c = tXS c"

lemmas delay_defs =
  read_to_read_l_def read_to_read_s_def read_to_read_o_def read_to_write_def
  read_to_write_o_def read_to_precharge_def readp_to_act_def write_to_read_l_def
  write_to_read_s_def write_to_read_o_def write_to_write_l_def write_to_write_s_def
  write_to_write_o_def write_to_precharge_def precharge_to_activate_def
  precharge_to_precharge_def read_to_activate_def write_to_activate_def
  activate_to_activate_def activate_to_activate_l_def activate_to_activate_s_def
  activate_to_precharge_def activate_to_read_def activate_to_write_def
  activate_to_refresh_def refresh_to_refresh_def refresh_to_activate_def
  refresh_to_activate_bank_def self_refresh_entry_to_exit_def self_refresh_exit_def

section \<open>The tables\<close>

definition tim_same_bank :: "Config \<Rightarrow> timing_table" where
  "tim_same_bank c t =
     (case t of
        READ \<Rightarrow>
          [(READ, read_to_read_l c), (WRITE, read_to_write c), (READ_PRECHARGE, read_to_read_l c),
           (WRITE_PRECHARGE, read_to_write c), (PRECHARGE, read_to_precharge c)]
      | WRITE \<Rightarrow>
          [(READ, write_to_read_l c), (WRITE, write_to_write_l c), (READ_PRECHARGE, write_to_read_l c),
           (WRITE_PRECHARGE, write_to_write_l c), (PRECHARGE, write_to_precharge c)]
      | READ_PRECHARGE \<Rightarrow>
          [(ACTIVATE, readp_to_act c), (REFRESH, read_to_activate c),
           (REFRESH_BANK, read_to_activate c), (SREF_ENTER, read_to_activate c)]
      | WRITE_PRECHARGE \<Rightarrow>
          [(ACTIVATE, write_to_activate c), (REFRESH, write_to_activate c),
           (REFRESH_BANK, write_to_activate c), (SREF_ENTER, write_to_activate c)]
      | ACTIVATE \<Rightarrow>
          [(ACTIVATE, activate_to_activate c), (READ, activate_to_read c),
           (WRITE, activate_to_write c), (READ_PRECHARGE, activate_to_read c),
           (WRITE_PRECHARGE, activate_to_write c), (PRECHARGE, activate_to_precharge c)]
      | PRECHARGE \<Rightarrow>
          [(ACTIVATE, precharge_to_activate c), (REFRESH, precharge_to_activate c),
           (REFRESH_BANK, precharge_to_activate c), (SREF_ENTER, precharge_to_activate c)]
      | _ \<Rightarrow> [])"

definition tim_other_banks_same_bankgroup :: "Config \<Rightarrow> timing_table" where
  "tim_other_banks_same_bankgroup c t =
     (case t of
        READ \<Rightarrow>
          [(READ, read_to_read_l c), (WRITE, read_to_write c), (READ_PRECHARGE, read_to_read_l c),
           (WRITE_PRECHARGE, read_to_write c)]
      | WRITE \<Rightarrow>
          [(READ, write_to_read_l c), (WRITE, write_to_write_l c), (READ_PRECHARGE, write_to_read_l c),
           (WRITE_PRECHARGE, write_to_write_l c)]
      | READ_PRECHARGE \<Rightarrow>
          [(READ, read_to_read_l c), (WRITE, read_to_write c), (READ_PRECHARGE, read_to_read_l c),
           (WRITE_PRECHARGE, read_to_write c)]
      | WRITE_PRECHARGE \<Rightarrow>
          [(READ, write_to_read_l c), (WRITE, write_to_write_l c), (READ_PRECHARGE, write_to_read_l c),
           (WRITE_PRECHARGE, write_to_write_l c)]
      | ACTIVATE \<Rightarrow>
          [(ACTIVATE, activate_to_activate_l c), (REFRESH_BANK, activate_to_refresh c)]
      | PRECHARGE \<Rightarrow>
          (if IsGDDR c \<or> protocol c = LPDDR4 then [(PRECHARGE, precharge_to_precharge c)] else [])
      | REFRESH_BANK \<Rightarrow>
          [(ACTIVATE, refresh_to_activate c), (REFRESH_BANK, refresh_to_refresh c)]
      | _ \<Rightarrow> [])"

definition tim_other_bankgroups_same_rank :: "Config \<Rightarrow> timing_table" where
  "tim_other_bankgroups_same_rank c t =
     (case t of
        READ \<Rightarrow>
          [(READ, read_to_read_s c), (WRITE, read_to_write c), (READ_PRECHARGE, read_to_read_s c),
           (WRITE_PRECHARGE, read_to_write c)]
      | WRITE \<Rightarrow>
          [(READ, write_to_read_s c), (WRITE, write_to_write_s c), (READ_PRECHARGE, write_to_read_s c),
           (WRITE_PRECHARGE, write_to_write_s c)]
      | READ_PRECHARGE \<Rightarrow>
          [(READ, read_to_read_s c), (WRITE, read_to_write c), (READ_PRECHARGE, read_to_read_s c),
           (WRITE_PRECHARGE, read_to_write c)]
      | WRITE_PRECHARGE \<Rightarrow>
          [(READ, write_to_read_s c), (WRITE, write_to_write_s c), (READ_PRECHARGE, write_to_read_s c),
           (WRITE_PRECHARGE, write_to_write_s c)]
      | ACTIVATE \<Rightarrow>
          [(ACTIVATE, activate_to_activate_s c), (REFRESH_BANK, activate_to_refresh c)]
      | PRECHARGE \<Rightarrow>
          (if IsGDDR c \<or> protocol c = LPDDR4 then [(PRECHARGE, precharge_to_precharge c)] else [])
      | REFRESH_BANK \<Rightarrow>
          [(ACTIVATE, refresh_to_activate c), (REFRESH_BANK, refresh_to_refresh c)]
      | _ \<Rightarrow> [])"

definition tim_other_ranks :: "Config \<Rightarrow> timing_table" where
  "tim_other_ranks c t =
     (case t of
        READ \<Rightarrow>
          [(READ, read_to_read_o c), (WRITE, read_to_write_o c), (READ_PRECHARGE, read_to_read_o c),
           (WRITE_PRECHARGE, read_to_write_o c)]
      | WRITE \<Rightarrow>
          [(READ, write_to_read_o c), (WRITE, write_to_write_o c), (READ_PRECHARGE, write_to_read_o c),
           (WRITE_PRECHARGE, write_to_write_o c)]
      | READ_PRECHARGE \<Rightarrow>
          [(READ, read_to_read_o c), (WRITE, read_to_write_o c), (READ_PRECHARGE, read_to_read_o c),
           (WRITE_PRECHARGE, read_to_write_o c)]
      | WRITE_PRECHARGE \<Rightarrow>
          [(READ, write_to_read_o c), (WRITE, write_to_write_o c), (READ_PRECHARGE, write_to_read_o c),
           (WRITE_PRECHARGE, write_to_write_o c)]
      | _ \<Rightarrow> [])"

definition tim_same_rank :: "Config \<Rightarrow> timing_table" where
  "tim_same_rank c t =
     (case t of
        REFRESH_BANK \<Rightarrow>
          [(ACTIVATE, refresh_to_activate_bank c), (REFRESH, refresh_to_activate_bank c),
           (REFRESH_BANK, refresh_to_activate_bank c), (SREF_ENTER, refresh_to_activate_bank c)]
      | REFRESH \<Rightarrow>
          [(ACTIVATE, refresh_to_activate c), (REFRESH, refresh_to_activate c),
           (SREF_ENTER, refresh_to_activate c)]
      | SREF_ENTER \<Rightarrow> [(SREF_EXIT, self_refresh_entry_to_exit c)]
      | SREF_EXIT \<Rightarrow>
          [(ACTIVATE, self_refresh_exit c), (REFRESH, self_refresh_exit c),
           (REFRESH_BANK, self_refresh_exit c), (SREF_ENTER, self_refresh_exit c)]
      | _ \<Rightarrow> [])"

definition mk_Timing :: "Config \<Rightarrow> Timing" where
  "mk_Timing c =
     \<lparr>same_bank = tim_same_bank c,
      other_banks_same_bankgroup = tim_other_banks_same_bankgroup c,
      other_bankgroups_same_rank = tim_other_bankgroups_same_rank c,
      other_ranks = tim_other_ranks c,
      same_rank = tim_same_rank c\<rparr>"

lemma mk_Timing_simps [simp]:
  "same_bank (mk_Timing c) = tim_same_bank c"
  "other_banks_same_bankgroup (mk_Timing c) = tim_other_banks_same_bankgroup c"
  "other_bankgroups_same_rank (mk_Timing c) = tim_other_bankgroups_same_rank c"
  "other_ranks (mk_Timing c) = tim_other_ranks c"
  "same_rank (mk_Timing c) = tim_same_rank c"
  by (simp_all add: mk_Timing_def)

lemmas timing_table_defs =
  tim_same_bank_def tim_other_banks_same_bankgroup_def tim_other_bankgroups_same_rank_def
  tim_other_ranks_def tim_same_rank_def

text \<open>No table mentions the end marker of the enumeration.\<close>

lemma timing_tables_proper:
  "SIZE_CMD \<notin> fst ` set (tim_same_bank c t)"
  "SIZE_CMD \<notin> fst ` set (tim_other_banks_same_bankgroup c t)"
  "SIZE_CMD \<notin> fst ` set (tim_other_bankgroups_same_rank c t)"
  "SIZE_CMD \<notin> fst ` set (tim_other_ranks c t)"
  "SIZE_CMD \<notin> fst ` set (tim_same_rank c t)"
  by (auto simp: timing_table_defs split: CommandType.splits)

text \<open>With one bank group the banks of the group obey the short delays of other groups.\<close>

lemma one_bankgroup_short_delays:
  assumes "bankgroups c = 1"
  shows "tim_other_banks_same_bankgroup c t = tim_other_bankgroups_same_rank c t"
  using assms
  by (cases t)
    (simp_all add: tim_other_banks_same_bankgroup_def tim_other_bankgroups_same_rank_def delay_defs)

end
