(* ===== verification/Channel_State.thy ===== *)
theory Channel_State
  imports Bank_State Timing
begin

text \<open>
  \<open>DRAMSIM3/src/channel_state.h\<close> and \<open>channel_state.cc\<close>: the banks of a channel, the queue
  of waiting refreshes and the activation windows. The constant references \<open>config_\<close>
  and \<open>timing_\<close> of the class are the arguments \<open>c\<close> and \<open>tm\<close> of the operations. Nested
  \<open>for\<close> loops over bank groups and banks run over the list of index pairs (or triples) in
  the order the loops visit them.
\<close>

section \<open>The channel\<close>

record ChannelState =
  rank_idle_cycles :: "int list"
  rank_is_sref :: "bool list"
  bank_states :: "BankState grid"
  refresh_q :: "Command list"
  four_aw :: "u64 list list"
  thirty_two_aw :: "u64 list list"

definition mk_ChannelState :: "Config \<Rightarrow> ChannelState" where
  "mk_ChannelState c =
     \<lparr>rank_idle_cycles = replicate (nat (ranks c)) 0,
      rank_is_sref = replicate (nat (ranks c)) False,
      bank_states =
        replicate (nat (ranks c))
          (replicate (nat (bankgroups c)) (replicate (nat (banks_per_group c)) BankState0)),
      refresh_q = [],
      four_aw = replicate (nat (ranks c)) [],
      thirty_two_aw = replicate (nat (ranks c)) []\<rparr>"

text \<open>\<open>for j < bankgroups, for k < banks_per_group\<close>.\<close>

definition bank_loop :: "Config \<Rightarrow> (int \<times> int) list" where
  "bank_loop c = List.product [0 .. bankgroups c - 1] [0 .. banks_per_group c - 1]"

definition chan_IsRowOpen :: "ChannelState \<Rightarrow> int \<Rightarrow> int \<Rightarrow> int \<Rightarrow> bool result" where
  "chan_IsRowOpen s r j k = bindR (get3 (bank_states s) r j k) (\<lambda>b. Inr (IsRowOpen b))"

definition chan_OpenRow :: "ChannelState \<Rightarrow> int \<Rightarrow> int \<Rightarrow> int \<Rightarrow> int result" where
  "chan_OpenRow s r j k = bindR (get3 (bank_states s) r j k) (\<lambda>b. Inr (OpenRow b))"

definition chan_RowHitCount :: "ChannelState \<Rightarrow> int \<Rightarrow> int \<Rightarrow> int \<Rightarrow> int result" where
  "chan_RowHitCount s r j k = bindR (get3 (bank_states s) r j k) (\<lambda>b. Inr (RowHitCount b))"

definition IsRankSelfRefreshing :: "ChannelState \<Rightarrow> int \<Rightarrow> bool result" where
  "IsRankSelfRefreshing s r = vec_at (rank_is_sref s) r"

definition IsRefreshWaiting :: "ChannelState \<Rightarrow> bool" where
  "IsRefreshWaiting s \<longleftrightarrow> refresh_q s \<noteq> []"

definition PendingRefCommand :: "ChannelState \<Rightarrow> Command result" where
  "PendingRefCommand s = (case refresh_q s of [] \<Rightarrow> Inl OutOfBounds | cmd # _ \<Rightarrow> Inr cmd)"

fun all_idle_loop :: "ChannelState \<Rightarrow> int \<Rightarrow> (int \<times> int) list \<Rightarrow> bool result" where
  "all_idle_loop s r [] = Inr True"
| "all_idle_loop s r ((j, k) # ps) =
     bindR (get3 (bank_states s) r j k) (\<lambda>b.
       if IsRowOpen b then Inr False else all_idle_loop s r ps)"

definition IsAllBankIdleInRank :: "Config \<Rightarrow> ChannelState \<Rightarrow> int \<Rightarrow> bool result" where
  "IsAllBankIdleInRank c s r = all_idle_loop s r (bank_loop c)"

definition IsRWPendingOnRef :: "ChannelState \<Rightarrow> Command \<Rightarrow> bool result" where
  "IsRWPendingOnRef s cmd =
     bindR (get3 (bank_states s) (Rank cmd) (Bankgroup cmd) (Bank cmd)) (\<lambda>b.
       Inr (IsRowOpen b \<and> RowHitCount b = 0 \<and> OpenRow b = Row cmd))"

definition BankNeedRefresh ::
  "ChannelState \<Rightarrow> int \<Rightarrow> int \<Rightarrow> int \<Rightarrow> bool \<Rightarrow> ChannelState" where
  "BankNeedRefresh s r j k need =
     (if need then
        s\<lparr>refresh_q := refresh_q s @ [mk_Command REFRESH_BANK (mk_Address (-1) r j k (-1) (-1)) (-1)]\<rparr>
      else
        s\<lparr>refresh_q :=
            erase_first (\<lambda>q. Rank q = r \<and> Bankgroup q = j \<and> Bank q = k) (refresh_q s)\<rparr>)"

definition RankNeedRefresh :: "ChannelState \<Rightarrow> int \<Rightarrow> bool \<Rightarrow> ChannelState" where
  "RankNeedRefresh s r need =
     (if need then
        s\<lparr>refresh_q := refresh_q s @
            [mk_Command REFRESH (mk_Address (-1) r (-1) (-1) (-1) (-1)) (-1)]\<rparr>
      else s\<lparr>refresh_q := erase_first (\<lambda>q. Rank q = r) (refresh_q s)\<rparr>)"

subsection \<open>Activation windows\<close>

definition IsFAWReady :: "ChannelState \<Rightarrow> int \<Rightarrow> u64 \<Rightarrow> bool result" where
  "IsFAWReady s r curr_time =
     bindR (vec_at (four_aw s) r) (\<lambda>w.
       Inr (\<not> (w \<noteq> [] \<and> curr_time < hd w \<and> 4 \<le> length w)))"

definition Is32AWReady :: "ChannelState \<Rightarrow> int \<Rightarrow> u64 \<Rightarrow> bool result" where
  "Is32AWReady s r curr_time =
     bindR (vec_at (thirty_two_aw s) r) (\<lambda>w.
       Inr (\<not> (w \<noteq> [] \<and> curr_time < hd w \<and> 32 \<le> length w)))"

definition ActivationWindowOk :: "Config \<Rightarrow> ChannelState \<Rightarrow> int \<Rightarrow> u64 \<Rightarrow> bool result" where
  "ActivationWindowOk c s r curr_time =
     bindR (IsFAWReady s r curr_time) (\<lambda>tfaw_ok.
       if IsGDDR c then if \<not> tfaw_ok then Inr False else Is32AWReady s r curr_time
       else Inr tfaw_ok)"

text \<open>Drop the oldest entry when it has expired, then append the new one.\<close>

definition push_window :: "u64 list \<Rightarrow> u64 \<Rightarrow> u64 \<Rightarrow> u64 list" where
  "push_window w curr_time expiry =
     (if w \<noteq> [] \<and> curr_time \<ge> hd w then tl w else w) @ [expiry]"

definition UpdateActivationTimes ::
  "Config \<Rightarrow> ChannelState \<Rightarrow> int \<Rightarrow> u64 \<Rightarrow> ChannelState result" where
  "UpdateActivationTimes c s r curr_time =
     bindR (vec_at (four_aw s) r) (\<lambda>w.
     bindR (vec_set (four_aw s) r (push_window w curr_time (curr_time + of_int (tFAW c)))) (\<lambda>faw.
       let s1 = s\<lparr>four_aw := faw\<rparr>
       in if IsGDDR c then
            bindR (vec_at (thirty_two_aw s1) r) (\<lambda>w32.
            bindR (vec_set (thirty_two_aw s1) r
                     (push_window w32 curr_time (curr_time + of_int (t32AW c)))) (\<lambda>aw32.
              Inr (s1\<lparr>thirty_two_aw := aw32\<rparr>)))
          else Inr s1))"

subsection \<open>The next command towards a request\<close>

text \<open>
  The loop over the banks of a rank: \<open>Inl\<close> is the early return of a command that some
  bank needs first, \<open>Inr\<close> the last command computed and the number of ready banks.
\<close>

fun rank_ready_loop ::
  "ChannelState \<Rightarrow> Command \<Rightarrow> u64 \<Rightarrow> (int \<times> int) list \<Rightarrow> Command \<Rightarrow> int \<Rightarrow>
   (Command + Command \<times> int) result" where
  "rank_ready_loop s cmd clk [] ready_cmd num_ready = Inr (Inr (ready_cmd, num_ready))"
| "rank_ready_loop s cmd clk ((j, k) # ps) ready_cmd num_ready =
     bindR (get3 (bank_states s) (Rank cmd) j k) (\<lambda>b.
     bindR (bank_GetReadyCommand b cmd clk) (\<lambda>rc.
       if \<not> IsValid rc then rank_ready_loop s cmd clk ps rc num_ready
       else if cmd_type rc \<noteq> cmd_type cmd
       then Inr (Inl (rc\<lparr>cmd_addr := mk_Address (-1) (Rank cmd) j k (-1) (-1)\<rparr>))
       else rank_ready_loop s cmd clk ps rc (num_ready + 1)))"

definition chan_GetReadyCommand ::
  "Config \<Rightarrow> ChannelState \<Rightarrow> Command \<Rightarrow> u64 \<Rightarrow> Command result" where
  "chan_GetReadyCommand c s cmd clk =
     (if IsRankCMD cmd then
        bindR (rank_ready_loop s cmd clk (bank_loop c) Command0 0) (\<lambda>res.
          case res of
            Inl early \<Rightarrow> Inr early
          | Inr (ready_cmd, num_ready) \<Rightarrow>
              if num_ready = banks c then Inr ready_cmd else Inr Command0)
      else
        bindR (get3 (bank_states s) (Rank cmd) (Bankgroup cmd) (Bank cmd)) (\<lambda>b.
        bindR (bank_GetReadyCommand b cmd clk) (\<lambda>ready_cmd.
          if \<not> IsValid ready_cmd then Inr Command0
          else if cmd_type ready_cmd = ACTIVATE then
            bindR (ActivationWindowOk c s (Rank ready_cmd) clk) (\<lambda>ok.
              if \<not> ok then Inr Command0 else Inr ready_cmd)
          else Inr ready_cmd)))"

subsection \<open>Issuing a command\<close>

definition update_bank ::
  "Command \<Rightarrow> int \<Rightarrow> int \<Rightarrow> int \<Rightarrow> BankState grid \<Rightarrow> BankState grid result" where
  "update_bank cmd r j k g =
     bindR (get3 g r j k) (\<lambda>b. bindR (bank_UpdateState b cmd) (\<lambda>b'. mod3 (\<lambda>_. b') g r j k))"

definition chan_UpdateState :: "Config \<Rightarrow> ChannelState \<Rightarrow> Command \<Rightarrow> ChannelState result" where
  "chan_UpdateState c s cmd =
     (if IsRankCMD cmd then
        bindR (foldR (\<lambda>(j, k). update_bank cmd (Rank cmd) j k) (bank_loop c) (bank_states s)) (\<lambda>g.
          let s1 = s\<lparr>bank_states := g\<rparr>
          in if IsRefresh cmd then Inr (RankNeedRefresh s1 (Rank cmd) False)
             else if cmd_type cmd = SREF_ENTER then
               bindR (vec_set (rank_is_sref s1) (Rank cmd) True) (\<lambda>v. Inr (s1\<lparr>rank_is_sref := v\<rparr>))
             else if cmd_type cmd = SREF_EXIT then
               bindR (vec_set (rank_is_sref s1) (Rank cmd) False) (\<lambda>v. Inr (s1\<lparr>rank_is_sref := v\<rparr>))
             else Inr s1)
      else
        bindR (update_bank cmd (Rank cmd) (Bankgroup cmd) (Bank cmd) (bank_states s)) (\<lambda>g.
          let s1 = s\<lparr>bank_states := g\<rparr>
          in if IsRefresh cmd then Inr (BankNeedRefresh s1 (Rank cmd) (Bankgroup cmd) (Bank cmd) False)
             else Inr s1))"

text \<open>
  For every bank of the index list, for every entry of the timing list: \<open>UpdateTiming\<close>.
\<close>

definition update_timings ::
  "(int \<times> int \<times> int) list \<Rightarrow> (CommandType \<times> int) list \<Rightarrow> u64 \<Rightarrow> BankState grid \<Rightarrow>
   BankState grid result" where
  "update_timings idx cmd_timing_list clk =
     foldR (\<lambda>(r, j, k).
       foldR (\<lambda>(t, d) g. mod3 (\<lambda>b. bank_UpdateTiming b t (clk + of_int d)) g r j k)
         cmd_timing_list) idx"

definition UpdateSameBankTiming ::
  "Address \<Rightarrow> (CommandType \<times> int) list \<Rightarrow> u64 \<Rightarrow> BankState grid \<Rightarrow> BankState grid result" where
  "UpdateSameBankTiming a l clk = update_timings [(rank a, bankgroup a, bank a)] l clk"

definition UpdateOtherBanksSameBankgroupTiming ::
  "Config \<Rightarrow> Address \<Rightarrow> (CommandType \<times> int) list \<Rightarrow> u64 \<Rightarrow> BankState grid \<Rightarrow> BankState grid result" where
  "UpdateOtherBanksSameBankgroupTiming c a l clk =
     update_timings
       (map (\<lambda>k. (rank a, bankgroup a, k)) (filter (\<lambda>k. k \<noteq> bank a) [0 .. banks_per_group c - 1]))
       l clk"

definition UpdateOtherBankgroupsSameRankTiming ::
  "Config \<Rightarrow> Address \<Rightarrow> (CommandType \<times> int) list \<Rightarrow> u64 \<Rightarrow> BankState grid \<Rightarrow> BankState grid result" where
  "UpdateOtherBankgroupsSameRankTiming c a l clk =
     update_timings
       (map (\<lambda>(j, k). (rank a, j, k)) (filter (\<lambda>(j, k). j \<noteq> bankgroup a) (bank_loop c)))
       l clk"

definition UpdateOtherRanksTiming ::
  "Config \<Rightarrow> Address \<Rightarrow> (CommandType \<times> int) list \<Rightarrow> u64 \<Rightarrow> BankState grid \<Rightarrow> BankState grid result" where
  "UpdateOtherRanksTiming c a l clk =
     update_timings
       (List.product (filter (\<lambda>i. i \<noteq> rank a) [0 .. ranks c - 1]) (bank_loop c)) l clk"

definition UpdateSameRankTiming ::
  "Config \<Rightarrow> Address \<Rightarrow> (CommandType \<times> int) list \<Rightarrow> u64 \<Rightarrow> BankState grid \<Rightarrow> BankState grid result" where
  "UpdateSameRankTiming c a l clk =
     update_timings (map (\<lambda>(j, k). (rank a, j, k)) (bank_loop c)) l clk"

definition update_bank_timings ::
  "Config \<Rightarrow> Timing \<Rightarrow> Command \<Rightarrow> u64 \<Rightarrow> BankState grid \<Rightarrow> BankState grid result" where
  "update_bank_timings c tm cmd clk g =
     bindR (UpdateSameBankTiming (cmd_addr cmd) (same_bank tm (cmd_type cmd)) clk g) (\<lambda>g1.
     bindR (UpdateOtherBanksSameBankgroupTiming c (cmd_addr cmd)
              (other_banks_same_bankgroup tm (cmd_type cmd)) clk g1) (\<lambda>g2.
     bindR (UpdateOtherBankgroupsSameRankTiming c (cmd_addr cmd)
              (other_bankgroups_same_rank tm (cmd_type cmd)) clk g2) (\<lambda>g3.
     UpdateOtherRanksTiming c (cmd_addr cmd) (other_ranks tm (cmd_type cmd)) clk g3)))"

definition chan_UpdateTiming ::
  "Config \<Rightarrow> Timing \<Rightarrow> ChannelState \<Rightarrow> Command \<Rightarrow> u64 \<Rightarrow> ChannelState result" where
  "chan_UpdateTiming c tm s cmd clk =
     (let bank_level = (\<lambda>s1.
            bindR (update_bank_timings c tm cmd clk (bank_states s1)) (\<lambda>g.
              Inr (s1\<lparr>bank_states := g\<rparr>)));
          rank_level =
            bindR (UpdateSameRankTiming c (cmd_addr cmd) (same_rank tm (cmd_type cmd)) clk
                     (bank_states s)) (\<lambda>g. Inr (s\<lparr>bank_states := g\<rparr>))
      in case cmd_type cmd of
           ACTIVATE \<Rightarrow> bindR (UpdateActivationTimes c s (Rank cmd) clk) bank_level
         | READ \<Rightarrow> bank_level s
         | READ_PRECHARGE \<Rightarrow> bank_level s
         | WRITE \<Rightarrow> bank_level s
         | WRITE_PRECHARGE \<Rightarrow> bank_level s
         | PRECHARGE \<Rightarrow> bank_level s
         | REFRESH_BANK \<Rightarrow> bank_level s
         | REFRESH \<Rightarrow> rank_level
         | SREF_ENTER \<Rightarrow> rank_level
         | SREF_EXIT \<Rightarrow> rank_level
         | SIZE_CMD \<Rightarrow> Inl (AbruptExit ''channel_state.cc'' 183))"

definition UpdateTimingAndStates ::
  "Config \<Rightarrow> Timing \<Rightarrow> ChannelState \<Rightarrow> Command \<Rightarrow> u64 \<Rightarrow> ChannelState result" where
  "UpdateTimingAndStates c tm s cmd clk =
     bindR (chan_UpdateState c s cmd) (\<lambda>s1. chan_UpdateTiming c tm s1 cmd clk)"

section \<open>Geometry\<close>

definition geometry_ok :: "Config \<Rightarrow> bool" where
  "geometry_ok c \<longleftrightarrow> 1 \<le> ranks c \<and> 1 \<le> bankgroups c \<and> 1 \<le> banks_per_group c \<and>
     banks c = bankgroups c * banks_per_group c"

abbreviation bank_shape :: "Config \<Rightarrow> BankState grid \<Rightarrow> bool" where
  "bank_shape c g \<equiv> shape3 (nat (ranks c)) (nat (bankgroups c)) (nat (banks_per_group c)) g"

definition bank_index :: "Config \<Rightarrow> int \<Rightarrow> int \<Rightarrow> int \<Rightarrow> bool" where
  "bank_index c r j k \<longleftrightarrow> 0 \<le> r \<and> r < ranks c \<and> 0 \<le> j \<and> j < bankgroups c \<and>
     0 \<le> k \<and> k < banks_per_group c"

definition at_bank :: "BankState grid \<Rightarrow> int \<times> int \<times> int \<Rightarrow> BankState" where
  "at_bank g p = (case p of (r, j, k) \<Rightarrow> at3 g (nat r) (nat j) (nat k))"

lemma in3_bank_shape: "bank_shape c g \<Longrightarrow> in3 g r j k \<longleftrightarrow> bank_index c r j k"
  by (auto simp: in3_shape bank_index_def)

lemma get3_bank: "bank_shape c g \<Longrightarrow> bank_index c r j k \<Longrightarrow> get3 g r j k = Inr (at_bank g (r, j, k))"
  by (simp add: get3_def in3_bank_shape at_bank_def)

lemma mod3_bank:
  assumes "bank_shape c g" and "bank_index c r j k"
  shows "mod3 f g r j k = Inr (upd3 g (nat r) (nat j) (nat k) (f (at_bank g (r, j, k))))"
  using assms by (simp add: mod3_def in3_bank_shape at_bank_def)

lemma at_bank_upd3:
  assumes "bank_shape c g" and "bank_index c r j k" and "bank_index c r' j' k'"
  shows "at_bank (upd3 g (nat r) (nat j) (nat k) v) (r', j', k') =
    (if (r', j', k') = (r, j, k) then v else at_bank g (r', j', k'))"
  using assms by (auto simp: at_bank_def at3_upd3 bank_index_def nat_eq_iff)

lemma bank_loop_set: "(j, k) \<in> set (bank_loop c) \<longleftrightarrow>
    0 \<le> j \<and> j < bankgroups c \<and> 0 \<le> k \<and> k < banks_per_group c"
  by (auto simp: bank_loop_def)

lemma bank_loop_distinct [simp]: "distinct (bank_loop c)"
  by (simp add: bank_loop_def distinct_product)

section \<open>Loops over the banks\<close>

lemma timing_loop_bank:
  assumes "bank_shape c g" and "bank_index c r j k"
  shows "foldR (\<lambda>(t, d) g. mod3 (\<lambda>b. bank_UpdateTiming b t (clk + of_int d)) g r j k) l g =
    Inr (upd3 g (nat r) (nat j) (nat k) (apply_timings l clk (at_bank g (r, j, k))))"
  using assms(1)
proof (induction l arbitrary: g)
  case Nil
  then show ?case
    using assms(2) by (auto simp: at_bank_def bank_index_def upd3_self)
next
  case (Cons p l)
  obtain t d where p: "p = (t, d)" by (cases p)
  show ?case
    using Cons.IH [of "upd3 g (nat r) (nat j) (nat k) (bank_UpdateTiming (at_bank g (r, j, k)) t (clk + of_int d))"]
      Cons.prems assms(2)
    by (simp add: p mod3_bank at_bank_upd3)
qed

text \<open>
  A loop that transforms each bank of an index list without repetitions, independently of
  the others, transforms exactly these banks.
\<close>

lemma foldR_banks:
  assumes step: "\<And>r j k g. (r, j, k) \<in> set idx \<Longrightarrow> bank_shape c g \<Longrightarrow> at_bank g (r, j, k) = at_bank g0 (r, j, k) \<Longrightarrow>
      f (r, j, k) g = Inr (upd3 g (nat r) (nat j) (nat k) (h (r, j, k)))"
    and "distinct idx" and "\<forall>(r, j, k) \<in> set idx. bank_index c r j k"
    and "bank_shape c g"
    and "\<forall>p \<in> set idx. at_bank g p = at_bank g0 p"
  shows "\<exists>g'. foldR f idx g = Inr g' \<and> bank_shape c g' \<and>
    (\<forall>r j k. bank_index c r j k \<longrightarrow>
       at_bank g' (r, j, k) = (if (r, j, k) \<in> set idx then h (r, j, k) else at_bank g (r, j, k)))"
  using assms
proof (induction idx arbitrary: g)
  case Nil
  then show ?case by simp
next
  case (Cons p idx)
  obtain r j k where p: "p = (r, j, k)" by (cases p)
  let ?g = "upd3 g (nat r) (nat j) (nat k) (h (r, j, k))"
  have bi: "bank_index c r j k" and d: "(r, j, k) \<notin> set idx"
    using Cons.prems p by auto
  have f: "f (r, j, k) g = Inr ?g"
    using Cons.prems p by auto
  have same: "\<forall>q \<in> set idx. at_bank ?g q = at_bank g0 q"
  proof
    fix q assume q: "q \<in> set idx"
    obtain a b e where qq: "q = (a, b, e)" by (cases q)
    show "at_bank ?g q = at_bank g0 q"
      using q d Cons.prems(3,4,5) bi by (auto simp: qq at_bank_upd3)
  qed
  have "\<exists>g'. foldR f idx ?g = Inr g' \<and> bank_shape c g' \<and>
    (\<forall>r j k. bank_index c r j k \<longrightarrow>
       at_bank g' (r, j, k) = (if (r, j, k) \<in> set idx then h (r, j, k) else at_bank ?g (r, j, k)))"
    by (rule Cons.IH) (use Cons.prems same in auto)
  then show ?case
    using f bi d Cons.prems(4) by (auto simp: p at_bank_upd3)
qed

definition timed ::
  "Config \<Rightarrow> (int \<times> int \<times> int) set \<Rightarrow> (CommandType \<times> int) list \<Rightarrow> u64 \<Rightarrow> BankState grid \<Rightarrow> BankState grid \<Rightarrow> bool" where
  "timed c I l clk g g' \<longleftrightarrow> bank_shape c g' \<and>
     (\<forall>r j k. bank_index c r j k \<longrightarrow>
       at_bank g' (r, j, k) =
         (if (r, j, k) \<in> I then apply_timings l clk (at_bank g (r, j, k)) else at_bank g (r, j, k)))"

lemma update_timings_spec:
  assumes "distinct idx" and "\<forall>(r, j, k) \<in> set idx. bank_index c r j k" and "bank_shape c g"
  shows "\<exists>g'. update_timings idx l clk g = Inr g' \<and> timed c (set idx) l clk g g'"
  unfolding update_timings_def timed_def
  by (rule foldR_banks [where ?g0.0 = g and h = "\<lambda>p. apply_timings l clk (at_bank g p)"])
    (use assms in \<open>auto simp: timing_loop_bank\<close>)

section \<open>Timing constraints of an issued command\<close>

text \<open>
  The reference: the constraints that issuing \<open>cmd\<close> puts on one bank, by where the bank
  lies relative to the command's address.
\<close>

definition timing_list :: "Timing \<Rightarrow> Command \<Rightarrow> int \<times> int \<times> int \<Rightarrow> (CommandType \<times> int) list" where
  "timing_list tm cmd p = (case p of (r, j, k) \<Rightarrow>
     if IsRankCMD cmd then if r = Rank cmd then same_rank tm (cmd_type cmd) else []
     else if r \<noteq> Rank cmd then other_ranks tm (cmd_type cmd)
     else if j \<noteq> Bankgroup cmd then other_bankgroups_same_rank tm (cmd_type cmd)
     else if k \<noteq> Bank cmd then other_banks_same_bankgroup tm (cmd_type cmd)
     else same_bank tm (cmd_type cmd))"

definition cmd_ok :: "Config \<Rightarrow> Command \<Rightarrow> bool" where
  "cmd_ok c cmd \<longleftrightarrow> IsValid cmd \<and> 0 \<le> Rank cmd \<and> Rank cmd < ranks c \<and>
     (\<not> IsRankCMD cmd \<longrightarrow> bank_index c (Rank cmd) (Bankgroup cmd) (Bank cmd))"

definition all_timed ::
  "Config \<Rightarrow> Timing \<Rightarrow> Command \<Rightarrow> u64 \<Rightarrow> BankState grid \<Rightarrow> BankState grid \<Rightarrow> bool" where
  "all_timed c tm cmd clk g g' \<longleftrightarrow> bank_shape c g' \<and>
     (\<forall>r j k. bank_index c r j k \<longrightarrow>
       at_bank g' (r, j, k) = apply_timings (timing_list tm cmd (r, j, k)) clk (at_bank g (r, j, k)))"

lemma update_bank_timings_spec:
  assumes "bank_shape c g" and "bank_index c (Rank cmd) (Bankgroup cmd) (Bank cmd)"
    and "\<not> IsRankCMD cmd"
  shows "\<exists>g'. update_bank_timings c tm cmd clk g = Inr g' \<and> all_timed c tm cmd clk g g'"
proof -
  let ?t = "cmd_type cmd"
  let ?i1 = "[(Rank cmd, Bankgroup cmd, Bank cmd)]"
  let ?i2 = "map (\<lambda>k. (Rank cmd, Bankgroup cmd, k)) (filter (\<lambda>k. k \<noteq> Bank cmd) [0 .. banks_per_group c - 1])"
  let ?i3 = "map (\<lambda>(j, k). (Rank cmd, j, k)) (filter (\<lambda>(j, k). j \<noteq> Bankgroup cmd) (bank_loop c))"
  let ?i4 = "List.product (filter (\<lambda>i. i \<noteq> Rank cmd) [0 .. ranks c - 1]) (bank_loop c)"
  have d: "distinct ?i1" "distinct ?i2" "distinct ?i3" "distinct ?i4"
    by (auto simp: distinct_map distinct_product inj_on_def)
  have b: "\<forall>(r, j, k) \<in> set ?i1. bank_index c r j k" "\<forall>(r, j, k) \<in> set ?i2. bank_index c r j k"
    "\<forall>(r, j, k) \<in> set ?i3. bank_index c r j k" "\<forall>(r, j, k) \<in> set ?i4. bank_index c r j k"
    using assms(2) by (auto simp: bank_index_def bank_loop_set)
  obtain g1 where g1: "update_timings ?i1 (same_bank tm ?t) clk g = Inr g1"
      "timed c (set ?i1) (same_bank tm ?t) clk g g1"
    using update_timings_spec [OF d(1) b(1) assms(1)] by blast
  obtain g2 where g2: "update_timings ?i2 (other_banks_same_bankgroup tm ?t) clk g1 = Inr g2"
      "timed c (set ?i2) (other_banks_same_bankgroup tm ?t) clk g1 g2"
    using update_timings_spec [OF d(2) b(2)] g1(2) unfolding timed_def by blast
  obtain g3 where g3: "update_timings ?i3 (other_bankgroups_same_rank tm ?t) clk g2 = Inr g3"
      "timed c (set ?i3) (other_bankgroups_same_rank tm ?t) clk g2 g3"
    using update_timings_spec [OF d(3) b(3)] g2(2) unfolding timed_def by blast
  obtain g4 where g4: "update_timings ?i4 (other_ranks tm ?t) clk g3 = Inr g4"
      "timed c (set ?i4) (other_ranks tm ?t) clk g3 g4"
    using update_timings_spec [OF d(4) b(4)] g3(2) unfolding timed_def by blast
  have m: "(r, j, k) \<in> set ?i1 \<longleftrightarrow> r = Rank cmd \<and> j = Bankgroup cmd \<and> k = Bank cmd"
    "(r, j, k) \<in> set ?i2 \<longleftrightarrow> r = Rank cmd \<and> j = Bankgroup cmd \<and> k \<noteq> Bank cmd"
    "(r, j, k) \<in> set ?i3 \<longleftrightarrow> r = Rank cmd \<and> j \<noteq> Bankgroup cmd"
    "(r, j, k) \<in> set ?i4 \<longleftrightarrow> r \<noteq> Rank cmd"
    if "bank_index c r j k" for r j k
    using that by (force simp: bank_index_def bank_loop_set)+
  have "update_bank_timings c tm cmd clk g = Inr g4"
    using g1(1) g2(1) g3(1) g4(1)
    by (simp add: update_bank_timings_def UpdateSameBankTiming_def
        UpdateOtherBanksSameBankgroupTiming_def UpdateOtherBankgroupsSameRankTiming_def
        UpdateOtherRanksTiming_def)
  moreover have "at_bank g4 (r, j, k) = apply_timings (timing_list tm cmd (r, j, k)) clk (at_bank g (r, j, k))"
    if bi: "bank_index c r j k" for r j k
    using bi assms(3) g1(2) g2(2) g3(2) g4(2) unfolding timed_def
    by (simp only: m [OF bi] timing_list_def) auto
  ultimately show ?thesis using g4(2) by (auto simp: all_timed_def timed_def)
qed

lemma UpdateSameRankTiming_spec:
  assumes "bank_shape c g" and "0 \<le> Rank cmd" and "Rank cmd < ranks c" and "IsRankCMD cmd"
  shows "\<exists>g'. UpdateSameRankTiming c (cmd_addr cmd) (same_rank tm (cmd_type cmd)) clk g = Inr g' \<and>
    all_timed c tm cmd clk g g'"
proof -
  let ?i = "map (\<lambda>(j, k). (Rank cmd, j, k)) (bank_loop c)"
  have "distinct ?i" and b: "\<forall>(r, j, k) \<in> set ?i. bank_index c r j k"
    using assms(2,3) by (auto simp: distinct_map inj_on_def bank_index_def bank_loop_set)
  then obtain g' where g': "update_timings ?i (same_rank tm (cmd_type cmd)) clk g = Inr g'"
      "timed c (set ?i) (same_rank tm (cmd_type cmd)) clk g g'"
    using update_timings_spec [OF _ b assms(1)] by blast
  have m: "(r, j, k) \<in> set ?i \<longleftrightarrow> r = Rank cmd" if "bank_index c r j k" for r j k
    using that by (force simp: bank_index_def bank_loop_set)
  have "at_bank g' (r, j, k) = apply_timings (timing_list tm cmd (r, j, k)) clk (at_bank g (r, j, k))"
    if bi: "bank_index c r j k" for r j k
    using bi assms(4) g'(2) unfolding timed_def by (simp only: m [OF bi] timing_list_def) auto
  with g' show ?thesis by (auto simp: UpdateSameRankTiming_def all_timed_def timed_def)
qed

definition chan_shape :: "Config \<Rightarrow> ChannelState \<Rightarrow> bool" where
  "chan_shape c s \<longleftrightarrow> bank_shape c (bank_states s) \<and>
     length (rank_idle_cycles s) = nat (ranks c) \<and> length (rank_is_sref s) = nat (ranks c) \<and>
     length (four_aw s) = nat (ranks c) \<and> length (thirty_two_aw s) = nat (ranks c)"

lemma UpdateActivationTimes_spec:
  assumes "chan_shape c s" and "0 \<le> r" and "r < ranks c"
  shows "UpdateActivationTimes c s r t = Inr (s\<lparr>
    four_aw := (four_aw s)[nat r := push_window (four_aw s ! nat r) t (t + of_int (tFAW c))],
    thirty_two_aw := (if IsGDDR c
      then (thirty_two_aw s)[nat r := push_window (thirty_two_aw s ! nat r) t (t + of_int (t32AW c))]
      else thirty_two_aw s)\<rparr>)"
  using assms by (simp add: UpdateActivationTimes_def chan_shape_def vec_at_def vec_set_def)

text \<open>
  What \<open>UpdateTiming\<close> does, for a command whose address lies in the channel: every bank
  gets the constraints of the reference list, and an activation enters the windows of its
  rank.
\<close>

lemma chan_UpdateTiming_spec:
  assumes "chan_shape c s" and "cmd_ok c cmd"
  shows "\<exists>g. all_timed c tm cmd clk (bank_states s) g \<and>
    chan_UpdateTiming c tm s cmd clk = Inr (s\<lparr>bank_states := g,
      four_aw := (if cmd_type cmd = ACTIVATE
        then (four_aw s)[nat (Rank cmd) :=
               push_window (four_aw s ! nat (Rank cmd)) clk (clk + of_int (tFAW c))]
        else four_aw s),
      thirty_two_aw := (if cmd_type cmd = ACTIVATE \<and> IsGDDR c
        then (thirty_two_aw s)[nat (Rank cmd) :=
               push_window (thirty_two_aw s ! nat (Rank cmd)) clk (clk + of_int (t32AW c))]
        else thirty_two_aw s)\<rparr>)"
proof (cases "IsRankCMD cmd")
  case True
  then obtain g where g: "UpdateSameRankTiming c (cmd_addr cmd) (same_rank tm (cmd_type cmd)) clk
      (bank_states s) = Inr g" "all_timed c tm cmd clk (bank_states s) g"
    using UpdateSameRankTiming_spec [of c "bank_states s" cmd tm clk] assms
    by (auto simp: chan_shape_def cmd_ok_def)
  with True show ?thesis
    by (intro exI [of _ g]) (auto simp: chan_UpdateTiming_def)
next
  case False
  then obtain g where g: "update_bank_timings c tm cmd clk (bank_states s) = Inr g"
      "all_timed c tm cmd clk (bank_states s) g"
    using update_bank_timings_spec [of c "bank_states s" cmd tm clk] assms
    by (auto simp: chan_shape_def cmd_ok_def)
  with False assms show ?thesis
    by (intro exI [of _ g], cases "cmd_type cmd")
      (auto simp: chan_UpdateTiming_def UpdateActivationTimes_spec cmd_ok_def)
qed

section \<open>State changes of an issued command\<close>

definition touches :: "Command \<Rightarrow> int \<times> int \<times> int \<Rightarrow> bool" where
  "touches cmd p = (case p of (r, j, k) \<Rightarrow>
     r = Rank cmd \<and> (IsRankCMD cmd \<or> j = Bankgroup cmd \<and> k = Bank cmd))"

definition stepped :: "Config \<Rightarrow> Command \<Rightarrow> BankState grid \<Rightarrow> BankState grid \<Rightarrow> bool" where
  "stepped c cmd g g' \<longleftrightarrow> bank_shape c g' \<and>
     (\<forall>r j k. bank_index c r j k \<longrightarrow>
       (if touches cmd (r, j, k)
        then bank_UpdateState (at_bank g (r, j, k)) cmd = Inr (at_bank g' (r, j, k))
        else at_bank g' (r, j, k) = at_bank g (r, j, k)))"

definition applicable :: "Config \<Rightarrow> BankState grid \<Rightarrow> Command \<Rightarrow> bool" where
  "applicable c g cmd \<longleftrightarrow>
     (\<forall>r j k. bank_index c r j k \<longrightarrow> touches cmd (r, j, k) \<longrightarrow>
        (\<exists>b. bank_UpdateState (at_bank g (r, j, k)) cmd = Inr b))"

lemma update_bank_eq:
  assumes "bank_shape c g" and "bank_index c r j k"
    and "bank_UpdateState (at_bank g (r, j, k)) cmd = Inr b"
  shows "update_bank cmd r j k g = Inr (upd3 g (nat r) (nat j) (nat k) b)"
  using assms by (simp add: update_bank_def get3_bank mod3_bank)

lemma update_bank_single:
  assumes "bank_shape c g" and "cmd_ok c cmd" and "\<not> IsRankCMD cmd" and "applicable c g cmd"
  shows "\<exists>g'. update_bank cmd (Rank cmd) (Bankgroup cmd) (Bank cmd) g = Inr g' \<and> stepped c cmd g g'"
proof -
  have bi: "bank_index c (Rank cmd) (Bankgroup cmd) (Bank cmd)"
    using assms(2,3) by (simp add: cmd_ok_def)
  then obtain b where "bank_UpdateState (at_bank g (Rank cmd, Bankgroup cmd, Bank cmd)) cmd = Inr b"
    using assms(4) by (fastforce simp: applicable_def touches_def)
  with bi assms(1,3) show ?thesis
    by (auto simp: update_bank_eq stepped_def touches_def at_bank_upd3)
qed

lemma update_bank_rank:
  assumes "bank_shape c g" and "cmd_ok c cmd" and "IsRankCMD cmd" and "applicable c g cmd"
  shows "\<exists>g'. foldR (\<lambda>(j, k). update_bank cmd (Rank cmd) j k) (bank_loop c) g = Inr g' \<and> stepped c cmd g g'"
proof -
  let ?i = "map (\<lambda>(j, k). (Rank cmd, j, k)) (bank_loop c)"
  let ?h = "\<lambda>p. projr (bank_UpdateState (at_bank g p) cmd)"
  have b: "\<forall>(r, j, k) \<in> set ?i. bank_index c r j k"
    using assms(2) by (auto simp: bank_index_def bank_loop_set cmd_ok_def)
  have h: "bank_UpdateState (at_bank g (r, j, k)) cmd = Inr (?h (r, j, k))"
    if "(r, j, k) \<in> set ?i" for r j k
    using that b assms(3,4) by (fastforce simp: applicable_def touches_def)
  have "\<exists>g'. foldR (\<lambda>(r, j, k). update_bank cmd r j k) ?i g = Inr g' \<and> bank_shape c g' \<and>
    (\<forall>r j k. bank_index c r j k \<longrightarrow>
       at_bank g' (r, j, k) = (if (r, j, k) \<in> set ?i then ?h (r, j, k) else at_bank g (r, j, k)))"
    by (rule foldR_banks [where ?g0.0 = g])
      (use b h assms(1) in \<open>auto simp: distinct_map inj_on_def intro!: update_bank_eq\<close>)
  then obtain g' where g': "foldR (\<lambda>(r, j, k). update_bank cmd r j k) ?i g = Inr g'" "bank_shape c g'"
    "\<And>r j k. bank_index c r j k \<Longrightarrow>
       at_bank g' (r, j, k) = (if (r, j, k) \<in> set ?i then ?h (r, j, k) else at_bank g (r, j, k))"
    by blast
  have m: "(r, j, k) \<in> set ?i \<longleftrightarrow> touches cmd (r, j, k)" if "bank_index c r j k" for r j k
    using that assms(3) by (force simp: bank_index_def bank_loop_set touches_def)
  have "stepped c cmd g g'"
    unfolding stepped_def using g'(2,3) h by (auto simp only: m split: if_splits)
  moreover have "foldR (\<lambda>(j, k). update_bank cmd (Rank cmd) j k) (bank_loop c) g = Inr g'"
    using g'(1) by (simp add: foldR_map split_def)
  ultimately show ?thesis by blast
qed

text \<open>What \<open>UpdateState\<close> does with a command every bank it reaches accepts.\<close>

lemma chan_UpdateState_spec:
  assumes "chan_shape c s" and "cmd_ok c cmd" and "applicable c (bank_states s) cmd"
  shows "\<exists>g. stepped c cmd (bank_states s) g \<and>
    chan_UpdateState c s cmd = Inr (s\<lparr>bank_states := g,
      rank_is_sref := (if cmd_type cmd = SREF_ENTER then (rank_is_sref s)[nat (Rank cmd) := True]
        else if cmd_type cmd = SREF_EXIT then (rank_is_sref s)[nat (Rank cmd) := False]
        else rank_is_sref s),
      refresh_q := (if cmd_type cmd = REFRESH then erase_first (\<lambda>q. Rank q = Rank cmd) (refresh_q s)
        else if cmd_type cmd = REFRESH_BANK
        then erase_first (\<lambda>q. Rank q = Rank cmd \<and> Bankgroup q = Bankgroup cmd \<and> Bank q = Bank cmd) (refresh_q s)
        else refresh_q s)\<rparr>)"
proof (cases "IsRankCMD cmd")
  case True
  then have "\<exists>g. foldR (\<lambda>(j, k). update_bank cmd (Rank cmd) j k) (bank_loop c) (bank_states s) = Inr g \<and>
      stepped c cmd (bank_states s) g"
    by (intro update_bank_rank) (use assms in \<open>simp_all add: chan_shape_def\<close>)
  then obtain g where f: "foldR (\<lambda>(j, k). update_bank cmd (Rank cmd) j k) (bank_loop c) (bank_states s) = Inr g"
      and g: "stepped c cmd (bank_states s) g" by blast
  show ?thesis
    apply (rule exI [of _ g], rule conjI, rule g)
    using True assms(1,2) f by (cases "cmd_type cmd")
      (simp_all add: chan_UpdateState_def RankNeedRefresh_def vec_set_def chan_shape_def cmd_ok_def)
next
  case False
  then have "\<exists>g. update_bank cmd (Rank cmd) (Bankgroup cmd) (Bank cmd) (bank_states s) = Inr g \<and>
      stepped c cmd (bank_states s) g"
    by (intro update_bank_single) (use assms in \<open>simp_all add: chan_shape_def\<close>)
  then obtain g where f: "update_bank cmd (Rank cmd) (Bankgroup cmd) (Bank cmd) (bank_states s) = Inr g"
      and g: "stepped c cmd (bank_states s) g" by blast
  show ?thesis
    apply (rule exI [of _ g], rule conjI, rule g)
    using False f by (cases "cmd_type cmd")
      (simp_all add: chan_UpdateState_def BankNeedRefresh_def)
qed

section \<open>Invariant of the channel\<close>

definition ref_ok :: "Config \<Rightarrow> Command \<Rightarrow> bool" where
  "ref_ok c q \<longleftrightarrow> IsRefresh q \<and> cmd_ok c q"

text \<open>
  The vectors have the sizes of the configuration; every bank satisfies its invariant; the
  banks of a rank are in self refresh together, and exactly when the rank is flagged so,
  and agree on the earliest exit; the waiting refreshes address banks of the channel.
\<close>

definition chan_inv :: "Config \<Rightarrow> ChannelState \<Rightarrow> bool" where
  "chan_inv c s \<longleftrightarrow> chan_shape c s \<and>
     (\<forall>r j k. bank_index c r j k \<longrightarrow>
        bank_inv (at_bank (bank_states s) (r, j, k)) \<and>
        (bank_state (at_bank (bank_states s) (r, j, k)) = SREF \<longleftrightarrow> rank_is_sref s ! nat r) \<and>
        cmd_timing (at_bank (bank_states s) (r, j, k)) SREF_EXIT =
          cmd_timing (at_bank (bank_states s) (r, 0, 0)) SREF_EXIT) \<and>
     (\<forall>q \<in> set (refresh_q s). ref_ok c q)"

lemma chan_invD:
  assumes "chan_inv c s"
  shows "chan_shape c s" and "bank_shape c (bank_states s)"
    and "\<And>r j k. bank_index c r j k \<Longrightarrow> bank_inv (at_bank (bank_states s) (r, j, k))"
    and "\<And>r j k. bank_index c r j k \<Longrightarrow>
      (bank_state (at_bank (bank_states s) (r, j, k)) = SREF) = rank_is_sref s ! nat r"
    and "\<And>q. q \<in> set (refresh_q s) \<Longrightarrow> ref_ok c q"
    and "\<And>r j k j' k'. bank_index c r j k \<Longrightarrow> bank_index c r j' k' \<Longrightarrow>
      cmd_timing (at_bank (bank_states s) (r, j, k)) SREF_EXIT =
      cmd_timing (at_bank (bank_states s) (r, j', k')) SREF_EXIT"
  using assms by (auto simp: chan_inv_def chan_shape_def)

lemma at_bank_mk_ChannelState:
  "bank_index c r j k \<Longrightarrow> at_bank (bank_states (mk_ChannelState c)) (r, j, k) = BankState0"
  by (auto simp: at_bank_def mk_ChannelState_def bank_index_def intro!: at3_replicate)

lemma chan_inv_mk_ChannelState: "chan_inv c (mk_ChannelState c)"
  unfolding chan_inv_def
proof (intro conjI allI impI)
  show "chan_shape c (mk_ChannelState c)"
    by (simp add: chan_shape_def mk_ChannelState_def shape3_replicate)
  show "\<forall>q \<in> set (refresh_q (mk_ChannelState c)). ref_ok c q"
    by (simp add: mk_ChannelState_def)
  fix r j k
  assume bi: "bank_index c r j k"
  then have b0: "bank_index c r 0 0" and "\<not> rank_is_sref (mk_ChannelState c) ! nat r"
    by (auto simp: mk_ChannelState_def bank_index_def)
  then show "bank_inv (at_bank (bank_states (mk_ChannelState c)) (r, j, k))"
    "(bank_state (at_bank (bank_states (mk_ChannelState c)) (r, j, k)) = SREF) =
      rank_is_sref (mk_ChannelState c) ! nat r"
    "cmd_timing (at_bank (bank_states (mk_ChannelState c)) (r, j, k)) SREF_EXIT =
      cmd_timing (at_bank (bank_states (mk_ChannelState c)) (r, 0, 0)) SREF_EXIT"
    using bi by (simp_all add: at_bank_mk_ChannelState) (simp add: BankState0_def)
qed

lemma chan_inv_refresh_q:
  assumes "chan_inv c s" and "\<forall>q \<in> set Q. ref_ok c q"
  shows "chan_inv c (s\<lparr>refresh_q := Q\<rparr>)"
  using assms by (simp add: chan_inv_def chan_shape_def)

lemma chan_inv_idle:
  assumes "chan_inv c s" and "length v = length (rank_idle_cycles s)"
  shows "chan_inv c (s\<lparr>rank_idle_cycles := v\<rparr>)"
  using assms by (simp add: chan_inv_def chan_shape_def)

lemma RankNeedRefresh_inv:
  assumes "chan_inv c s" and "0 \<le> r" and "r < ranks c"
  shows "chan_inv c (RankNeedRefresh s r True)"
proof -
  have "ref_ok c (mk_Command REFRESH (mk_Address (-1) r (-1) (-1) (-1) (-1)) (-1))"
    using assms(2,3) by (simp add: ref_ok_def cmd_ok_def)
  then show ?thesis
    unfolding RankNeedRefresh_def
    using assms chan_invD(5) [OF assms(1)] by (auto intro!: chan_inv_refresh_q)
qed

lemma BankNeedRefresh_inv:
  assumes "chan_inv c s" and "bank_index c r j k"
  shows "chan_inv c (BankNeedRefresh s r j k True)"
proof -
  have "ref_ok c (mk_Command REFRESH_BANK (mk_Address (-1) r j k (-1) (-1)) (-1))"
    using assms(2) by (simp add: ref_ok_def cmd_ok_def bank_index_def)
  then show ?thesis
    unfolding BankNeedRefresh_def
    using assms chan_invD(5) [OF assms(1)] by (auto intro!: chan_inv_refresh_q)
qed

section \<open>Readiness\<close>

lemma rank_ready_loop_early:
  assumes "rank_ready_loop s cmd clk ps rc n = Inr (Inl e)"
  shows "\<exists>j k b rc'. (j, k) \<in> set ps \<and> get3 (bank_states s) (Rank cmd) j k = Inr b \<and>
    bank_GetReadyCommand b cmd clk = Inr rc' \<and> IsValid rc' \<and> cmd_type rc' \<noteq> cmd_type cmd \<and>
    e = rc'\<lparr>cmd_addr := mk_Address (-1) (Rank cmd) j k (-1) (-1)\<rparr>"
  using assms
proof (induction ps arbitrary: rc n)
  case Nil
  then show ?case by simp
next
  case (Cons p ps)
  obtain j k where p: "p = (j, k)" by (cases p)
  from Cons.prems obtain b r where b: "get3 (bank_states s) (Rank cmd) j k = Inr b"
    and r: "bank_GetReadyCommand b cmd clk = Inr r"
    by (auto simp: p bindR_eq_Inr)
  show ?case
  proof (cases "IsValid r \<and> cmd_type r \<noteq> cmd_type cmd")
    case True
    with Cons.prems b r show ?thesis by (auto simp: p)
  next
    case False
    then obtain n' where "rank_ready_loop s cmd clk ps r n' = Inr (Inl e)"
      using Cons.prems b r by (auto simp: p split: if_splits)
    from Cons.IH [OF this] show ?thesis by (force simp: p)
  qed
qed

lemma rank_ready_loop_count:
  assumes "rank_ready_loop s cmd clk ps rc n = Inr (Inr (rc', m))" and "IsValid cmd"
  shows "m \<le> n + int (length ps) \<and>
    (m = n + int (length ps) \<longrightarrow>
      (\<forall>(j, k) \<in> set ps. \<exists>b r. get3 (bank_states s) (Rank cmd) j k = Inr b \<and>
         bank_GetReadyCommand b cmd clk = Inr r \<and> IsValid r \<and> cmd_type r = cmd_type cmd) \<and>
      (ps \<noteq> [] \<longrightarrow> cmd_type rc' = cmd_type cmd \<and> cmd_addr rc' = cmd_addr cmd \<and> hex_addr rc' = hex_addr cmd))"
  using assms
proof (induction ps arbitrary: rc n)
  case Nil
  then show ?case by simp
next
  case (Cons p ps)
  obtain j k where p: "p = (j, k)" by (cases p)
  from Cons.prems obtain b r where b: "get3 (bank_states s) (Rank cmd) j k = Inr b"
    and r: "bank_GetReadyCommand b cmd clk = Inr r"
    by (auto simp: p bindR_eq_Inr)
  show ?case
  proof (cases "IsValid r \<and> cmd_type r = cmd_type cmd")
    case True
    then have l: "rank_ready_loop s cmd clk ps r (n + 1) = Inr (Inr (rc', m))"
      using Cons.prems b r by (simp add: p)
    from Cons.IH [OF l] l Cons.prems(2) True b r bank_ready_cases [OF r] show ?thesis
      by (cases ps) (auto simp: p)
  next
    case False
    then have "rank_ready_loop s cmd clk ps r n = Inr (Inr (rc', m))"
      using Cons.prems b r by (auto simp: p split: if_splits)
    from Cons.IH [OF this] Cons.prems(2) show ?thesis by (auto simp: p)
  qed
qed

lemma length_bank_loop: "geometry_ok c \<Longrightarrow> int (length (bank_loop c)) = banks c"
  by (simp add: geometry_ok_def bank_loop_def)

text \<open>
  A ready command reaches only banks of the channel; each of them allows it now, both by
  its clock constraints and by its state.
\<close>

definition allowed :: "Config \<Rightarrow> ChannelState \<Rightarrow> Command \<Rightarrow> u64 \<Rightarrow> bool" where
  "allowed c s cmd clk \<longleftrightarrow> cmd_ok c cmd \<and> applicable c (bank_states s) cmd \<and>
     (\<forall>r j k. bank_index c r j k \<longrightarrow> touches cmd (r, j, k) \<longrightarrow>
        cmd_timing (at_bank (bank_states s) (r, j, k)) (cmd_type cmd) \<le> clk \<and>
        (IsReadWrite cmd \<longrightarrow> open_row (at_bank (bank_states s) (r, j, k)) = Row cmd))"

lemma required_type_cases:
  assumes "required_type b req = Inr t"
  shows "t \<noteq> SIZE_CMD" and "t \<in> {SREF_EXIT} \<Longrightarrow> bank_state b = SREF"
    and "t \<in> {ACTIVATE, REFRESH, REFRESH_BANK, SREF_ENTER} \<Longrightarrow> bank_state b = CLOSED"
    and "t \<in> {READ, READ_PRECHARGE, WRITE, WRITE_PRECHARGE, PRECHARGE} \<Longrightarrow> bank_state b = OPEN"
    and "t \<in> {REFRESH, SREF_ENTER} \<Longrightarrow> cmd_type req = t"
    and "t \<in> {READ, READ_PRECHARGE, WRITE, WRITE_PRECHARGE} \<Longrightarrow> cmd_type req = t \<and> Row req = open_row b"
  using assms
  by (cases "bank_state b"; cases "cmd_type req"; auto simp: required_type_def split: if_splits)+

lemma bank_ready_single:
  assumes inv: "chan_inv c s" and ok: "cmd_ok c req" and nr: "\<not> IsRankCMD req"
    and r: "bank_GetReadyCommand (at_bank (bank_states s) (Rank req, Bankgroup req, Bank req)) req clk = Inr cmd"
    and v: "IsValid cmd"
  shows "allowed c s cmd clk"
proof -
  let ?b = "at_bank (bank_states s) (Rank req, Bankgroup req, Bank req)"
  note rc = bank_ready_cases [OF r v]
  have bi: "bank_index c (Rank req) (Bankgroup req) (Bank req)"
    using ok nr by (simp add: cmd_ok_def)
  have ok': "cmd_ok c cmd"
    using bi rc(3) v by (auto simp: cmd_ok_def bank_index_def)
  show ?thesis
  proof (cases "IsRankCMD cmd")
    case False
    moreover have "IsReadWrite cmd \<longrightarrow> open_row ?b = Row cmd"
      using required_type_cases(6) [OF rc(1)] rc(3) by auto
    ultimately show ?thesis
      using ok' rc required_type_applies [OF rc(1) refl]
      by (auto simp: allowed_def applicable_def touches_def)
  next
    case True
    then have t: "cmd_type cmd = SREF_EXIT"
      using required_type_cases(5) [OF rc(1)] nr by auto
    then have "bank_state ?b = SREF"
      using required_type_cases(2) [OF rc(1)] by simp
    then have "bank_state (at_bank (bank_states s) (Rank req, j, k)) = SREF"
      if "bank_index c (Rank req) j k" for j k
      using chan_invD(4) [OF inv bi] chan_invD(4) [OF inv that] by simp
    moreover have "cmd_timing (at_bank (bank_states s) (Rank req, j, k)) SREF_EXIT \<le> clk"
      if "bank_index c (Rank req) j k" for j k
      using chan_invD(6) [OF inv that bi] rc(2) t by simp
    moreover have "\<not> IsReadWrite cmd" using t by simp
    ultimately show ?thesis
      using ok' t rc(3) by (auto simp: allowed_def applicable_def touches_def bank_UpdateState_def)
  qed
qed

lemma rank_ready_all:
  assumes inv: "chan_inv c s" and ok: "cmd_ok c req" and nr: "IsRankCMD req" and geo: "geometry_ok c"
    and l: "rank_ready_loop s req clk (bank_loop c) Command0 0 = Inr (Inr (cmd, banks c))"
  shows "allowed c s cmd clk"
proof -
  have vr: "IsValid req" using ok by (simp add: cmd_ok_def)
  have ne: "bank_loop c \<noteq> []"
    using length_bank_loop [OF geo] geo by (auto simp: geometry_ok_def)
  note rl = rank_ready_loop_count [OF l vr]
  have cmd: "cmd_type cmd = cmd_type req" "cmd_addr cmd = cmd_addr req"
    using rl ne length_bank_loop [OF geo] by auto
  have "\<exists>r. bank_GetReadyCommand (at_bank (bank_states s) (Rank req, j, k)) req clk = Inr r \<and>
      IsValid r \<and> cmd_type r = cmd_type req" if bi: "bank_index c (Rank req) j k" for j k
  proof -
    have "(j, k) \<in> set (bank_loop c)" using bi by (simp add: bank_loop_set bank_index_def)
    then obtain b r where "get3 (bank_states s) (Rank req) j k = Inr b"
      "bank_GetReadyCommand b req clk = Inr r" "IsValid r" "cmd_type r = cmd_type req"
      using rl length_bank_loop [OF geo] by fastforce
    with bi show ?thesis using get3_bank [OF chan_invD(2) [OF inv] bi] by simp
  qed
  then have "cmd_timing (at_bank (bank_states s) (Rank req, j, k)) (cmd_type cmd) \<le> clk"
    "\<exists>b. bank_UpdateState (at_bank (bank_states s) (Rank req, j, k)) cmd = Inr b"
    if "bank_index c (Rank req) j k" for j k
    using that bank_ready_cases(1,2) required_type_applies cmd by metis+
  then show ?thesis
    using ok nr cmd by (auto simp: allowed_def applicable_def touches_def cmd_ok_def)
qed

lemma rank_ready_precharge:
  assumes inv: "chan_inv c s" and ok: "cmd_ok c req" and nr: "IsRankCMD req"
    and l: "rank_ready_loop s req clk (bank_loop c) Command0 0 = Inr (Inl cmd)"
  shows "allowed c s cmd clk \<and> cmd_type cmd = PRECHARGE"
proof -
  from rank_ready_loop_early [OF l] obtain j k b r where
    jk: "(j, k) \<in> set (bank_loop c)" and b: "get3 (bank_states s) (Rank req) j k = Inr b"
    and r: "bank_GetReadyCommand b req clk = Inr r" "IsValid r" "cmd_type r \<noteq> cmd_type req"
    and cmd: "cmd = r\<lparr>cmd_addr := mk_Address (-1) (Rank req) j k (-1) (-1)\<rparr>" by blast
  have bi: "bank_index c (Rank req) j k"
    using jk ok by (simp add: bank_loop_set bank_index_def cmd_ok_def)
  have b': "b = at_bank (bank_states s) (Rank req, j, k)"
    using b get3_bank [OF chan_invD(2) [OF inv] bi] by simp
  note rc = bank_ready_cases [OF r(1,2)]
  have pre: "cmd_type r = PRECHARGE"
    using rc(1) r(3) nr
    by (cases "bank_state b") (auto simp: required_type_def)
  obtain b'' where "bank_UpdateState b cmd = Inr b''"
    using required_type_applies [OF rc(1), of cmd] by (auto simp: cmd)
  then show ?thesis
    using bi pre rc(2) b' by (auto simp: allowed_def applicable_def touches_def cmd cmd_ok_def bank_index_def)
qed

lemma chan_ready_allowed:
  assumes inv: "chan_inv c s" and geo: "geometry_ok c" and ok: "cmd_ok c req"
    and ready: "chan_GetReadyCommand c s req clk = Inr cmd" and v: "IsValid cmd"
  shows "allowed c s cmd clk"
proof (cases "IsRankCMD req")
  case True
  then obtain res where res: "rank_ready_loop s req clk (bank_loop c) Command0 0 = Inr res"
    and cmd: "(case res of Inl early \<Rightarrow> Inr early
        | Inr (ready_cmd, num_ready) \<Rightarrow> if num_ready = banks c then Inr ready_cmd else Inr Command0)
      = (Inr cmd :: Command result)"
    using ready by (auto simp: chan_GetReadyCommand_def)
  show ?thesis
  proof (cases res)
    case (Inl e)
    with res cmd show ?thesis using rank_ready_precharge [OF inv ok True] by auto
  next
    case (Inr p)
    with res cmd v show ?thesis
      using rank_ready_all [OF inv ok True geo] by (cases p) (auto split: if_splits)
  qed
next
  case False
  then have bi: "bank_index c (Rank req) (Bankgroup req) (Bank req)"
    using ok by (simp add: cmd_ok_def)
  have "bank_GetReadyCommand (at_bank (bank_states s) (Rank req, Bankgroup req, Bank req)) req clk = Inr cmd"
    using ready v False unfolding chan_GetReadyCommand_def get3_bank [OF chan_invD(2) [OF inv] bi]
    by (auto split: if_splits elim!: bindR_InrE)
  then show ?thesis using bank_ready_single [OF inv ok False _ v] by blast
qed

section \<open>Issuing a command\<close>

definition issued :: "Config \<Rightarrow> ChannelState \<Rightarrow> Command \<Rightarrow> u64 \<Rightarrow> ChannelState \<Rightarrow> bool" where
  "issued c s cmd clk s' \<longleftrightarrow>
     (\<forall>r j k. bank_index c r j k \<longrightarrow>
        (\<exists>b. (if touches cmd (r, j, k)
              then bank_UpdateState (at_bank (bank_states s) (r, j, k)) cmd = Inr b
              else b = at_bank (bank_states s) (r, j, k)) \<and>
           at_bank (bank_states s') (r, j, k) =
             apply_timings (timing_list (mk_Timing c) cmd (r, j, k)) clk b)) \<and>
     four_aw s' = (if cmd_type cmd = ACTIVATE
        then (four_aw s)[nat (Rank cmd) :=
               push_window (four_aw s ! nat (Rank cmd)) clk (clk + of_int (tFAW c))]
        else four_aw s) \<and>
     thirty_two_aw s' = (if cmd_type cmd = ACTIVATE \<and> IsGDDR c
        then (thirty_two_aw s)[nat (Rank cmd) :=
               push_window (thirty_two_aw s ! nat (Rank cmd)) clk (clk + of_int (t32AW c))]
        else thirty_two_aw s) \<and>
     set (refresh_q s') \<subseteq> set (refresh_q s) \<and>
     (\<not> IsRefresh cmd \<longrightarrow> refresh_q s' = refresh_q s) \<and>
     rank_idle_cycles s' = rank_idle_cycles s \<and>
     rank_is_sref s' =
       (if cmd_type cmd = SREF_ENTER then (rank_is_sref s)[nat (Rank cmd) := True]
        else if cmd_type cmd = SREF_EXIT then (rank_is_sref s)[nat (Rank cmd) := False]
        else rank_is_sref s)"

lemma UpdateTimingAndStates_issued:
  assumes "chan_shape c s" and "cmd_ok c cmd" and "applicable c (bank_states s) cmd"
  shows "\<exists>s'. UpdateTimingAndStates c (mk_Timing c) s cmd clk = Inr s' \<and>
    chan_shape c s' \<and> issued c s cmd clk s'"
proof -
  obtain g s1 where g: "stepped c cmd (bank_states s) g"
    and s1: "s1 = s\<lparr>bank_states := g,
      rank_is_sref := (if cmd_type cmd = SREF_ENTER then (rank_is_sref s)[nat (Rank cmd) := True]
        else if cmd_type cmd = SREF_EXIT then (rank_is_sref s)[nat (Rank cmd) := False]
        else rank_is_sref s),
      refresh_q := (if cmd_type cmd = REFRESH then erase_first (\<lambda>q. Rank q = Rank cmd) (refresh_q s)
        else if cmd_type cmd = REFRESH_BANK
        then erase_first (\<lambda>q. Rank q = Rank cmd \<and> Bankgroup q = Bankgroup cmd \<and> Bank q = Bank cmd) (refresh_q s)
        else refresh_q s)\<rparr>"
    and u: "chan_UpdateState c s cmd = Inr s1"
    using chan_UpdateState_spec [OF assms] by blast
  have sh: "chan_shape c s1"
    using assms(1) g by (simp add: s1 chan_shape_def stepped_def)
  obtain h where h: "all_timed c (mk_Timing c) cmd clk (bank_states s1) h"
    and t: "chan_UpdateTiming c (mk_Timing c) s1 cmd clk = Inr (s1\<lparr>bank_states := h,
      four_aw := (if cmd_type cmd = ACTIVATE
        then (four_aw s1)[nat (Rank cmd) :=
               push_window (four_aw s1 ! nat (Rank cmd)) clk (clk + of_int (tFAW c))]
        else four_aw s1),
      thirty_two_aw := (if cmd_type cmd = ACTIVATE \<and> IsGDDR c
        then (thirty_two_aw s1)[nat (Rank cmd) :=
               push_window (thirty_two_aw s1 ! nat (Rank cmd)) clk (clk + of_int (t32AW c))]
        else thirty_two_aw s1)\<rparr>)" (is "_ = Inr ?s2")
    using chan_UpdateTiming_spec [OF sh assms(2), of "mk_Timing c" clk] by blast
  have "issued c s cmd clk ?s2"
    unfolding issued_def
  proof (intro conjI allI impI)
    fix r j k assume bi: "bank_index c r j k"
    show "\<exists>b. (if touches cmd (r, j, k)
              then bank_UpdateState (at_bank (bank_states s) (r, j, k)) cmd = Inr b
              else b = at_bank (bank_states s) (r, j, k)) \<and>
           at_bank (bank_states ?s2) (r, j, k) =
             apply_timings (timing_list (mk_Timing c) cmd (r, j, k)) clk b"
      using g h bi by (intro exI [of _ "at_bank g (r, j, k)"]) (simp add: stepped_def all_timed_def s1)
  qed (simp_all add: s1 set_erase_first)
  moreover have "chan_shape c ?s2"
    using sh h by (simp add: chan_shape_def all_timed_def)
  ultimately show ?thesis
    using u t by (simp add: UpdateTimingAndStates_def)
qed

lemma timing_list_SREF_EXIT:
  assumes "SREF_EXIT \<in> fst ` set (timing_list (mk_Timing c) cmd (r, j, k))"
  shows "IsRankCMD cmd"
  using assms
  by (cases "cmd_type cmd") (auto simp: timing_list_def timing_table_defs split: if_splits)

lemma sref_exit_sync:
  assumes "cmd_timing b SREF_EXIT = cmd_timing b' SREF_EXIT"
  shows "cmd_timing (apply_timings (timing_list (mk_Timing c) cmd (r, j, k)) clk b) SREF_EXIT =
    cmd_timing (apply_timings (timing_list (mk_Timing c) cmd (r, j', k')) clk b') SREF_EXIT"
proof (cases "IsRankCMD cmd")
  case True
  then have "timing_list (mk_Timing c) cmd (r, j, k) = timing_list (mk_Timing c) cmd (r, j', k')"
    by (simp add: timing_list_def)
  with assms show ?thesis
    by (simp add: apply_timings_upd_all bank_timing.get_upd_all)
next
  case False
  have "SREF_EXIT \<notin> fst ` set (map (\<lambda>(t, d). (t, clk + of_int d)) (timing_list (mk_Timing c) cmd (r, j, k)))" for j k
  proof
    assume "SREF_EXIT \<in> fst ` set (map (\<lambda>(t, d). (t, clk + of_int d)) (timing_list (mk_Timing c) cmd (r, j, k)))"
    then have "SREF_EXIT \<in> fst ` set (timing_list (mk_Timing c) cmd (r, j, k))" by force
    from timing_list_SREF_EXIT [OF this] False show False by simp
  qed
  then show ?thesis
    using assms by (simp add: apply_timings_upd_all bank_timing.upd_all_other)
qed

lemma bank_UpdateState_sref:
  assumes "bank_UpdateState b cmd = Inr b'"
  shows "(bank_state b' = SREF) = (cmd_type cmd = SREF_ENTER)"
    and "(bank_state b = SREF) = (cmd_type cmd = SREF_EXIT)"
  using assms
  by (cases "bank_state b"; cases "cmd_type cmd"; auto simp: bank_UpdateState_def)+

lemma issued_inv:
  assumes inv: "chan_inv c s" and iss: "issued c s cmd clk s'" and sh: "chan_shape c s'"
    and ok: "cmd_ok c cmd"
  shows "chan_inv c s'"
  unfolding chan_inv_def
proof (intro conjI allI impI sh)
  show "\<forall>q \<in> set (refresh_q s'). ref_ok c q"
    using iss chan_invD(5) [OF inv] by (auto simp: issued_def)
  fix r j k
  assume bi: "bank_index c r j k"
  then have b0: "bank_index c r 0 0" by (auto simp: bank_index_def)
  let ?at = "\<lambda>s j k. at_bank (bank_states s) (r, j, k)"
  have eff: "\<exists>b. (if touches cmd (r, j, k) then bank_UpdateState (?at s j k) cmd = Inr b else b = ?at s j k) \<and>
      ?at s' j k = apply_timings (timing_list (mk_Timing c) cmd (r, j, k)) clk b"
    if "bank_index c r j k" for j k
    using iss that by (simp add: issued_def)
  obtain b where b: "if touches cmd (r, j, k) then bank_UpdateState (?at s j k) cmd = Inr b else b = ?at s j k"
    "?at s' j k = apply_timings (timing_list (mk_Timing c) cmd (r, j, k)) clk b"
    using eff [OF bi] by blast
  obtain b' where b': "if touches cmd (r, 0, 0) then bank_UpdateState (?at s 0 0) cmd = Inr b' else b' = ?at s 0 0"
    "?at s' 0 0 = apply_timings (timing_list (mk_Timing c) cmd (r, 0, 0)) clk b'"
    using eff [OF b0] by blast
  show "bank_inv (?at s' j k)"
    using b chan_invD(3) [OF inv bi] bank_UpdateState_inv by (auto split: if_splits)
  have rs: "rank_is_sref s' =
      (if cmd_type cmd = SREF_ENTER then (rank_is_sref s)[nat (Rank cmd) := True]
       else if cmd_type cmd = SREF_EXIT then (rank_is_sref s)[nat (Rank cmd) := False]
       else rank_is_sref s)"
    using iss by (simp add: issued_def)
  have "nat r < length (rank_is_sref s)" and "0 \<le> r" and "0 \<le> Rank cmd"
    using bi chan_invD(1) [OF inv] ok by (auto simp: bank_index_def chan_shape_def cmd_ok_def)
  moreover have "(bank_state b = SREF) = rank_is_sref s' ! nat r" if "touches cmd (r, j, k)"
  proof -
    have "bank_UpdateState (?at s j k) cmd = Inr b" and "r = Rank cmd"
      using b(1) that by (auto simp: touches_def)
    with bank_UpdateState_sref [OF this(1)] chan_invD(4) [OF inv bi] rs \<open>nat r < _\<close> show ?thesis
      by (auto simp: nth_list_update)
  qed
  moreover have "(bank_state b = SREF) = rank_is_sref s' ! nat r" if "\<not> touches cmd (r, j, k)"
  proof -
    have "b = ?at s j k" and "IsRankCMD cmd \<Longrightarrow> nat r \<noteq> nat (Rank cmd)"
      using b(1) that \<open>0 \<le> r\<close> \<open>0 \<le> Rank cmd\<close> by (auto simp: touches_def)
    with chan_invD(4) [OF inv bi] rs show ?thesis by auto
  qed
  ultimately show "(bank_state (?at s' j k) = SREF) = rank_is_sref s' ! nat r"
    using b(2) by auto
  have "cmd_timing b = cmd_timing (?at s j k)"
    using b(1) by (auto dest: bank_UpdateState_timing split: if_splits)
  moreover have "cmd_timing b' = cmd_timing (?at s 0 0)"
    using b'(1) by (auto dest: bank_UpdateState_timing split: if_splits)
  ultimately have "cmd_timing b SREF_EXIT = cmd_timing b' SREF_EXIT"
    using chan_invD(6) [OF inv bi b0] by simp
  then show "cmd_timing (?at s' j k) SREF_EXIT = cmd_timing (?at s' 0 0) SREF_EXIT"
    unfolding b(2) b'(2) by (rule sref_exit_sync)
qed

lemma allowed_issue:
  assumes "chan_inv c s" and "allowed c s cmd clk"
  shows "\<exists>s'. UpdateTimingAndStates c (mk_Timing c) s cmd clk = Inr s' \<and> chan_inv c s' \<and>
    issued c s cmd clk s'"
  using UpdateTimingAndStates_issued [of c s cmd clk] issued_inv assms chan_invD(1)
  by (metis allowed_def)

end
