(* ===== verification/Emulator_Config.thy ===== *)
theory Emulator_Config
  imports Configuration
begin

text \<open>
  The memory configuration the emulator runs with,
  \<open>DRAMSIM3/configs/intenscore_DDR4_8Gb_x8_3200_1ch_2ra_16GB.ini\<close>: one channel of DDR4-3200
  with two ranks of sixteen banks. \<open>ddr4_config\<close> is the \<open>Config\<close> that the constructor makes
  of it; the witnesses of the development evaluate the model there.
\<close>

definition ddr4_ini :: "(string \<times> string) list" where
  "ddr4_ini =
    [(''dram_structure=protocol'', ''DDR4''), (''dram_structure=bankgroups'', ''4''),
     (''dram_structure=banks_per_group'', ''4''), (''dram_structure=rows'', ''65536''),
     (''dram_structure=columns'', ''1024''), (''dram_structure=device_width'', ''8''),
     (''dram_structure=bl'', ''8''),
     (''timing=tck'', ''0.625''), (''timing=al'', ''0''), (''timing=cl'', ''20''),
     (''timing=cwl'', ''16''), (''timing=trcd'', ''20''), (''timing=trp'', ''20''),
     (''timing=tras'', ''52''), (''timing=trfc'', ''576''), (''timing=trfc2'', ''416''),
     (''timing=trfc4'', ''256''), (''timing=trefi'', ''12480''), (''timing=trpre'', ''1''),
     (''timing=twpre'', ''1''), (''timing=trrd_s'', ''4''), (''timing=trrd_l'', ''8''),
     (''timing=twtr_s'', ''4''), (''timing=twtr_l'', ''12''), (''timing=tfaw'', ''34''),
     (''timing=twr'', ''24''), (''timing=twr2'', ''25''), (''timing=trtp'', ''12''),
     (''timing=tccd_s'', ''4''), (''timing=tccd_l'', ''8''), (''timing=tcke'', ''8''),
     (''timing=tckesr'', ''9''), (''timing=txs'', ''576''), (''timing=txp'', ''10''),
     (''timing=trtrs'', ''1''),
     (''system=channel_size'', ''16384''), (''system=channels'', ''1''),
     (''system=bus_width'', ''64''), (''system=address_mapping'', ''roracobabgch''),
     (''system=queue_structure'', ''PER_BANK''),
     (''system=refresh_policy'', ''RANK_LEVEL_STAGGERED''),
     (''system=row_buf_policy'', ''OPEN_PAGE''), (''system=cmd_queue_size'', ''8''),
     (''system=trans_queue_size'', ''32''),
     (''other=epoch_period'', ''1587301''), (''other=output_level'', ''1''),
     (''other=cpu_freq'', ''3500''), (''other=dram_freq'', ''500'')]"

definition ddr4_reader :: INIReader where
  "ddr4_reader = \<lparr>ini_error = 0, ini_values = map_of ddr4_ini, ini_sections = {}\<rparr>"

definition ddr4_config :: Config where
  "ddr4_config =
     \<lparr>protocol = DDR4, channel_size = 16384, channels = 1, ranks = 2, banks = 16, bankgroups = 4,
      banks_per_group = 4, bankgroup_enable = True, rows = 65536, columns = 1024,
      device_width = 8, bus_width = 64, devices_per_rank = 8, BL = 8,
      shift_bits = 6, ch_pos = 0, ra_pos = 11, bg_pos = 0, ba_pos = 2, ro_pos = 12, co_pos = 4,
      ch_mask = 0, ra_mask = 1, bg_mask = 3, ba_mask = 3, ro_mask = 65535, co_mask = 127,
      request_size_bytes = 64, burst_cycle = 4, AL = 0, CL = 20, CWL = 16, RL = 20, WL = 16,
      tCCD_L = 8, tCCD_S = 4, tRTRS = 1, tRTP = 12, tWTR_L = 12, tWTR_S = 4, tWR = 24, tRP = 20,
      tRRD_L = 8, tRRD_S = 4, tRAS = 52, tRCD = 20, tRFC = 576, tRC = 72, tCKE = 8, tCKESR = 9,
      tXS = 576, tXP = 10, tRFCb = 20, tREFI = 12480, tREFIb = 1950, tFAW = 34, tRPRE = 1,
      tWPRE = 1, read_delay = 24, write_delay = 20, tPPD = 0, t32AW = 330, tRCDRD = 24,
      tRCDWR = 20, ideal_memory_latency = 10, num_links = 4, num_dies = 1, link_width = 16,
      link_speed = 15000, block_size = 64, xbar_queue_depth = 16,
      address_mapping = ''roracobabgch'', queue_structure = ''PER_BANK'',
      row_buf_policy = ''OPEN_PAGE'', refresh_policy = RANK_LEVEL_STAGGERED, cmd_queue_size = 8,
      unified_queue = False, trans_queue_size = 32, write_buf_size = 16,
      enable_self_refresh = False, sref_threshold = 1000, aggressive_precharging_enabled = False,
      enable_hbm_dual_cmd = False, epoch_period = 1587301, output_level = 1\<rparr>"

lemma ddr4_config_mapping: "SetAddressMapping ddr4_config = Inr ddr4_config"
  by code_simp

section \<open>Correctness of the address mapping\<close>

lemma SetAddressMapping_shift:
  assumes "SetAddressMapping c = Inr c'"
  shows "0 \<le> shift_bits c'"
proof -
  obtain fp d where "set_positions fp (c\<lparr>request_size_bytes := c_div (bus_width c) 8 * BL c,
      shift_bits := LogBase2 (c_div (bus_width c) 8 * BL c)\<rparr>) = Inr d"
    and "set_masks (field_widths c) d = Inr c'"
    using assms by (auto simp: SetAddressMapping_def Let_def split: if_splits elim!: bindR_InrE)
  then have "shift_bits c' = LogBase2 (c_div (bus_width c) 8 * BL c)"
    using set_positions_fields set_masks_fields by fastforce
  then show ?thesis by (simp add: LogBase2_nonneg)
qed

lemma Address_eqI:
  assumes "\<forall>t \<in> set field_names. field_of a t = field_of b t"
  shows "a = (b :: Address)"
  using assms unfolding field_names_all by (simp add: field_of_def)

text \<open>
  C14: Round trip of the address mapping. Whatever permutation of the six fields the
  configuration names, assembling an address from field values that fit their widths and
  decoding it with \<open>Config::AddressMapping\<close> gives these field values back.
\<close>

theorem address_mapping_roundtrip:
  assumes "SetAddressMapping c = Inr c'" and "shift_bits c' + total_width c < 64"
    and "\<forall>t \<in> set field_names. 0 \<le> the (field_of ad t) \<and>
      the (field_of ad t) < 2 ^ nat (the (field_widths c t))"
  shows "AddressMapping c' (encode_address c' ad) = Inr ad"
proof -
  note shift = SetAddressMapping_shift [OF assms(1)]
  have tot: "total_width c < 64" "shift_bits c' < 64"
    using assms(2) shift mapping_layout [OF assms(1), of "''ch''"] by (fastforce simp: field_names_def)+
  obtain ad' where ad': "AddressMapping c' (encode_address c' ad) = Inr ad'"
    using AddressMapping_total [OF assms(1) shift tot(2,1)] by blast
  have "ad' = ad"
    using AddressMapping_encode [OF assms(1) shift assms(2,3) ad'] by (blast intro: Address_eqI)
  with ad' show ?thesis by simp
qed


theorem address_mapping_roundtrip_witness:
  "AddressMapping ddr4_config (encode_address ddr4_config (mk_Address 0 1 2 3 4660 17)) =
     Inr (mk_Address 0 1 2 3 4660 17)"
proof -
  have h: "shift_bits ddr4_config + total_width ddr4_config < 64"
    "\<forall>t \<in> set field_names. 0 \<le> the (field_of (mk_Address 0 1 2 3 4660 17) t) \<and>
      the (field_of (mk_Address 0 1 2 3 4660 17) t) < 2 ^ nat (the (field_widths ddr4_config t))"
    by code_simp+
  show ?thesis by (rule address_mapping_roundtrip [OF ddr4_config_mapping h])
qed

text \<open>The columns one address stands for; LPDDR5 counts bursts.\<close>

definition burst_columns :: "Config \<Rightarrow> int" where
  "burst_columns c = (if IsLP5 c then 1 else 2 ^ nat (LogBase2 (BL c)))"

lemma AddressMapping_burst_range:
  assumes "SetAddressMapping c = Inr c'" and "AddressMapping c' x = Inr ad" and "1 \<le> columns c"
  shows "0 \<le> column ad \<and> (column ad + 1) * burst_columns c \<le> columns c"
proof -
  have co: "''co'' \<in> set field_names" "field_of ad ''co'' = Some (column ad)"
    by (simp_all add: field_names_def field_of_def)
  obtain n where n: "field_widths c ''co'' = Some (int n)" using mapping_layout [OF assms(1) co(1)] by metis
  then have r: "0 \<le> column ad" "column ad + 1 \<le> 2 ^ n"
    using AddressMapping_field_range [OF assms(1,2) co] by simp_all
  have "nat (LogBase2 (columns c)) = n + (if IsLP5 c then 0 else nat (LogBase2 (BL c)))"
    using n LogBase2_nonneg [of "BL c"] by (simp add: field_widths_def Let_def split: if_splits)
  then have "2 ^ n * burst_columns c = 2 ^ nat (LogBase2 (columns c))"
    by (simp add: burst_columns_def power_add)
  also have "\<dots> \<le> columns c" using LogBase2_floor(2) [OF assms(3)] .
  finally have "2 ^ n * burst_columns c \<le> columns c" .
  moreover have "(column ad + 1) * burst_columns c \<le> 2 ^ n * burst_columns c"
    using r(2) by (intro mult_right_mono) (simp_all add: burst_columns_def)
  ultimately show ?thesis using r(1) by linarith
qed

text \<open>
  C16: Every decoded address lies in the memory. For any 64-bit address, decoding succeeds and
  each field is smaller than the number of channels, ranks, bank groups, banks and rows that
  the controllers allocate state for, so no bank vector is indexed out of bounds; the burst
  that the column stands for ends within the columns of the row.
\<close>

theorem address_mapping_in_range:
  assumes "SetAddressMapping c = Inr c'" and "shift_bits c' < 64" and "total_width c < 64"
    and "1 \<le> channels c" and "1 \<le> ranks c" and "1 \<le> bankgroups c"
    and "1 \<le> banks_per_group c" and "1 \<le> rows c" and "1 \<le> columns c"
  shows "\<exists>ad. AddressMapping c' x = Inr ad \<and>
    0 \<le> channel ad \<and> channel ad < channels c \<and> 0 \<le> rank ad \<and> rank ad < ranks c \<and>
    0 \<le> bankgroup ad \<and> bankgroup ad < bankgroups c \<and> 0 \<le> bank ad \<and> bank ad < banks_per_group c \<and>
    0 \<le> row ad \<and> row ad < rows c \<and> 0 \<le> column ad \<and> (column ad + 1) * burst_columns c \<le> columns c"
proof -
  obtain ad where ad: "AddressMapping c' x = Inr ad"
    using AddressMapping_total [OF assms(1) SetAddressMapping_shift [OF assms(1)] assms(2,3)] by blast
  with AddressMapping_range [OF assms(1) ad assms(4-8)] AddressMapping_burst_range [OF assms(1) ad assms(9)]
  show ?thesis by blast
qed

theorem address_mapping_in_range_witness:
  "\<exists>ad. AddressMapping ddr4_config 0xDEADBEEF40 = Inr ad \<and>
    0 \<le> channel ad \<and> channel ad < 1 \<and> 0 \<le> rank ad \<and> rank ad < 2 \<and>
    0 \<le> bankgroup ad \<and> bankgroup ad < 4 \<and> 0 \<le> bank ad \<and> bank ad < 4 \<and>
    0 \<le> row ad \<and> row ad < 65536 \<and> 0 \<le> column ad \<and> (column ad + 1) * 8 \<le> 1024"
proof -
  have h: "shift_bits ddr4_config < 64" "total_width ddr4_config < 64" "1 \<le> channels ddr4_config"
    "1 \<le> ranks ddr4_config" "1 \<le> bankgroups ddr4_config" "1 \<le> banks_per_group ddr4_config"
    "1 \<le> rows ddr4_config" "1 \<le> columns ddr4_config"
    by code_simp+
  have e: "channels ddr4_config = 1" "ranks ddr4_config = 2" "bankgroups ddr4_config = 4"
    "banks_per_group ddr4_config = 4" "rows ddr4_config = 65536" "columns ddr4_config = 1024"
    "burst_columns ddr4_config = 8"
    by code_simp+
  from address_mapping_in_range [OF ddr4_config_mapping h, of "0xDEADBEEF40"] show ?thesis unfolding e .
qed

text \<open>
  C15: The address mapping separates addresses. Two addresses below the capacity of the memory
  that decode to the same channel, rank, bank group, bank, row and column belong to the
  same burst: they differ at most in the bits below the access granularity.
\<close>

theorem address_mapping_injective:
  assumes "SetAddressMapping c = Inr c'"
    and "AddressMapping c' x = Inr ad" and "AddressMapping c' y = Inr ad"
    and "unat x < 2 ^ nat (shift_bits c' + total_width c)"
    and "unat y < 2 ^ nat (shift_bits c' + total_width c)"
  shows "drop_bit (nat (shift_bits c')) x = drop_bit (nat (shift_bits c')) y"
proof -
  have tw: "0 \<le> total_width c"
    using mapping_layout [OF assms(1), of "''ch''"] by (fastforce simp: field_names_def)
  have small: "take_bit (nat (total_width c)) (drop_bit (nat (shift_bits c')) z) = drop_bit (nat (shift_bits c')) z"
    if "unat z < 2 ^ nat (shift_bits c' + total_width c)" for z :: u64
  proof -
    have "take_bit (nat (shift_bits c' + total_width c)) z = z"
      using that by (simp add: unsigned_take_bit_eq take_bit_nat_eq_self word_unat_eq_iff)
    then have "drop_bit (nat (shift_bits c')) (take_bit (nat (shift_bits c' + total_width c)) z) =
        drop_bit (nat (shift_bits c')) z" by simp
    then show ?thesis
      using tw SetAddressMapping_shift [OF assms(1)] by (simp add: drop_bit_take_bit nat_add_distrib)
  qed
  show ?thesis
    using AddressMapping_inj_bits [OF assms(1-3)] small [OF assms(4)] small [OF assms(5)] by simp
qed

theorem address_mapping_injective_witness:
  "drop_bit (nat (shift_bits ddr4_config)) (0x12345678 :: u64) =
     drop_bit (nat (shift_bits ddr4_config)) (0x12345640 :: u64)"
proof -
  have h: "AddressMapping ddr4_config 0x12345678 = Inr (mk_Address 0 0 1 2 1165 21)"
    "AddressMapping ddr4_config 0x12345640 = Inr (mk_Address 0 0 1 2 1165 21)"
    by code_simp+
  have n: "nat (shift_bits ddr4_config + total_width ddr4_config) = 34"
    by code_simp
  show ?thesis by (rule address_mapping_injective [OF ddr4_config_mapping h]) (simp_all add: n)
qed

end
