(* ===== verification/Channel_Trace.thy ===== *)
theory Channel_Trace
  imports Channel_State Emulator_Config
begin

text \<open>
  Histories of a channel: the sequences of commands that can be issued to it, and what
  every such sequence satisfies. The delays of the timing tables are kept, the banks are
  always in the state a command needs, and no rank is activated five times within the
  four-activate window.
\<close>

section \<open>Histories of a channel\<close>

text \<open>
  The runs of a channel, with the commands issued so far and the cycle of each. A command
  is issued when \<open>GetReadyCommand\<close> returned it for some request at the current cycle, and
  cycles do not go back; refreshes may be queued and idle counters change at any time.
\<close>

inductive chan_trace :: "Config \<Rightarrow> (u64 \<times> Command) list \<Rightarrow> ChannelState \<Rightarrow> bool" for c where
  start: "chan_trace c [] (mk_ChannelState c)"
| issue: "chan_trace c tr s \<Longrightarrow> cmd_ok c req \<Longrightarrow> chan_GetReadyCommand c s req clk = Inr cmd \<Longrightarrow>
    IsValid cmd \<Longrightarrow> \<forall>e \<in> set tr. fst e \<le> clk \<Longrightarrow>
    UpdateTimingAndStates c (mk_Timing c) s cmd clk = Inr s' \<Longrightarrow>
    chan_trace c (tr @ [(clk, cmd)]) s'"
| rank_refresh: "chan_trace c tr s \<Longrightarrow> 0 \<le> r \<Longrightarrow> r < ranks c \<Longrightarrow>
    chan_trace c tr (RankNeedRefresh s r True)"
| bank_refresh: "chan_trace c tr s \<Longrightarrow> bank_index c r j k \<Longrightarrow>
    chan_trace c tr (BankNeedRefresh s r j k True)"
| idle: "chan_trace c tr s \<Longrightarrow> length v = length (rank_idle_cycles s) \<Longrightarrow>
    chan_trace c tr (s\<lparr>rank_idle_cycles := v\<rparr>)"

text \<open>Facts about an issue step, shared by the inductions below.\<close>

lemma issue_step:
  assumes "chan_inv c s" and "geometry_ok c" and "cmd_ok c req"
    and "chan_GetReadyCommand c s req clk = Inr cmd" and "IsValid cmd"
    and "UpdateTimingAndStates c (mk_Timing c) s cmd clk = Inr s'"
  shows "allowed c s cmd clk" and "chan_inv c s'" and "issued c s cmd clk s'"
  using chan_ready_allowed [OF assms(1-5)] allowed_issue [OF assms(1)] assms(6) by fastforce+

lemma chan_trace_inv:
  assumes "chan_trace c tr s" and "geometry_ok c"
  shows "chan_inv c s"
  using assms
proof induction
  case (issue tr s req clk cmd s')
  then show ?case using issue_step(2) by blast
qed (auto intro: chan_inv_mk_ChannelState RankNeedRefresh_inv BankNeedRefresh_inv chan_inv_idle)

lemma need_refresh_frame [simp]:
  "bank_states (RankNeedRefresh s r need) = bank_states s"
  "four_aw (RankNeedRefresh s r need) = four_aw s"
  "bank_states (BankNeedRefresh s r j k need) = bank_states s"
  "four_aw (BankNeedRefresh s r j k need) = four_aw s"
  "thirty_two_aw (RankNeedRefresh s r need) = thirty_two_aw s"
  "thirty_two_aw (BankNeedRefresh s r j k need) = thirty_two_aw s"
  by (simp_all add: RankNeedRefresh_def BankNeedRefresh_def)

lemma issued_timing_mono:
  assumes "issued c s cmd clk s'" and "bank_index c r j k"
  shows "cmd_timing (at_bank (bank_states s) (r, j, k)) t \<le> cmd_timing (at_bank (bank_states s') (r, j, k)) t"
proof -
  obtain b where "if touches cmd (r, j, k)
        then bank_UpdateState (at_bank (bank_states s) (r, j, k)) cmd = Inr b
        else b = at_bank (bank_states s) (r, j, k)"
    and b: "at_bank (bank_states s') (r, j, k) =
        apply_timings (timing_list (mk_Timing c) cmd (r, j, k)) clk b"
    using assms unfolding issued_def by blast
  then have "cmd_timing b = cmd_timing (at_bank (bank_states s) (r, j, k))"
    by (auto dest: bank_UpdateState_timing split: if_splits)
  then show ?thesis using apply_timings_mono [of b t] b by simp
qed

lemma issued_timing_ge:
  assumes "issued c s cmd clk s'" and "bank_index c r j k"
    and "(t, d) \<in> set (timing_list (mk_Timing c) cmd (r, j, k))"
  shows "clk + of_int d \<le> cmd_timing (at_bank (bank_states s') (r, j, k)) t"
  using assms(1,2) apply_timings_ge [OF assms(3)] unfolding issued_def by metis

text \<open>The clock of every bank remembers the constraints of all commands issued so far.\<close>

lemma chan_trace_bound:
  assumes "chan_trace c tr s" and "geometry_ok c" and "(clk0, cmd0) \<in> set tr"
    and "bank_index c r j k" and "(t, d) \<in> set (timing_list (mk_Timing c) cmd0 (r, j, k))"
  shows "clk0 + of_int d \<le> cmd_timing (at_bank (bank_states s) (r, j, k)) t"
  using assms
proof induction
  case (issue tr s req clk cmd s')
  note st = issue_step [OF chan_trace_inv [OF issue.hyps(1) issue.prems(1)] issue.prems(1)
      issue.hyps(2,3,4,6)]
  show ?case
  proof (cases "(clk0, cmd0) \<in> set tr")
    case True
    with issue have "clk0 + of_int d \<le> cmd_timing (at_bank (bank_states s) (r, j, k)) t" by blast
    from order_trans [OF this issued_timing_mono [OF st(3) issue.prems(3)]] show ?thesis .
  next
    case False
    with issue.prems have "clk0 = clk" and "cmd0 = cmd" by auto
    with issued_timing_ge [OF st(3) issue.prems(3)] issue.prems(4) show ?thesis by simp
  qed
qed simp_all

text \<open>The commands of a history keep every delay of the timing tables.\<close>

definition timing_respected :: "Config \<Rightarrow> (u64 \<times> Command) list \<Rightarrow> bool" where
  "timing_respected c tr \<longleftrightarrow>
     (\<forall>n < length tr. \<forall>m < n. \<forall>r j k d.
        bank_index c r j k \<longrightarrow> touches (snd (tr ! n)) (r, j, k) \<longrightarrow>
        (cmd_type (snd (tr ! n)), d) \<in> set (timing_list (mk_Timing c) (snd (tr ! m)) (r, j, k)) \<longrightarrow>
        fst (tr ! m) + of_int d \<le> fst (tr ! n))"

lemma chan_trace_timing_respected:
  assumes "chan_trace c tr s" and "geometry_ok c"
  shows "timing_respected c tr"
  using assms
proof induction
  case (issue tr s req clk cmd s')
  note st = issue_step [OF chan_trace_inv [OF issue.hyps(1) issue.prems(1)] issue.prems(1)
      issue.hyps(2,3,4,6)]
  show ?case
    unfolding timing_respected_def
  proof (intro allI impI)
    fix n m r j k d
    assume n: "n < length (tr @ [(clk, cmd)])" and m: "m < n" and bi: "bank_index c r j k"
      and t: "touches (snd ((tr @ [(clk, cmd)]) ! n)) (r, j, k)"
      and d: "(cmd_type (snd ((tr @ [(clk, cmd)]) ! n)), d)
        \<in> set (timing_list (mk_Timing c) (snd ((tr @ [(clk, cmd)]) ! m)) (r, j, k))"
    show "fst ((tr @ [(clk, cmd)]) ! m) + of_int d \<le> fst ((tr @ [(clk, cmd)]) ! n)"
    proof (cases "n < length tr")
      case True
      with issue m bi t d show ?thesis
        unfolding timing_respected_def by (auto simp: nth_append)
    next
      case False
      with n m have nn: "n = length tr" and mm: "m < length tr" by auto
      have "fst (tr ! m) + of_int d \<le> cmd_timing (at_bank (bank_states s) (r, j, k)) (cmd_type cmd)"
        using chan_trace_bound [OF issue.hyps(1) issue.prems(1), of "fst (tr ! m)" "snd (tr ! m)"]
          mm nn bi d by (auto simp: nth_append)
      also have "\<dots> \<le> clk"
        using st(1) bi t nn by (auto simp: allowed_def nth_append)
      finally show ?thesis using nn mm by (simp add: nth_append)
    qed
  qed
qed (simp_all add: timing_respected_def)

section \<open>Rows\<close>

definition bank_row :: "BankState \<Rightarrow> int option" where
  "bank_row b = (if bank_state b = OPEN then Some (open_row b) else None)"

text \<open>The row a history leaves open in a bank, read off the commands alone.\<close>

definition row_after :: "int \<times> int \<times> int \<Rightarrow> Command \<Rightarrow> int option \<Rightarrow> int option" where
  "row_after p cmd ro =
     (if touches cmd p then
        if cmd_type cmd = ACTIVATE then Some (Row cmd)
        else if cmd_type cmd \<in> {READ, WRITE} then ro else None
      else ro)"

definition row_history :: "int \<times> int \<times> int \<Rightarrow> (u64 \<times> Command) list \<Rightarrow> int option" where
  "row_history p tr = fold (\<lambda>(_, cmd). row_after p cmd) tr None"

lemma row_history_snoc: "row_history p (tr @ [(clk, cmd)]) = row_after p cmd (row_history p tr)"
  by (simp add: row_history_def)

lemma bank_UpdateState_row:
  assumes "bank_UpdateState b cmd = Inr b'" and "touches cmd p"
  shows "bank_row b' = row_after p cmd (bank_row b)"
  using assms
  by (cases "bank_state b"; cases "cmd_type cmd")
    (auto simp: bank_UpdateState_def bank_row_def row_after_def)

lemma bank_row_apply_timings [simp]: "bank_row (apply_timings l clk b) = bank_row b"
  by (simp add: bank_row_def)

lemma chan_trace_row:
  assumes "chan_trace c tr s" and "geometry_ok c" and "bank_index c r j k"
  shows "bank_row (at_bank (bank_states s) (r, j, k)) = row_history (r, j, k) tr"
  using assms
proof induction
  case start
  then show ?case
    by (simp add: at_bank_mk_ChannelState row_history_def) (simp add: bank_row_def BankState0_def)
next
  case (issue tr s req clk cmd s')
  note st = issue_step [OF chan_trace_inv [OF issue.hyps(1) issue.prems(1)] issue.prems(1)
      issue.hyps(2,3,4,6)]
  obtain b where "if touches cmd (r, j, k)
        then bank_UpdateState (at_bank (bank_states s) (r, j, k)) cmd = Inr b
        else b = at_bank (bank_states s) (r, j, k)"
    and "at_bank (bank_states s') (r, j, k) =
        apply_timings (timing_list (mk_Timing c) cmd (r, j, k)) clk b"
    using st(3) issue.prems(2) unfolding issued_def by blast
  then show ?case
    using issue bank_UpdateState_row [of _ cmd b "(r, j, k)"]
    by (auto simp: row_history_snoc row_after_def split: if_splits)
qed simp_all

text \<open>
  Every command of a history meets the banks it reaches in the state the DRAM protocol
  asks for: reads and writes the open row they name, a precharge some open row, the
  others no open row.
\<close>

definition protocol_respected :: "Config \<Rightarrow> (u64 \<times> Command) list \<Rightarrow> bool" where
  "protocol_respected c tr \<longleftrightarrow>
     (\<forall>n < length tr. \<forall>r j k. bank_index c r j k \<longrightarrow> touches (snd (tr ! n)) (r, j, k) \<longrightarrow>
        (let cmd = snd (tr ! n); ro = row_history (r, j, k) (take n tr)
         in if IsReadWrite cmd then ro = Some (Row cmd)
            else if cmd_type cmd = PRECHARGE then ro \<noteq> None
            else ro = None))"

lemma applied_row:
  assumes "bank_UpdateState b cmd = Inr b'" and "IsReadWrite cmd \<longrightarrow> open_row b = Row cmd"
  shows "if IsReadWrite cmd then bank_row b = Some (Row cmd)
    else if cmd_type cmd = PRECHARGE then bank_row b \<noteq> None else bank_row b = None"
  using assms
  by (cases "bank_state b"; cases "cmd_type cmd") (auto simp: bank_UpdateState_def bank_row_def)

lemma chan_trace_protocol_respected:
  assumes "chan_trace c tr s" and "geometry_ok c"
  shows "protocol_respected c tr"
  using assms
proof induction
  case (issue tr s req clk cmd s')
  note st = issue_step [OF chan_trace_inv [OF issue.hyps(1) issue.prems(1)] issue.prems(1)
      issue.hyps(2,3,4,6)]
  have new: "if IsReadWrite cmd then row_history (r, j, k) tr = Some (Row cmd)
      else if cmd_type cmd = PRECHARGE then row_history (r, j, k) tr \<noteq> None
      else row_history (r, j, k) tr = None"
    if bi: "bank_index c r j k" and t: "touches cmd (r, j, k)" for r j k
  proof -
    let ?b = "at_bank (bank_states s) (r, j, k)"
    obtain b where "bank_UpdateState ?b cmd = Inr b"
      using st(1) bi t unfolding allowed_def applicable_def by blast
    moreover have "IsReadWrite cmd \<longrightarrow> open_row ?b = Row cmd"
      using st(1) bi t unfolding allowed_def by blast
    ultimately show ?thesis
      unfolding chan_trace_row [OF issue.hyps(1) issue.prems(1) bi, symmetric]
      by (rule applied_row)
  qed
  show ?case
    unfolding protocol_respected_def
  proof (intro allI impI)
    fix n r j k
    assume n: "n < length (tr @ [(clk, cmd)])" and bi: "bank_index c r j k"
      and t: "touches (snd ((tr @ [(clk, cmd)]) ! n)) (r, j, k)"
    show "let cmda = snd ((tr @ [(clk, cmd)]) ! n); ro = row_history (r, j, k) (take n (tr @ [(clk, cmd)]))
          in if IsReadWrite cmda then ro = Some (Row cmda)
             else if cmd_type cmda = PRECHARGE then ro \<noteq> None else ro = None"
    proof (cases "n < length tr")
      case True
      with issue.IH issue.prems bi t show ?thesis
        unfolding protocol_respected_def by (simp add: nth_append)
    next
      case False
      with n have "n = length tr" by simp
      with new [OF bi] t show ?thesis by (simp add: Let_def)
    qed
  qed
qed (simp_all add: protocol_respected_def)

section \<open>Activation windows\<close>

definition act_times :: "int \<Rightarrow> (u64 \<times> Command) list \<Rightarrow> u64 list" where
  "act_times r tr = map fst (filter (\<lambda>(_, cmd). cmd_type cmd = ACTIVATE \<and> Rank cmd = r) tr)"

lemma act_times_snoc:
  "act_times r (tr @ [(clk, cmd)]) =
     act_times r tr @ (if cmd_type cmd = ACTIVATE \<and> Rank cmd = r then [clk] else [])"
  by (simp add: act_times_def)

lemma act_times_subset: "set (act_times r tr) \<subseteq> fst ` set tr"
  by (auto simp: act_times_def)

lemma chan_ready_window:
  assumes "chan_inv c s" and "geometry_ok c" and "cmd_ok c req"
    and ready: "chan_GetReadyCommand c s req clk = Inr cmd" and act: "cmd_type cmd = ACTIVATE"
  shows "ActivationWindowOk c s (Rank cmd) clk = Inr True"
proof (cases "IsRankCMD req")
  case True
  then obtain res where res: "rank_ready_loop s req clk (bank_loop c) Command0 0 = Inr res"
    and cmd: "(case res of Inl early \<Rightarrow> Inr early
        | Inr (ready_cmd, num_ready) \<Rightarrow> if num_ready = banks c then Inr ready_cmd else Inr Command0)
      = (Inr cmd :: Command result)"
    using ready by (auto simp: chan_GetReadyCommand_def)
  have ne: "bank_loop c \<noteq> []"
    using length_bank_loop [OF assms(2)] assms(2) by (auto simp: geometry_ok_def)
  show ?thesis
  proof (cases res)
    case (Inl e)
    with res cmd act show ?thesis using rank_ready_precharge [OF assms(1,3) True] by auto
  next
    case (Inr p)
    then obtain rc where "res = Inr (rc, banks c)" and "cmd = rc"
      using cmd act by (cases p) (auto split: if_splits)
    with rank_ready_loop_count [of s req clk "bank_loop c" Command0 0 rc "banks c"] res True act ne
      length_bank_loop [OF assms(2)] show ?thesis by auto
  qed
next
  case False
  then show ?thesis
    using ready act unfolding chan_GetReadyCommand_def
    by (auto split: if_splits elim!: bindR_InrE)
qed

text \<open>
  A window of size \<open>N\<close> holds the expiry times of the latest activations of a rank, at most
  \<open>N\<close>; an activation that has left the window had expired when its successor came.
\<close>

definition window_inv :: "nat \<Rightarrow> u64 \<Rightarrow> u64 list \<Rightarrow> u64 list \<Rightarrow> bool" where
  "window_inv N d acts w \<longleftrightarrow>
     (\<exists>n \<le> length acts. w = map (\<lambda>t. t + d) (drop n acts) \<and> length w \<le> N \<and>
        (\<forall>i < n. \<exists>t \<in> set acts. acts ! i + d \<le> t)) \<and>
     (\<forall>i. i + N < length acts \<longrightarrow> acts ! i + d \<le> acts ! (i + N))"

lemma window_inv_push:
  assumes "window_inv N d acts w" and ready: "\<not> (w \<noteq> [] \<and> clk < hd w \<and> N \<le> length w)"
    and later: "\<forall>t \<in> set acts. t \<le> clk" and N: "0 < N"
  shows "window_inv N d (acts @ [clk]) (push_window w clk (clk + d))"
proof -
  obtain n where n: "n \<le> length acts" "w = map (\<lambda>t. t + d) (drop n acts)" "length w \<le> N"
    and old: "\<forall>i < n. \<exists>t \<in> set acts. acts ! i + d \<le> t"
    and span: "\<forall>i. i + N < length acts \<longrightarrow> acts ! i + d \<le> acts ! (i + N)"
    using assms(1) unfolding window_inv_def by blast
  have exp: "acts ! i + d \<le> clk" if "i < n" for i
    using old that later by (meson order_trans)
  have hdw: "hd w = acts ! n + d" if "w \<noteq> []"
    using that n by (simp add: hd_map hd_drop_conv_nth)
  have last: "acts ! i + d \<le> clk" if "i + N = length acts" for i
  proof (cases "i < n")
    case False
    with n that have "i = n" and "length w = N" by auto
    then show ?thesis using ready hdw N by (cases w) auto
  qed (rule exp)
  have "\<forall>i. i + N < length (acts @ [clk]) \<longrightarrow> (acts @ [clk]) ! i + d \<le> (acts @ [clk]) ! (i + N)"
    using span last N by (auto simp: nth_append less_Suc_eq)
  moreover have "\<exists>m \<le> length (acts @ [clk]). push_window w clk (clk + d) = map (\<lambda>t. t + d) (drop m (acts @ [clk])) \<and>
      length (push_window w clk (clk + d)) \<le> N \<and> (\<forall>i < m. \<exists>t \<in> set (acts @ [clk]). (acts @ [clk]) ! i + d \<le> t)"
  proof (cases "w \<noteq> [] \<and> hd w \<le> clk")
    case True
    then have nn: "n < length acts" using n by auto
    then have "tl w = map (\<lambda>t. t + d) (drop (Suc n) acts)"
      using n by (simp add: tl_drop [symmetric] drop_Suc map_tl [symmetric])
    moreover have "(acts @ [clk]) ! i + d \<le> clk" if "i < Suc n" for i
      using that exp True hdw nn by (auto simp: nth_append less_Suc_eq)
    ultimately show ?thesis
      using n nn True by (intro exI [of _ "Suc n"]) (auto simp: push_window_def)
  next
    case False
    then have "length w < N" using ready n(3) N by (cases "w = []") auto
    with False n exp show ?thesis
      by (intro exI [of _ n]) (auto simp: push_window_def nth_append)
  qed
  ultimately show ?thesis unfolding window_inv_def by blast
qed

definition windows_inv :: "Config \<Rightarrow> int \<Rightarrow> (u64 \<times> Command) list \<Rightarrow> ChannelState \<Rightarrow> bool" where
  "windows_inv c r tr s \<longleftrightarrow>
     window_inv 4 (of_int (tFAW c)) (act_times r tr) (four_aw s ! nat r) \<and>
     (IsGDDR c \<longrightarrow> window_inv 32 (of_int (t32AW c)) (act_times r tr) (thirty_two_aw s ! nat r))"

lemma windows_inv_activate:
  assumes "windows_inv c r tr s" and "chan_shape c s" and "0 \<le> r" and "r < ranks c"
    and ok: "ActivationWindowOk c s r clk = Inr True"
    and later: "\<forall>e \<in> set tr. fst e \<le> clk"
    and faw: "four_aw s' = (four_aw s)[nat r := push_window (four_aw s ! nat r) clk (clk + of_int (tFAW c))]"
    and aw32: "IsGDDR c \<Longrightarrow> thirty_two_aw s' =
      (thirty_two_aw s)[nat r := push_window (thirty_two_aw s ! nat r) clk (clk + of_int (t32AW c))]"
    and cmd: "cmd_type cmd = ACTIVATE" "Rank cmd = r"
  shows "windows_inv c r (tr @ [(clk, cmd)]) s'"
proof -
  have later': "\<forall>t \<in> set (act_times r tr). t \<le> clk"
    using later act_times_subset by fastforce
  have len: "length (four_aw s) = nat (ranks c)" "length (thirty_two_aw s) = nat (ranks c)"
    using assms(2) by (simp_all add: chan_shape_def)
  have "IsFAWReady s r clk = Inr True" and "IsGDDR c \<Longrightarrow> Is32AWReady s r clk = Inr True"
    using ok by (auto simp: ActivationWindowOk_def split: if_splits elim!: bindR_InrE)
  then have
    "\<not> (four_aw s ! nat r \<noteq> [] \<and> clk < hd (four_aw s ! nat r) \<and> 4 \<le> length (four_aw s ! nat r))"
    "IsGDDR c \<Longrightarrow> \<not> (thirty_two_aw s ! nat r \<noteq> [] \<and> clk < hd (thirty_two_aw s ! nat r) \<and>
       32 \<le> length (thirty_two_aw s ! nat r))"
    by (auto simp: IsFAWReady_def Is32AWReady_def vec_at_Inr elim!: bindR_InrE)
  then show ?thesis
    using assms(1,3,4) len faw aw32 cmd later'
    by (auto simp: windows_inv_def act_times_snoc intro!: window_inv_push)
qed

lemma chan_trace_windows:
  assumes "chan_trace c tr s" and "geometry_ok c" and "0 \<le> r" and "r < ranks c"
  shows "windows_inv c r tr s"
  using assms
proof induction
  case start
  then show ?case by (simp add: act_times_def mk_ChannelState_def window_inv_def windows_inv_def)
next
  case (issue tr s req clk cmd s')
  note inv = chan_trace_inv [OF issue.hyps(1) issue.prems(1)]
  note st = issue_step [OF inv issue.prems(1) issue.hyps(2,3,4,6)]
  have aw: "four_aw s' = (if cmd_type cmd = ACTIVATE
        then (four_aw s)[nat (Rank cmd) :=
               push_window (four_aw s ! nat (Rank cmd)) clk (clk + of_int (tFAW c))]
        else four_aw s)"
    "thirty_two_aw s' = (if cmd_type cmd = ACTIVATE \<and> IsGDDR c
        then (thirty_two_aw s)[nat (Rank cmd) :=
               push_window (thirty_two_aw s ! nat (Rank cmd)) clk (clk + of_int (t32AW c))]
        else thirty_two_aw s)"
    using st(3) by (simp_all add: issued_def)
  show ?case
  proof (cases "cmd_type cmd = ACTIVATE \<and> Rank cmd = r")
    case True
    have "ActivationWindowOk c s r clk = Inr True"
      using chan_ready_window [OF inv issue.prems(1) issue.hyps(2,3)] True by simp
    with True show ?thesis
      using windows_inv_activate [OF issue.IH [OF issue.prems] chan_invD(1) [OF inv] issue.prems(2,3)]
        issue.hyps(5) aw by auto
  next
    case False
    have "0 \<le> Rank cmd" using st(1) by (simp add: allowed_def cmd_ok_def)
    with False issue.IH [OF issue.prems] aw issue.prems show ?thesis
      by (auto simp: windows_inv_def act_times_snoc nth_list_update nat_eq_iff)
  qed
qed (simp_all add: windows_inv_def)

section \<open>Requests the channel answers\<close>

text \<open>
  Reads and writes always; refreshes and the entry into self refresh when the rank is not
  in self refresh. The exit from self refresh is never answered: \<open>BankState\<close> aborts.
\<close>

definition chan_answers :: "ChannelState \<Rightarrow> Command \<Rightarrow> bool" where
  "chan_answers s req \<longleftrightarrow> IsReadWrite req \<or>
     (cmd_type req \<in> {REFRESH, REFRESH_BANK, SREF_ENTER} \<and> \<not> rank_is_sref s ! nat (Rank req))"

lemma chan_answers_bank:
  assumes "chan_inv c s" and "chan_answers s req" and "bank_index c (Rank req) j k"
  shows "bank_answers (at_bank (bank_states s) (Rank req, j, k)) req"
  using assms(2) chan_invD(3,4) [OF assms(1,3)]
  by (auto simp: chan_answers_def bank_answers_def bank_request_def bank_inv_def)

lemma rank_ready_loop_total:
  assumes "\<forall>(j, k) \<in> set ps. \<exists>b r. get3 (bank_states s) (Rank req) j k = Inr b \<and>
    bank_GetReadyCommand b req clk = Inr r"
  shows "\<exists>res. rank_ready_loop s req clk ps rc n = Inr res"
  using assms
proof (induction ps arbitrary: rc n)
  case (Cons p ps)
  obtain j k where p: "p = (j, k)" by (cases p)
  with Cons.prems obtain b r where "get3 (bank_states s) (Rank req) j k = Inr b"
    "bank_GetReadyCommand b req clk = Inr r" by auto
  with Cons show ?case by (auto simp: p)
qed simp

lemma ActivationWindowOk_total:
  assumes "chan_inv c s" and "0 \<le> r" and "r < ranks c"
  shows "\<exists>ok. ActivationWindowOk c s r clk = Inr ok"
  using assms chan_invD(1) [OF assms(1)]
  by (auto simp: ActivationWindowOk_def IsFAWReady_def Is32AWReady_def vec_at_def chan_shape_def)

lemma chan_GetReadyCommand_total:
  assumes inv: "chan_inv c s" and ok: "cmd_ok c req" and ans: "chan_answers s req"
  shows "\<exists>cmd. chan_GetReadyCommand c s req clk = Inr cmd"
proof (cases "IsRankCMD req")
  case True
  have "\<forall>(j, k) \<in> set (bank_loop c). \<exists>b r. get3 (bank_states s) (Rank req) j k = Inr b \<and>
      bank_GetReadyCommand b req clk = Inr r"
  proof (intro ballI, clarify)
    fix j k assume "(j, k) \<in> set (bank_loop c)"
    then have bi: "bank_index c (Rank req) j k"
      using ok by (simp add: bank_loop_set bank_index_def cmd_ok_def)
    then show "\<exists>b r. get3 (bank_states s) (Rank req) j k = Inr b \<and> bank_GetReadyCommand b req clk = Inr r"
      using chan_answers_bank [OF inv ans bi] get3_bank [OF chan_invD(2) [OF inv] bi]
        bank_GetReadyCommand_Inr by auto
  qed
  from rank_ready_loop_total [OF this] obtain res where
    "rank_ready_loop s req clk (bank_loop c) Command0 0 = Inr res" by blast
  with True show ?thesis
    by (cases res) (auto simp: chan_GetReadyCommand_def)
next
  case False
  then have bi: "bank_index c (Rank req) (Bankgroup req) (Bank req)"
    using ok by (simp add: cmd_ok_def)
  then obtain r where r: "bank_GetReadyCommand (at_bank (bank_states s) (Rank req, Bankgroup req, Bank req)) req clk = Inr r"
    using chan_answers_bank [OF inv ans bi] bank_GetReadyCommand_Inr by blast
  have "\<exists>ok. ActivationWindowOk c s (Rank r) clk = Inr ok" if "IsValid r"
    using ActivationWindowOk_total [OF inv] bi bank_ready_cases(3) [OF r that]
    by (auto simp: bank_index_def)
  with False r show ?thesis
    unfolding chan_GetReadyCommand_def get3_bank [OF chan_invD(2) [OF inv] bi] by auto
qed

text \<open>Towards a read or write no bank asks for a refresh, and the answer is the request
itself or one of the commands that prepare the bank.\<close>

lemma chan_ready_rw:
  assumes "cmd_ok c req" and "IsReadWrite req" and "chan_inv c s"
    and ready: "chan_GetReadyCommand c s req clk = Inr cmd" and v: "IsValid cmd"
  shows "cmd_addr cmd = cmd_addr req" and "hex_addr cmd = hex_addr req"
    and "cmd_type cmd \<in> {cmd_type req, ACTIVATE, PRECHARGE, SREF_EXIT}"
proof -
  have nr: "\<not> IsRankCMD req" using assms(2) by auto
  then have bi: "bank_index c (Rank req) (Bankgroup req) (Bank req)"
    using assms(1) by (simp add: cmd_ok_def)
  have r: "bank_GetReadyCommand (at_bank (bank_states s) (Rank req, Bankgroup req, Bank req)) req clk = Inr cmd"
    using ready v nr unfolding chan_GetReadyCommand_def get3_bank [OF chan_invD(2) [OF assms(3)] bi]
    by (auto split: if_splits elim!: bindR_InrE)
  show "cmd_addr cmd = cmd_addr req" "hex_addr cmd = hex_addr req"
    using bank_ready_cases(3,4) [OF r v] .
  show "cmd_type cmd \<in> {cmd_type req, ACTIVATE, PRECHARGE, SREF_EXIT}"
    using bank_ready_cases(1) [OF r v] assms(2)
    by (cases "bank_state (at_bank (bank_states s) (Rank req, Bankgroup req, Bank req))"; cases "cmd_type req")
      (auto simp: required_type_def split: if_splits)
qed

section \<open>Progress\<close>

text \<open>Bounds on all the delays of a configuration, as a check over its tables.\<close>

definition delays_within :: "Config \<Rightarrow> int \<Rightarrow> bool" where
  "delays_within c D \<longleftrightarrow> 0 \<le> tFAW c \<and> tFAW c \<le> D \<and> 0 \<le> t32AW c \<and> t32AW c \<le> D \<and>
     list_all (\<lambda>t.
       list_all (\<lambda>l. list_all (\<lambda>(_, d). 0 \<le> d \<and> d \<le> D) l)
         [tim_same_bank c t, tim_other_banks_same_bankgroup c t, tim_other_bankgroups_same_rank c t,
          tim_other_ranks c t, tim_same_rank c t])
       [READ, READ_PRECHARGE, WRITE, WRITE_PRECHARGE, ACTIVATE, PRECHARGE, REFRESH_BANK, REFRESH,
        SREF_ENTER, SREF_EXIT, SIZE_CMD]"

lemma delays_within_list:
  assumes "delays_within c D" and "(t, d) \<in> set (timing_list (mk_Timing c) cmd p)"
  shows "0 \<le> d \<and> d \<le> D"
proof -
  have "\<forall>l \<in> {tim_same_bank c u, tim_other_banks_same_bankgroup c u, tim_other_bankgroups_same_rank c u,
      tim_other_ranks c u, tim_same_rank c u}. \<forall>(_, d) \<in> set l. 0 \<le> d \<and> d \<le> D" for u
    using assms(1) unfolding delays_within_def by (cases u) (simp_all add: list_all_iff)
  from this [of "cmd_type cmd"] assms(2) show ?thesis
    by (cases p) (auto simp: timing_list_def split: if_splits)
qed

lemma add_delay_le:
  fixes clk :: u64
  assumes "uint clk \<le> T" and "0 \<le> d" and "d \<le> D" and "T + D < 2 ^ 64"
  shows "uint (clk + of_int d) \<le> T + D"
proof -
  have "uint (clk + of_int d) = uint clk + d"
    using assms by (intro uint_add_of_int) auto
  then show ?thesis using assms by simp
qed

lemma apply_timings_upper:
  assumes "uint (cmd_timing b t) \<le> M" and "\<forall>(u, d) \<in> set l. uint (clk + of_int d) \<le> M"
  shows "uint (cmd_timing (apply_timings l clk b) t) \<le> M"
  using assms
proof (induction l arbitrary: b)
  case (Cons p l)
  obtain u d where p: "p = (u, d)" by (cases p)
  have "uint (cmd_timing (bank_UpdateTiming b u (clk + of_int d)) t) \<le> M"
    using Cons.prems by (auto simp: p bank_UpdateTiming_def max_def)
  from Cons.IH [OF this] Cons.prems show ?case by (simp add: p)
qed simp

lemma issued_bank:
  assumes "issued c s cmd clk s'" and "bank_index c r j k"
  obtains b where "if touches cmd (r, j, k)
        then bank_UpdateState (at_bank (bank_states s) (r, j, k)) cmd = Inr b
        else b = at_bank (bank_states s) (r, j, k)"
    and "at_bank (bank_states s') (r, j, k) =
        apply_timings (timing_list (mk_Timing c) cmd (r, j, k)) clk b"
    and "cmd_timing b = cmd_timing (at_bank (bank_states s) (r, j, k))"
proof -
  obtain b where b: "if touches cmd (r, j, k)
        then bank_UpdateState (at_bank (bank_states s) (r, j, k)) cmd = Inr b
        else b = at_bank (bank_states s) (r, j, k)"
    "at_bank (bank_states s') (r, j, k) = apply_timings (timing_list (mk_Timing c) cmd (r, j, k)) clk b"
    using assms unfolding issued_def by blast
  moreover have "cmd_timing b = cmd_timing (at_bank (bank_states s) (r, j, k))"
    using b(1) by (auto dest: bank_UpdateState_timing split: if_splits)
  ultimately show ?thesis using that by blast
qed

text \<open>No bank is blocked longer than the largest delay after the last command.\<close>

lemma chan_trace_upper:
  assumes "chan_trace c tr s" and "geometry_ok c" and "delays_within c D" and "T + D < 2 ^ 64"
    and "0 \<le> T" and "\<forall>e \<in> set tr. uint (fst e) \<le> T" and "bank_index c r j k"
  shows "uint (cmd_timing (at_bank (bank_states s) (r, j, k)) t) \<le> T + D"
  using assms
proof induction
  case start
  then have "0 \<le> D" by (simp add: delays_within_def)
  with start show ?case by (simp add: at_bank_mk_ChannelState) (simp add: BankState0_def)
next
  case (issue tr s req clk cmd s')
  note st = issue_step [OF chan_trace_inv [OF issue.hyps(1) issue.prems(1)] issue.prems(1)
      issue.hyps(2,3,4,6)]
  obtain b where b: "at_bank (bank_states s') (r, j, k) =
        apply_timings (timing_list (mk_Timing c) cmd (r, j, k)) clk b"
    "cmd_timing b = cmd_timing (at_bank (bank_states s) (r, j, k))"
    using issued_bank [OF st(3) issue.prems(6)] by blast
  have "uint (cmd_timing b t) \<le> T + D"
    using issue b(2) by simp
  moreover have "\<forall>(u, d) \<in> set (timing_list (mk_Timing c) cmd (r, j, k)). uint (clk + of_int d) \<le> T + D"
    using issue.prems delays_within_list [OF issue.prems(2)] by (fastforce intro: add_delay_le)
  ultimately show ?case unfolding b(1) by (rule apply_timings_upper)
qed simp_all


lemma window_upper:
  assumes "window_inv N (of_int d) acts w" and "\<forall>t \<in> set acts. uint t \<le> T"
    and "0 \<le> d" and "d \<le> D" and "T + D < 2 ^ 64" and "x \<in> set w"
  shows "uint x \<le> T + D"
proof -
  obtain n where "w = map (\<lambda>t. t + of_int d) (drop n acts)"
    using assms(1) unfolding window_inv_def by blast
  with assms(6) obtain t where "t \<in> set acts" and "x = t + of_int d"
    using set_drop_subset by fastforce
  with assms show ?thesis by (auto intro: add_delay_le)
qed

lemma window_ready:
  assumes "\<forall>x \<in> set w. uint x \<le> uint clk"
  shows "\<not> (w \<noteq> [] \<and> clk < hd w \<and> n \<le> length w)"
  using assms by (cases w) (auto simp: word_less_alt)

lemma chan_trace_window_ready:
  assumes "chan_trace c tr s" and "geometry_ok c" and "delays_within c D" and "T + D < 2 ^ 64"
    and "\<forall>e \<in> set tr. uint (fst e) \<le> T" and "0 \<le> r" and "r < ranks c" and "T + D \<le> uint clk"
  shows "ActivationWindowOk c s r clk = Inr True"
proof -
  note win = chan_trace_windows [OF assms(1,2,6,7), unfolded windows_inv_def]
  have acts: "\<forall>t \<in> set (act_times r tr). uint t \<le> T"
    using assms(5) act_times_subset by fastforce
  have d: "0 \<le> tFAW c" "tFAW c \<le> D" "0 \<le> t32AW c" "t32AW c \<le> D"
    using assms(3) by (auto simp: delays_within_def)
  have "\<forall>x \<in> set (four_aw s ! nat r). uint x \<le> uint clk"
    using window_upper [OF conjunct1 [OF win] acts d(1,2) assms(4)] assms(8) by (meson order_trans)
  moreover have "IsGDDR c \<Longrightarrow> \<forall>x \<in> set (thirty_two_aw s ! nat r). uint x \<le> uint clk"
    using window_upper [OF mp [OF conjunct2 [OF win]] acts d(3,4) assms(4)] assms(8) by (meson order_trans)
  moreover have "length (four_aw s) = nat (ranks c)" "length (thirty_two_aw s) = nat (ranks c)"
    using chan_invD(1) [OF chan_trace_inv [OF assms(1,2)]] by (simp_all add: chan_shape_def)
  ultimately show ?thesis
    using assms(6,7) window_ready [of "four_aw s ! nat r" clk 4]
      window_ready [of "thirty_two_aw s ! nat r" clk 32]
    by (auto simp: ActivationWindowOk_def IsFAWReady_def Is32AWReady_def vec_at_def)
qed

text \<open>
  Once every delay has passed, a read or write request is answered by the next command
  the state of its bank calls for.
\<close>

lemma chan_progress:
  assumes tr: "chan_trace c tr s" and geo: "geometry_ok c" and D: "delays_within c D"
    and no: "T + D < 2 ^ 64" and T: "0 \<le> T" "\<forall>e \<in> set tr. uint (fst e) \<le> T"
    and clk: "T + D \<le> uint clk" and ok: "cmd_ok c req" and rw: "IsReadWrite req"
  shows "\<exists>t. required_type (at_bank (bank_states s) (Rank req, Bankgroup req, Bank req)) req = Inr t \<and>
    chan_GetReadyCommand c s req clk = Inr (mk_Command t (cmd_addr req) (hex_addr req))"
proof -
  let ?b = "at_bank (bank_states s) (Rank req, Bankgroup req, Bank req)"
  note inv = chan_trace_inv [OF tr geo]
  have nr: "\<not> IsRankCMD req" using rw by auto
  then have bi: "bank_index c (Rank req) (Bankgroup req) (Bank req)" using ok by (simp add: cmd_ok_def)
  have "bank_answers ?b req"
    using chan_answers_bank [OF inv _ bi] rw by (auto simp: chan_answers_def)
  then obtain t where t: "required_type ?b req = Inr t" using required_type_Inr by blast
  have "uint (cmd_timing ?b t) \<le> uint clk"
    using chan_trace_upper [OF tr geo D no T bi] clk by (rule order_trans)
  then have "cmd_timing ?b t \<le> clk" by (simp add: word_le_def)
  then have r: "bank_GetReadyCommand ?b req clk = Inr (mk_Command t (cmd_addr req) (hex_addr req))"
    using t required_type_cases(1) [OF t] by (simp add: bank_GetReadyCommand_def)
  have "ActivationWindowOk c s (Rank req) clk = Inr True"
    using chan_trace_window_ready [OF tr geo D no T(2) _ _ clk] bi by (simp add: bank_index_def)
  then show ?thesis
    using t r nr required_type_cases(1) [OF t]
    unfolding chan_GetReadyCommand_def get3_bank [OF chan_invD(2) [OF inv] bi] by auto
qed


text \<open>The command a read or write request needs next, read off the history alone.\<close>

definition next_type :: "(u64 \<times> Command) list \<Rightarrow> Command \<Rightarrow> CommandType" where
  "next_type tr req =
     (case row_history (Rank req, Bankgroup req, Bank req) tr of
        None \<Rightarrow> ACTIVATE
      | Some ro \<Rightarrow> if ro = Row req then cmd_type req else PRECHARGE)"

definition no_sref :: "(u64 \<times> Command) list \<Rightarrow> bool" where
  "no_sref tr \<longleftrightarrow> (\<forall>e \<in> set tr. cmd_type (snd e) \<noteq> SREF_ENTER)"

lemma chan_trace_no_sref:
  assumes "chan_trace c tr s" and "geometry_ok c" and "no_sref tr" and "bank_index c r j k"
  shows "bank_state (at_bank (bank_states s) (r, j, k)) \<noteq> SREF"
  using assms
proof induction
  case start
  then show ?case by (simp add: at_bank_mk_ChannelState) (simp add: BankState0_def)
next
  case (issue tr s req clk cmd s')
  note st = issue_step [OF chan_trace_inv [OF issue.hyps(1) issue.prems(1)] issue.prems(1)
      issue.hyps(2,3,4,6)]
  have "bank_state (at_bank (bank_states s) (r, j, k)) \<noteq> SREF" and "cmd_type cmd \<noteq> SREF_ENTER"
    using issue by (auto simp: no_sref_def)
  then show ?case
    using issued_bank [OF st(3) issue.prems(3)] bank_UpdateState_sref(1) apply_timings_frame(1)
    by metis
qed simp_all

lemma required_type_next:
  assumes "bank_inv b" and "bank_state b \<noteq> SREF" and "IsReadWrite req"
  shows "required_type b req = Inr (case bank_row b of None \<Rightarrow> ACTIVATE
      | Some ro \<Rightarrow> if ro = Row req then cmd_type req else PRECHARGE)"
  using assms
  by (cases "bank_state b"; cases "cmd_type req")
    (auto simp: bank_inv_def required_type_def bank_row_def)

lemma trace_serve:
  assumes tr: "chan_trace c tr s" and geo: "geometry_ok c" and D: "delays_within c D"
    and no: "T + D < 2 ^ 64" and T: "0 \<le> T" "\<forall>e \<in> set tr. uint (fst e) \<le> T"
    and clk: "T + D \<le> uint clk" and ok: "cmd_ok c req" and rw: "IsReadWrite req"
    and ns: "no_sref tr"
  shows "\<exists>s'. chan_GetReadyCommand c s req clk = Inr (mk_Command (next_type tr req) (cmd_addr req) (hex_addr req)) \<and>
    chan_trace c (tr @ [(clk, mk_Command (next_type tr req) (cmd_addr req) (hex_addr req))]) s'"
proof -
  let ?b = "at_bank (bank_states s) (Rank req, Bankgroup req, Bank req)"
  let ?cmd = "mk_Command (next_type tr req) (cmd_addr req) (hex_addr req)"
  note inv = chan_trace_inv [OF tr geo]
  have bi: "bank_index c (Rank req) (Bankgroup req) (Bank req)"
    using ok rw by (auto simp: cmd_ok_def)
  have req: "required_type ?b req = Inr (next_type tr req)"
    using required_type_next [OF chan_invD(3) [OF inv bi] chan_trace_no_sref [OF tr geo ns bi] rw]
      chan_trace_row [OF tr geo bi] by (simp add: next_type_def)
  then have g: "chan_GetReadyCommand c s req clk = Inr ?cmd"
    using chan_progress [OF tr geo D no T clk ok rw] by auto
  have v: "IsValid ?cmd" using required_type_cases(1) [OF req] by simp
  obtain s' where u: "UpdateTimingAndStates c (mk_Timing c) s ?cmd clk = Inr s'"
    using allowed_issue [OF inv chan_ready_allowed [OF inv geo ok g v]] by blast
  have "0 \<le> D" using D by (simp add: delays_within_def)
  then have "\<forall>e \<in> set tr. fst e \<le> clk" using T(2) clk by (fastforce simp: word_le_def)
  from chan_trace.issue [OF tr ok g v this u] g show ?thesis by blast
qed

text \<open>The history that results when requests arrive one by one, far enough apart.\<close>

fun serve :: "(u64 \<times> Command) list \<Rightarrow> (u64 \<times> Command) list \<Rightarrow> (u64 \<times> Command) list" where
  "serve tr [] = tr"
| "serve tr ((clk, req) # rs) =
     serve (tr @ [(clk, mk_Command (next_type tr req) (cmd_addr req) (hex_addr req))]) rs"

fun spaced :: "Config \<Rightarrow> int \<Rightarrow> int \<Rightarrow> (u64 \<times> Command) list \<Rightarrow> bool" where
  "spaced c D T [] = True"
| "spaced c D T ((clk, req) # rs) \<longleftrightarrow>
     T + D \<le> uint clk \<and> uint clk + D < 2 ^ 64 \<and> cmd_ok c req \<and> IsReadWrite req \<and> spaced c D (uint clk) rs"

lemma serve_trace:
  assumes "chan_trace c tr s" and "geometry_ok c" and "delays_within c D"
    and "0 \<le> T" and "\<forall>e \<in> set tr. uint (fst e) \<le> T" and "spaced c D T rs" and "no_sref tr"
    and "T + D < 2 ^ 64"
  shows "\<exists>s'. chan_trace c (serve tr rs) s'"
  using assms
proof (induction rs arbitrary: tr s T)
  case Nil
  then show ?case by auto
next
  case (Cons p rs)
  obtain clk req where p: "p = (clk, req)" by (cases p)
  let ?cmd = "mk_Command (next_type tr req) (cmd_addr req) (hex_addr req)"
  have rw: "IsReadWrite req" using Cons.prems(6) by (simp add: p)
  obtain s' where s': "chan_trace c (tr @ [(clk, ?cmd)]) s'"
    using trace_serve [OF Cons.prems(1-3,8,4,5)] Cons.prems(6,7) by (auto simp: p)
  have "next_type tr req \<noteq> SREF_ENTER"
    using rw by (auto simp: next_type_def split: option.splits)
  then have "no_sref (tr @ [(clk, ?cmd)])" using Cons.prems(7) by (simp add: no_sref_def)
  moreover have "0 \<le> D" using Cons.prems(3) by (simp add: delays_within_def)
  ultimately show ?case
    using Cons.IH [OF s' Cons.prems(2,3), of "uint clk"] Cons.prems(4,5,6) by (fastforce simp: p)
qed

section \<open>Properties of the channel\<close>

text \<open>
  A run of the emulator's memory: reads to five banks of rank 0 far apart, then the read of
  the first and of another row of the same bank.
\<close>

definition sample_requests :: "(u64 \<times> Command) list" where
  "sample_requests =
     map (\<lambda>(clk, bg, ba, ro). (clk, mk_Command READ (mk_Address 0 0 bg ba ro 3) 64))
       [(20000, 0, 0, 7), (40000, 0, 1, 7), (60000, 1, 0, 7), (80000, 2, 2, 7), (100000, 3, 3, 7),
        (120000, 0, 0, 7), (140000, 0, 0, 8)]"

definition sample_trace :: "(u64 \<times> Command) list" where
  "sample_trace =
     map (\<lambda>(clk, t, bg, ba, ro). (clk, mk_Command t (mk_Address 0 0 bg ba ro 3) 64))
       [(20000, ACTIVATE, 0, 0, 7), (40000, ACTIVATE, 0, 1, 7), (60000, ACTIVATE, 1, 0, 7),
        (80000, ACTIVATE, 2, 2, 7), (100000, ACTIVATE, 3, 3, 7), (120000, READ, 0, 0, 7),
        (140000, PRECHARGE, 0, 0, 8)]"

lemma ddr4_geometry: "geometry_ok ddr4_config"
  by code_simp

lemma ddr4_delays: "delays_within ddr4_config 12480"
  by code_simp

lemma sample_trace_run: "\<exists>s. chan_trace ddr4_config sample_trace s"
proof -
  have "serve [] sample_requests = sample_trace" and "spaced ddr4_config 12480 0 sample_requests"
    by code_simp+
  then show ?thesis
    using serve_trace [OF chan_trace.start ddr4_geometry ddr4_delays, of 0 sample_requests]
    by (simp add: no_sref_def)
qed

text \<open>
  C9: DRAM timing. In every history of a channel, for any two commands, the later one comes
  no earlier than the delay that the timing tables put between their types for the
  relative position of the banks they reach (same bank, same bank group, other bank
  group, other rank, whole rank), for every bank the later command reaches.
\<close>

theorem channel_timing_respected:
  assumes "chan_trace c tr s" and "geometry_ok c" and "n < length tr" and "m < n"
    and "bank_index c r j k" and "touches (snd (tr ! n)) (r, j, k)"
    and "(cmd_type (snd (tr ! n)), d) \<in> set (timing_list (mk_Timing c) (snd (tr ! m)) (r, j, k))"
    and "0 \<le> d" and "uint (fst (tr ! m)) + d < 2 ^ 64"
  shows "uint (fst (tr ! m)) + d \<le> uint (fst (tr ! n))"
proof -
  have "fst (tr ! m) + of_int d \<le> fst (tr ! n)"
    using chan_trace_timing_respected [OF assms(1,2)] assms(3-7) unfolding timing_respected_def by blast
  with uint_add_of_int [OF assms(8,9)] show ?thesis by (simp add: word_le_def)
qed

theorem channel_timing_respected_witness:
  "uint (fst (sample_trace ! 0)) + tRAS ddr4_config \<le> uint (fst (sample_trace ! 6))"
proof -
  obtain s where s: "chan_trace ddr4_config sample_trace s" using sample_trace_run by blast
  have h: "6 < length sample_trace" "(0 :: nat) < 6" "bank_index ddr4_config 0 0 0"
    "touches (snd (sample_trace ! 6)) (0, 0, 0)"
    "(cmd_type (snd (sample_trace ! 6)), tRAS ddr4_config) \<in>
       set (timing_list (mk_Timing ddr4_config) (snd (sample_trace ! 0)) (0, 0, 0))"
    "0 \<le> tRAS ddr4_config" "uint (fst (sample_trace ! 0)) + tRAS ddr4_config < 2 ^ 64"
    by code_simp+
  show ?thesis by (rule channel_timing_respected [OF s ddr4_geometry h])
qed

text \<open>
  C10: DRAM protocol. In every history of a channel a read or write reaches a bank whose open
  row is the row it names, a precharge reaches a bank with an open row, and activations,
  refreshes and self-refresh commands reach only banks without one, where the open row is
  the one the commands issued before leave in the bank.
\<close>

theorem channel_protocol_respected:
  assumes "chan_trace c tr s" and "geometry_ok c" and "n < length tr"
    and "bank_index c r j k" and "touches (snd (tr ! n)) (r, j, k)"
  shows "if IsReadWrite (snd (tr ! n)) then row_history (r, j, k) (take n tr) = Some (Row (snd (tr ! n)))
    else if cmd_type (snd (tr ! n)) = PRECHARGE then row_history (r, j, k) (take n tr) \<noteq> None
    else row_history (r, j, k) (take n tr) = None"
proof -
  have "let cmd = snd (tr ! n); ro = row_history (r, j, k) (take n tr)
      in if IsReadWrite cmd then ro = Some (Row cmd)
         else if cmd_type cmd = PRECHARGE then ro \<noteq> None else ro = None"
    using chan_trace_protocol_respected [OF assms(1,2)] assms(3-5) unfolding protocol_respected_def
    by blast
  then show ?thesis by (simp only: Let_def)
qed

theorem channel_protocol_respected_witness:
  "row_history (0, 0, 0) (take 5 sample_trace) = Some 7"
proof -
  obtain s where s: "chan_trace ddr4_config sample_trace s" using sample_trace_run by blast
  have h: "5 < length sample_trace" "bank_index ddr4_config 0 0 0"
    "touches (snd (sample_trace ! 5)) (0, 0, 0)" by code_simp+
  have "cmd_type (snd (sample_trace ! 5)) = READ" "Row (snd (sample_trace ! 5)) = 7" by code_simp+
  with channel_protocol_respected [OF s ddr4_geometry h] show ?thesis by simp
qed

text \<open>
  C11: Activation windows. No rank is activated five times within \<open>tFAW\<close> cycles, nor, on
  GDDR, thirty-three times within \<open>t32AW\<close> cycles.
\<close>

theorem channel_activation_windows:
  assumes "chan_trace c tr s" and "geometry_ok c" and "0 \<le> r" and "r < ranks c"
    and "N = 4 \<and> d = tFAW c \<or> IsGDDR c \<and> N = 32 \<and> d = t32AW c"
    and "i + N < length (act_times r tr)"
    and "0 \<le> d" and "uint (act_times r tr ! i) + d < 2 ^ 64"
  shows "uint (act_times r tr ! i) + d \<le> uint (act_times r tr ! (i + N))"
proof -
  have "act_times r tr ! i + of_int d \<le> act_times r tr ! (i + N)"
    using chan_trace_windows [OF assms(1-4)] assms(5,6)
    by (auto simp: windows_inv_def window_inv_def)
  with uint_add_of_int [OF assms(7,8)] show ?thesis by (simp add: word_le_def)
qed

theorem channel_activation_windows_witness:
  "uint (act_times 0 sample_trace ! 0) + 34 \<le> uint (act_times 0 sample_trace ! (0 + 4))"
proof -
  obtain s where s: "chan_trace ddr4_config sample_trace s" using sample_trace_run by blast
  have h: "0 \<le> (0 :: int)" "0 < ranks ddr4_config"
    "4 = (4 :: nat) \<and> 34 = tFAW ddr4_config \<or> IsGDDR ddr4_config \<and> 4 = (32 :: nat) \<and> 34 = t32AW ddr4_config"
    "0 + 4 < length (act_times 0 sample_trace)" "0 \<le> (34 :: int)"
    "uint (act_times 0 sample_trace ! 0) + 34 < 2 ^ 64"
    by code_simp+
  show ?thesis by (rule channel_activation_windows [OF s ddr4_geometry h])
qed

text \<open>
  C12: Progress. When all delays of the configuration have passed since the last command of a
  history without self refresh, \<open>GetReadyCommand\<close> answers any read or write request, and
  with the command that brings it closer: an activation if the bank is closed, a precharge
  if another row is open, the access itself if its row is open.
\<close>

theorem channel_progress:
  assumes "chan_trace c tr s" and "geometry_ok c" and "delays_within c D" and "T + D < 2 ^ 64"
    and "0 \<le> T" and "\<forall>e \<in> set tr. uint (fst e) \<le> T" and "T + D \<le> uint clk"
    and "cmd_ok c req" and "IsReadWrite req" and "no_sref tr"
  shows "chan_GetReadyCommand c s req clk =
    Inr (mk_Command
      (case row_history (Rank req, Bankgroup req, Bank req) tr of
         None \<Rightarrow> ACTIVATE
       | Some ro \<Rightarrow> if ro = Row req then cmd_type req else PRECHARGE)
      (cmd_addr req) (hex_addr req))"
  using trace_serve [OF assms] by (auto simp: next_type_def)

theorem channel_progress_witness:
  "\<exists>s. chan_trace ddr4_config sample_trace s \<and>
     chan_GetReadyCommand ddr4_config s (mk_Command WRITE (mk_Address 0 0 0 1 7 5) 128) 160000 =
       Inr (mk_Command WRITE (mk_Address 0 0 0 1 7 5) 128)"
proof -
  let ?req = "mk_Command WRITE (mk_Address 0 0 0 1 7 5) 128"
  obtain s where s: "chan_trace ddr4_config sample_trace s" using sample_trace_run by blast
  have h: "(140000 :: int) + 12480 < 2 ^ 64" "0 \<le> (140000 :: int)"
    "\<forall>e \<in> set sample_trace. uint (fst e) \<le> 140000" "140000 + 12480 \<le> uint (160000 :: u64)"
    "cmd_ok ddr4_config ?req" "IsReadWrite ?req" "no_sref sample_trace"
    by code_simp+
  have "row_history (Rank ?req, Bankgroup ?req, Bank ?req) sample_trace = Some 7" by code_simp
  with channel_progress [OF s ddr4_geometry ddr4_delays h] s show ?thesis by auto
qed

text \<open>
  C13: A ready command can be issued. Whatever \<open>GetReadyCommand\<close> answers in a consistent
  channel, \<open>UpdateTimingAndStates\<close> performs without reaching an \<open>AbruptExit\<close> or an index
  outside a vector, and the channel is consistent afterwards.
\<close>

theorem channel_ready_issues:
  assumes "chan_inv c s" and "geometry_ok c" and "cmd_ok c req"
    and "chan_GetReadyCommand c s req clk = Inr cmd" and "IsValid cmd"
  shows "\<exists>s'. UpdateTimingAndStates c (mk_Timing c) s cmd clk = Inr s' \<and> chan_inv c s'"
  using allowed_issue [OF assms(1) chan_ready_allowed [OF assms]] by blast

theorem channel_ready_issues_witness:
  "\<exists>s'. UpdateTimingAndStates ddr4_config (mk_Timing ddr4_config) (mk_ChannelState ddr4_config)
     (mk_Command ACTIVATE (mk_Address 0 1 2 3 9 0) 64) 5 = Inr s' \<and> chan_inv ddr4_config s'"
proof -
  let ?req = "mk_Command READ (mk_Address 0 1 2 3 9 0) 64"
  let ?cmd = "mk_Command ACTIVATE (mk_Address 0 1 2 3 9 0) 64"
  have h: "cmd_ok ddr4_config ?req"
    "chan_GetReadyCommand ddr4_config (mk_ChannelState ddr4_config) ?req 5 = Inr ?cmd" "IsValid ?cmd"
    by code_simp+
  show ?thesis by (rule channel_ready_issues [OF chan_inv_mk_ChannelState ddr4_geometry h])
qed

text \<open>
  C17: The loops of \<open>UpdateTiming\<close> over ranks, bank groups and banks are equivalent to the
  reference that gives each bank, once, the delays of its position relative to the
  command, and touches no other part of the bank.
\<close>

theorem channel_update_timing_pointwise:
  assumes "chan_shape c s" and "cmd_ok c cmd"
  shows "\<exists>s'. chan_UpdateTiming c tm s cmd clk = Inr s' \<and> chan_shape c s' \<and>
    (\<forall>r j k. bank_index c r j k \<longrightarrow>
       at_bank (bank_states s') (r, j, k) =
         apply_timings (timing_list tm cmd (r, j, k)) clk (at_bank (bank_states s) (r, j, k)))"
proof -
  obtain g u where "all_timed c tm cmd clk (bank_states s) g"
    and "chan_UpdateTiming c tm s cmd clk = Inr u" and "bank_states u = g" and "chan_shape c u"
    using chan_UpdateTiming_spec [OF assms, of tm clk] assms(1)
    by (fastforce simp: chan_shape_def all_timed_def)
  then show ?thesis by (auto simp: all_timed_def)
qed

theorem channel_update_timing_pointwise_witness:
  "\<exists>s'. chan_UpdateTiming ddr4_config (mk_Timing ddr4_config) (mk_ChannelState ddr4_config)
       (mk_Command WRITE (mk_Address 0 1 2 3 9 0) 64) 5 = Inr s' \<and>
     at_bank (bank_states s') (0, 1, 1) =
       apply_timings [(READ, 1), (WRITE, 4), (READ_PRECHARGE, 1), (WRITE_PRECHARGE, 4)] 5 BankState0"
proof -
  let ?cmd = "mk_Command WRITE (mk_Address 0 1 2 3 9 0) 64"
  have h: "cmd_ok ddr4_config ?cmd" and b: "bank_index ddr4_config 0 1 1" by code_simp+
  have t: "timing_list (mk_Timing ddr4_config) ?cmd (0, 1, 1) =
      [(READ, 1), (WRITE, 4), (READ_PRECHARGE, 1), (WRITE_PRECHARGE, 4)]" by code_simp
  show ?thesis
    using channel_update_timing_pointwise [OF chan_invD(1) [OF chan_inv_mk_ChannelState] h] b t
      at_bank_mk_ChannelState [OF b] by metis
qed

text \<open>
  C21: A bank refresh does not block the bank it refreshes: issuing \<open>REFRESH_BANK\<close> leaves all
  the clock constraints of that bank as they were. The constructor of \<open>Timing\<close> files the
  delay \<open>tRFCb\<close> under \<open>same_rank\<close>, which \<open>UpdateTiming\<close> does not read for this command.
\<close>

theorem refresh_bank_leaves_bank_unconstrained:
  assumes "chan_inv c s" and "allowed c s cmd clk" and "cmd_type cmd = REFRESH_BANK"
    and "UpdateTimingAndStates c (mk_Timing c) s cmd clk = Inr s'"
  shows "cmd_timing (at_bank (bank_states s') (Rank cmd, Bankgroup cmd, Bank cmd)) =
    cmd_timing (at_bank (bank_states s) (Rank cmd, Bankgroup cmd, Bank cmd))"
proof -
  have bi: "bank_index c (Rank cmd) (Bankgroup cmd) (Bank cmd)"
    using assms(2,3) by (simp add: allowed_def cmd_ok_def)
  have "issued c s cmd clk s'" using allowed_issue [OF assms(1,2)] assms(4) by auto
  from issued_bank [OF this bi] assms(3) show ?thesis
    by (auto simp: timing_list_def tim_same_bank_def)
qed

theorem refresh_bank_leaves_bank_unconstrained_witness:
  "\<exists>s'. UpdateTimingAndStates ddr4_config (mk_Timing ddr4_config) (mk_ChannelState ddr4_config)
       (mk_Command REFRESH_BANK (mk_Address (-1) 1 2 3 (-1) (-1)) 0) 5 = Inr s' \<and>
     cmd_timing (at_bank (bank_states s') (1, 2, 3)) ACTIVATE = 0"
proof -
  let ?c = "mk_Command REFRESH_BANK (mk_Address (-1) 1 2 3 (-1) (-1)) 0"
  have ok: "cmd_ok ddr4_config ?c" and b: "bank_index ddr4_config 1 2 3"
    and g: "chan_GetReadyCommand ddr4_config (mk_ChannelState ddr4_config) ?c 5 = Inr ?c"
    and v: "IsValid ?c" by code_simp+
  note inv = chan_inv_mk_ChannelState [of ddr4_config]
  have al: "allowed ddr4_config (mk_ChannelState ddr4_config) ?c 5"
    by (rule chan_ready_allowed [OF inv ddr4_geometry ok g v])
  then obtain s' where s': "UpdateTimingAndStates ddr4_config (mk_Timing ddr4_config)
      (mk_ChannelState ddr4_config) ?c 5 = Inr s'"
    using allowed_issue [OF inv] by blast
  from refresh_bank_leaves_bank_unconstrained [OF inv al _ s'] s' show ?thesis
    using at_bank_mk_ChannelState [OF b] by (simp add: BankState0_def)
qed

end
