(* ===== verification/Refresh.thy ===== *)
theory Refresh
  imports Channel_Trace
begin

text \<open>
  \<open>DRAMSIM3/src/refresh.h\<close> and \<open>refresh.cc\<close>: the generator of refresh requests. Every
  \<open>refresh_interval_\<close> cycles it queues a refresh of the next rank or bank in the channel
  state, which it holds by reference and which is an argument and result here.
\<close>

section \<open>The generator\<close>

record Refresh =
  ref_clk :: u64
  refresh_interval :: int
  ref_policy :: RefreshPolicy
  next_rank :: int
  next_bg :: int
  next_bank :: int

definition mk_Refresh :: "Config \<Rightarrow> Refresh result" where
  "mk_Refresh c =
     bindR (case refresh_policy c of
        RANK_LEVEL_SIMULTANEOUS \<Rightarrow> Inr (tREFI c)
      | BANK_LEVEL_STAGGERED \<Rightarrow> Inr (tREFIb c)
      | _ \<Rightarrow> div_int (tREFI c) (ranks c)) (\<lambda>interval.
     Inr \<lparr>ref_clk = 0, refresh_interval = interval, ref_policy = refresh_policy c,
          next_rank = 0, next_bg = 0, next_bank = 0\<rparr>)"

text \<open>C++ remainder of non-negative \<open>int\<close> values; a zero divisor is a failure.\<close>

definition rem_int :: "int \<Rightarrow> int \<Rightarrow> int result" where
  "rem_int a b = (if b = 0 then Inl DivByZero else Inr (a - c_div a b * b))"

definition IterateNext :: "Config \<Rightarrow> Refresh \<Rightarrow> Refresh result" where
  "IterateNext c rf =
     (case ref_policy rf of
        RANK_LEVEL_STAGGERED \<Rightarrow>
          bindR (rem_int (next_rank rf + 1) (ranks c)) (\<lambda>r. Inr (rf\<lparr>next_rank := r\<rparr>))
      | BANK_LEVEL_STAGGERED \<Rightarrow>
          bindR (rem_int (next_bg rf + 1) (bankgroups c)) (\<lambda>bg.
            if bg = 0 then
              bindR (rem_int (next_bank rf + 1) (banks_per_group c)) (\<lambda>ba.
                if ba = 0 then
                  bindR (rem_int (next_rank rf + 1) (ranks c)) (\<lambda>r.
                    Inr (rf\<lparr>next_bg := bg, next_bank := ba, next_rank := r\<rparr>))
                else Inr (rf\<lparr>next_bg := bg, next_bank := ba\<rparr>))
            else Inr (rf\<lparr>next_bg := bg\<rparr>))
      | _ \<Rightarrow> Inl (AbruptExit ''refresh.cc'' 79))"

text \<open>The loop over the ranks stops after the first rank it queues a refresh for.\<close>

fun simultaneous_loop :: "ChannelState \<Rightarrow> int list \<Rightarrow> ChannelState result" where
  "simultaneous_loop s [] = Inr s"
| "simultaneous_loop s (i # is) =
     bindR (IsRankSelfRefreshing s i) (\<lambda>sref.
       if \<not> sref then Inr (RankNeedRefresh s i True) else simultaneous_loop s is)"

definition InsertRefresh ::
  "Config \<Rightarrow> Refresh \<Rightarrow> ChannelState \<Rightarrow> (Refresh \<times> ChannelState) result" where
  "InsertRefresh c rf s =
     (case ref_policy rf of
        RANK_LEVEL_SIMULTANEOUS \<Rightarrow>
          bindR (simultaneous_loop s [0 .. ranks c - 1]) (\<lambda>s1. Inr (rf, s1))
      | RANK_LEVEL_STAGGERED \<Rightarrow>
          bindR (IsRankSelfRefreshing s (next_rank rf)) (\<lambda>sref.
            let s1 = (if \<not> sref then RankNeedRefresh s (next_rank rf) True else s)
            in bindR (IterateNext c rf) (\<lambda>rf1. Inr (rf1, s1)))
      | BANK_LEVEL_STAGGERED \<Rightarrow>
          bindR (IsRankSelfRefreshing s (next_rank rf)) (\<lambda>sref.
            let s1 = (if \<not> sref
                      then BankNeedRefresh s (next_rank rf) (next_bg rf) (next_bank rf) True else s)
            in bindR (IterateNext c rf) (\<lambda>rf1. Inr (rf1, s1)))
      | SIZE_POLICY \<Rightarrow> Inl (AbruptExit ''refresh.cc'' 56))"

text \<open>
  \<open>clk_ % refresh_interval_\<close> is computed in \<open>uint64_t\<close>, to which the interval is converted.
\<close>

definition ref_ClockTick ::
  "Config \<Rightarrow> Refresh \<Rightarrow> ChannelState \<Rightarrow> (Refresh \<times> ChannelState) result" where
  "ref_ClockTick c rf s =
     (let interval = (of_int (refresh_interval rf) :: u64)
      in if interval = 0 then Inl DivByZero
         else
           bindR (if ref_clk rf mod interval = 0 \<and> ref_clk rf > 0 then InsertRefresh c rf s
                  else Inr (rf, s)) (\<lambda>(rf1, s1).
             Inr (rf1\<lparr>ref_clk := ref_clk rf1 + 1\<rparr>, s1)))"

section \<open>The order of refreshes\<close>

text \<open>The \<open>n\<close>-th refresh request of each staggered policy, in closed form.\<close>

definition nth_refresh :: "Config \<Rightarrow> RefreshPolicy \<Rightarrow> nat \<Rightarrow> int \<times> int \<times> int" where
  "nth_refresh c pol n =
     (case pol of
        BANK_LEVEL_STAGGERED \<Rightarrow>
          (int (n div nat (bankgroups c) div nat (banks_per_group c) mod nat (ranks c)),
           int (n mod nat (bankgroups c)),
           int (n div nat (bankgroups c) mod nat (banks_per_group c)))
      | RANK_LEVEL_STAGGERED \<Rightarrow> (int (n mod nat (ranks c)), 0, 0)
      | _ \<Rightarrow> (0, 0, 0))"

definition ref_at :: "Config \<Rightarrow> nat \<Rightarrow> Refresh \<Rightarrow> bool" where
  "ref_at c n rf \<longleftrightarrow> (next_rank rf, next_bg rf, next_bank rf) = nth_refresh c (ref_policy rf) n"

lemma rem_int_nat: "0 < b \<Longrightarrow> rem_int (int a) b = Inr (int (a mod nat b))"
  by (simp add: rem_int_def c_div_nonneg minus_div_mult_eq_mod nat_mod_distrib zmod_int)

lemma next_mod: "(a mod b + 1) mod b = (a + 1) mod (b :: nat)"
  by (simp add: mod_simps)

lemma nth_refresh_range:
  assumes "geometry_ok c" and "nth_refresh c pol n = (r, j, k)"
  shows "bank_index c r j k"
proof -
  have "int (m mod nat b) < b" if "1 \<le> b" for m b
  proof -
    have "m mod nat b < nat b" using that by (intro mod_less_divisor) simp
    then show ?thesis by (simp only: zless_nat_eq_int_zless)
  qed
  with assms show ?thesis
    by (auto simp: nth_refresh_def bank_index_def geometry_ok_def split: RefreshPolicy.splits)
qed

lemma IterateNext_nth:
  assumes "geometry_ok c" and "ref_at c n rf"
    and "ref_policy rf \<in> {RANK_LEVEL_STAGGERED, BANK_LEVEL_STAGGERED}"
  shows "\<exists>rf'. IterateNext c rf = Inr rf' \<and> ref_at c (Suc n) rf' \<and> ref_policy rf' = ref_policy rf \<and>
    ref_clk rf' = ref_clk rf \<and> refresh_interval rf' = refresh_interval rf"
proof (cases "ref_policy rf = RANK_LEVEL_STAGGERED")
  case True
  with assms have "next_rank rf = int (n mod nat (ranks c))" and "next_bg rf = 0" and "next_bank rf = 0"
    by (auto simp: ref_at_def nth_refresh_def)
  then have "rem_int (next_rank rf + 1) (ranks c) = Inr (int (Suc n mod nat (ranks c)))"
    using rem_int_nat [of "ranks c" "n mod nat (ranks c) + 1"] next_mod [of n "nat (ranks c)"] assms(1)
    by (simp add: geometry_ok_def add.commute)
  with True \<open>next_bg rf = 0\<close> \<open>next_bank rf = 0\<close> show ?thesis
    by (simp add: IterateNext_def ref_at_def nth_refresh_def)
next
  case False
  then have pol: "ref_policy rf = BANK_LEVEL_STAGGERED" using assms(3) by simp
  let ?B = "nat (bankgroups c)" and ?K = "nat (banks_per_group c)" and ?R = "nat (ranks c)"
  have p: "next_rank rf = int (n div ?B div ?K mod ?R)" "next_bg rf = int (n mod ?B)"
    "next_bank rf = int (n div ?B mod ?K)"
    using assms(2) pol by (auto simp: ref_at_def nth_refresh_def)
  have r: "rem_int (int (m mod nat b) + 1) b = Inr (int ((m + 1) mod nat b))" if "1 \<le> b" for m b
    using rem_int_nat [of b "m mod nat b + 1"] next_mod [of m "nat b"] that by (simp add: add.commute)
  have g: "1 \<le> bankgroups c" "1 \<le> banks_per_group c" "1 \<le> ranks c"
    using assms(1) by (auto simp: geometry_ok_def)
  note it = IterateNext_def [of c rf, unfolded pol p r [OF g(1), of n] r [OF g(2), of "n div ?B"]
      r [OF g(3), of "n div ?B div ?K"] RefreshPolicy.case bindR_Inr]
  have d1: "Suc n div ?B = (if Suc n mod ?B = 0 then Suc (n div ?B) else n div ?B)" by (rule div_Suc)
  have d2: "Suc (n div ?B) div ?K =
      (if Suc (n div ?B) mod ?K = 0 then Suc (n div ?B div ?K) else n div ?B div ?K)" by (rule div_Suc)
  consider "Suc n mod ?B \<noteq> 0" | "Suc n mod ?B = 0" "Suc (n div ?B) mod ?K \<noteq> 0"
    | "Suc n mod ?B = 0" "Suc (n div ?B) mod ?K = 0" by blast
  then show ?thesis
  proof cases
    case 1
    then show ?thesis using it d1 p pol by (simp add: ref_at_def nth_refresh_def)
  next
    case 2
    then show ?thesis using it d1 d2 p pol by (simp add: ref_at_def nth_refresh_def)
  next
    case 3
    have e: "Suc n div ?B = Suc (n div ?B)" "Suc (n div ?B) div ?K = Suc (n div ?B div ?K)"
      using 3 by (simp_all only: d1 d2 simp_thms if_True)
    have "nth_refresh c BANK_LEVEL_STAGGERED (Suc n) = (int (Suc (n div ?B div ?K) mod ?R), 0, 0)"
      unfolding nth_refresh_def RefreshPolicy.case e 3 by simp
    moreover have "IterateNext c rf = Inr (rf\<lparr>next_bg := 0, next_bank := 0,
        next_rank := int (Suc (n div ?B div ?K) mod ?R)\<rparr>)"
      using it 3 by (simp add: Suc_eq_plus1 [symmetric] del: Suc_eq_plus1)
    ultimately show ?thesis using pol by (simp add: ref_at_def)
  qed
qed

lemma nth_refresh_cover:
  assumes "geometry_ok c" and "bank_index c r j k"
  shows "\<exists>n. int n < ranks c * banks c \<and> nth_refresh c BANK_LEVEL_STAGGERED n = (r, j, k)"
proof -
  let ?B = "nat (bankgroups c)" and ?K = "nat (banks_per_group c)"
  let ?n = "nat j + ?B * (nat k + ?K * nat r)"
  have g: "nat j < ?B" "nat k < ?K" "nat r < nat (ranks c)" using assms(2) by (auto simp: bank_index_def)
  have "?n mod ?B = nat j" "?n div ?B = nat k + ?K * nat r"
    using g(1) by simp_all
  moreover have "(nat k + ?K * nat r) mod ?K = nat k" "(nat k + ?K * nat r) div ?K = nat r"
    using g(2) by simp_all
  moreover have "int ?n < ranks c * banks c"
  proof -
    have "nat k + ?K * nat r + 1 \<le> ?K * (nat r + 1)"
      unfolding distrib_left mult_1_right using g(2) by linarith
    also have "\<dots> \<le> ?K * nat (ranks c)" using g(3) by (intro mult_le_mono) auto
    finally have "?B * (nat k + ?K * nat r) + ?B \<le> ?B * (?K * nat (ranks c))"
      by (metis distrib_left mult.right_neutral mult_le_mono2)
    then have "?n < ?B * (?K * nat (ranks c))" using g(1) by linarith
    then have "int ?n < int (?B * (?K * nat (ranks c)))" by (simp only: of_nat_less_iff)
    then show ?thesis using assms(1) by (simp add: geometry_ok_def algebra_simps)
  qed
  ultimately show ?thesis
    using g assms(2) by (intro exI [of _ ?n]) (simp add: nth_refresh_def bank_index_def)
qed

section \<open>One insertion\<close>

definition refresh_of :: "Config \<Rightarrow> RefreshPolicy \<Rightarrow> nat \<Rightarrow> Command" where
  "refresh_of c pol n =
     (case nth_refresh c pol n of (r, j, k) \<Rightarrow>
        if pol = BANK_LEVEL_STAGGERED
        then mk_Command REFRESH_BANK (mk_Address (-1) r j k (-1) (-1)) (-1)
        else mk_Command REFRESH (mk_Address (-1) r (-1) (-1) (-1) (-1)) (-1))"

definition ref_inv :: "Config \<Rightarrow> Refresh \<Rightarrow> bool" where
  "ref_inv c rf \<longleftrightarrow> 0 < refresh_interval rf \<and> refresh_interval rf < 2 ^ 64 \<and>
     ref_policy rf \<noteq> SIZE_POLICY \<and> (\<exists>n. ref_at c n rf)"

text \<open>What one tick may do to the channel: nothing, or queue one refresh.\<close>

definition queues_refresh :: "Config \<Rightarrow> ChannelState \<Rightarrow> ChannelState \<Rightarrow> bool" where
  "queues_refresh c s s' \<longleftrightarrow> s' = s \<or>
     (\<exists>r. 0 \<le> r \<and> r < ranks c \<and> s' = RankNeedRefresh s r True) \<or>
     (\<exists>r j k. bank_index c r j k \<and> s' = BankNeedRefresh s r j k True)"

lemma queues_refresh_inv: "queues_refresh c s s' \<Longrightarrow> chan_inv c s \<Longrightarrow> chan_inv c s'"
  by (auto simp: queues_refresh_def intro: RankNeedRefresh_inv BankNeedRefresh_inv)

lemma queues_refresh_trace: "queues_refresh c s s' \<Longrightarrow> chan_trace c tr s \<Longrightarrow> chan_trace c tr s'"
  by (auto simp: queues_refresh_def intro: chan_trace.intros)

lemma IsRankSelfRefreshing_eq:
  "chan_shape c s \<Longrightarrow> 0 \<le> r \<Longrightarrow> r < ranks c \<Longrightarrow> IsRankSelfRefreshing s r = Inr (rank_is_sref s ! nat r)"
  by (simp add: IsRankSelfRefreshing_def vec_at_def chan_shape_def)

lemma simultaneous_loop_total:
  assumes "chan_shape c s" and "\<forall>r \<in> set rs. 0 \<le> r \<and> r < ranks c"
  shows "\<exists>s'. simultaneous_loop s rs = Inr s' \<and> queues_refresh c s s'"
  using assms(2)
proof (induction rs)
  case Nil
  then show ?case by (simp add: queues_refresh_def)
next
  case (Cons r rs)
  then have "IsRankSelfRefreshing s r = Inr (rank_is_sref s ! nat r)"
    by (simp add: IsRankSelfRefreshing_eq [OF assms(1)])
  then show ?case using Cons by (auto simp: queues_refresh_def)
qed

lemma ref_at_rank:
  assumes "geometry_ok c" and "ref_at c n rf"
  shows "bank_index c (next_rank rf) (next_bg rf) (next_bank rf)"
    and "0 \<le> next_rank rf" and "next_rank rf < ranks c"
proof -
  show "bank_index c (next_rank rf) (next_bg rf) (next_bank rf)"
    using nth_refresh_range [OF assms(1)] assms(2) unfolding ref_at_def by metis
  then show "0 \<le> next_rank rf" and "next_rank rf < ranks c" by (auto simp: bank_index_def)
qed

lemma InsertRefresh_total:
  assumes "geometry_ok c" and "ref_at c n rf" and "ref_policy rf \<noteq> SIZE_POLICY" and "chan_shape c s"
  shows "\<exists>rf' s'. InsertRefresh c rf s = Inr (rf', s') \<and> queues_refresh c s s' \<and> ref_at c (Suc n) rf' \<and>
    ref_policy rf' = ref_policy rf \<and> ref_clk rf' = ref_clk rf \<and>
    refresh_interval rf' = refresh_interval rf"
proof (cases "ref_policy rf = RANK_LEVEL_SIMULTANEOUS")
  case True
  obtain s' where "simultaneous_loop s [0 .. ranks c - 1] = Inr s'" "queues_refresh c s s'"
    using simultaneous_loop_total [OF assms(4), of "[0 .. ranks c - 1]"] by auto
  moreover have "ref_at c (Suc n) rf" using assms(2) True by (simp add: ref_at_def nth_refresh_def)
  ultimately show ?thesis using True by (simp add: InsertRefresh_def)
next
  case False
  then have pol: "ref_policy rf \<in> {RANK_LEVEL_STAGGERED, BANK_LEVEL_STAGGERED}"
    using assms(3) by (cases "ref_policy rf") auto
  obtain rf' where it: "IterateNext c rf = Inr rf'" "ref_at c (Suc n) rf'" "ref_policy rf' = ref_policy rf"
      "ref_clk rf' = ref_clk rf" "refresh_interval rf' = refresh_interval rf"
    using IterateNext_nth [OF assms(1,2) pol] by blast
  note r = ref_at_rank [OF assms(1,2)]
  have sr: "IsRankSelfRefreshing s (next_rank rf) = Inr (rank_is_sref s ! nat (next_rank rf))"
    using IsRankSelfRefreshing_eq [OF assms(4) r(2,3)] .
  show ?thesis
  proof (cases "ref_policy rf = RANK_LEVEL_STAGGERED")
    case True
    with it sr r show ?thesis by (auto simp: InsertRefresh_def queues_refresh_def)
  next
    case False
    with pol have "ref_policy rf = BANK_LEVEL_STAGGERED" by simp
    with it sr r show ?thesis by (auto simp: InsertRefresh_def queues_refresh_def)
  qed
qed

lemma of_int_interval: "0 < i \<Longrightarrow> i < 2 ^ 64 \<Longrightarrow> (of_int i :: u64) \<noteq> 0 \<and> uint (of_int i :: u64) = i"
  by (auto simp: uint_word_of_int word_of_int_eq_0_iff take_bit_eq_mod dest: zdvd_imp_le)

lemma ref_ClockTick_total:
  assumes "geometry_ok c" and "ref_inv c rf" and "chan_shape c s"
  shows "\<exists>rf' s'. ref_ClockTick c rf s = Inr (rf', s') \<and> queues_refresh c s s' \<and> ref_inv c rf'"
proof -
  obtain n where n: "ref_at c n rf" and p: "ref_policy rf \<noteq> SIZE_POLICY"
    and i: "0 < refresh_interval rf" "refresh_interval rf < 2 ^ 64"
    using assms(2) by (auto simp: ref_inv_def)
  obtain rf' s' where ins: "InsertRefresh c rf s = Inr (rf', s')" "queues_refresh c s s'"
      "ref_at c (Suc n) rf'" "ref_policy rf' = ref_policy rf"
      "refresh_interval rf' = refresh_interval rf"
    using InsertRefresh_total [OF assms(1) n p assms(3)] by blast
  have inv: "ref_inv c (x\<lparr>ref_clk := k\<rparr>) = ref_inv c x" for x k
    by (simp add: ref_inv_def ref_at_def)
  have "ref_inv c rf'" using ins i p by (auto simp: ref_inv_def)
  moreover have "queues_refresh c s s" by (simp add: queues_refresh_def)
  ultimately show ?thesis
    using ins(1,2) of_int_interval [OF i] assms(2) by (auto simp: ref_ClockTick_def Let_def inv)
qed

lemma ref_inv_mk_Refresh:
  assumes "mk_Refresh c = Inr rf" and "0 < refresh_interval rf" and "refresh_interval rf < 2 ^ 64"
    and "refresh_policy c \<noteq> SIZE_POLICY"
  shows "ref_inv c rf" and "ref_at c 0 rf" and "ref_policy rf = refresh_policy c" and "ref_clk rf = 0"
proof -
  show "ref_policy rf = refresh_policy c" "ref_at c 0 rf" "ref_clk rf = 0"
    using assms(1) by (auto simp: mk_Refresh_def ref_at_def nth_refresh_def bindR_def
        split: RefreshPolicy.splits sum.splits)
  with assms show "ref_inv c rf" by (auto simp: ref_inv_def)
qed

section \<open>The schedule\<close>

fun ref_ticks :: "Config \<Rightarrow> nat \<Rightarrow> Refresh \<Rightarrow> ChannelState \<Rightarrow> (Refresh \<times> ChannelState) result" where
  "ref_ticks c 0 rf s = Inr (rf, s)"
| "ref_ticks c (Suc n) rf s = bindR (ref_ticks c n rf s) (\<lambda>(rf1, s1). ref_ClockTick c rf1 s1)"

lemma InsertRefresh_queue:
  assumes "geometry_ok c" and "ref_at c n rf" and "ref_policy rf \<noteq> SIZE_POLICY" and "chan_shape c s"
    and "\<forall>b \<in> set (rank_is_sref s). \<not> b" and "InsertRefresh c rf s = Inr (rf', s')"
  shows "s' = s\<lparr>refresh_q := refresh_q s @ [refresh_of c (ref_policy rf) n]\<rparr>"
proof -
  have nosref: "IsRankSelfRefreshing s r = Inr False" if "0 \<le> r" "r < ranks c" for r
    using that assms(4,5) by (auto simp: IsRankSelfRefreshing_eq chan_shape_def)
  note r = ref_at_rank [OF assms(1,2)]
  have up: "[0 .. ranks c - 1] = 0 # [1 .. ranks c - 1]"
    using assms(1) by (subst upto_rec1) (auto simp: geometry_ok_def)
  have "0 < ranks c" using assms(1) by (simp add: geometry_ok_def)
  then show ?thesis
    using assms(2,3,6) nosref [OF r(2,3)] nosref [of 0]
    by (cases "ref_policy rf")
      (auto simp: InsertRefresh_def up refresh_of_def ref_at_def nth_refresh_def RankNeedRefresh_def
        BankNeedRefresh_def bindR_def split: sum.splits)
qed

lemma count_multiples:
  "0 < (i :: nat) \<Longrightarrow> n div i = (n - 1) div i + (if n mod i = 0 \<and> 0 < n then 1 else 0)"
  by (cases n) (auto simp: div_Suc)

lemma ref_ticks_queue:
  assumes "geometry_ok c" and "ref_inv c rf" and "ref_at c 0 rf" and "ref_clk rf = 0"
    and "chan_shape c s" and "\<forall>b \<in> set (rank_is_sref s). \<not> b" and "n < 2 ^ 64"
  shows "\<exists>rf'. ref_ticks c n rf s =
      Inr (rf', s\<lparr>refresh_q := refresh_q s @
        map (refresh_of c (ref_policy rf)) [0 ..< (n - 1) div nat (refresh_interval rf)]\<rparr>) \<and>
    ref_at c ((n - 1) div nat (refresh_interval rf)) rf' \<and> ref_clk rf' = of_nat n \<and>
    ref_policy rf' = ref_policy rf \<and> refresh_interval rf' = refresh_interval rf"
  using assms(7)
proof (induction n)
  case 0
  with assms(3,4) show ?case by simp
next
  case (Suc n)
  let ?I = "nat (refresh_interval rf)" and ?q = "refresh_of c (ref_policy rf)"
  let ?m = "(n - 1) div ?I"
  let ?s = "s\<lparr>refresh_q := refresh_q s @ map ?q [0 ..< ?m]\<rparr>"
  have i: "0 < refresh_interval rf" "refresh_interval rf < 2 ^ 64" and p: "ref_policy rf \<noteq> SIZE_POLICY"
    using assms(2) by (auto simp: ref_inv_def)
  from Suc obtain rf1 where rf1: "ref_ticks c n rf s = Inr (rf1, ?s)" "ref_at c ?m rf1"
      "ref_clk rf1 = of_nat n" "ref_policy rf1 = ref_policy rf"
      "refresh_interval rf1 = refresh_interval rf" by auto
  have sh: "chan_shape c ?s" using assms(5) by (simp add: chan_shape_def)
  obtain rf2 s2 where ins: "InsertRefresh c rf1 ?s = Inr (rf2, s2)" "ref_at c (Suc ?m) rf2"
      "ref_policy rf2 = ref_policy rf" "ref_clk rf2 = of_nat n" "refresh_interval rf2 = refresh_interval rf"
    using InsertRefresh_total [OF assms(1) rf1(2) _ sh] rf1 p by auto
  have s2: "s2 = ?s\<lparr>refresh_q := refresh_q ?s @ [?q ?m]\<rparr>"
    using InsertRefresh_queue [OF assms(1) rf1(2) _ sh _ ins(1)] rf1(4) p assms(6) by simp
  have n: "uint (of_nat n :: u64) = int n" using Suc.prems by (simp add: unsigned_of_nat take_bit_eq_mod)
  have "(of_nat n mod (of_int (refresh_interval rf) :: u64) = 0 \<and> 0 < (of_nat n :: u64))
      \<longleftrightarrow> n mod ?I = 0 \<and> 0 < n" (is "?due = _")
  proof -
    have "of_nat n mod (of_int (refresh_interval rf) :: u64) = 0 \<longleftrightarrow> int n mod refresh_interval rf = 0"
      by (simp add: word_uint_eq_iff uint_mod n of_int_interval [OF i])
    moreover have "int n mod refresh_interval rf = int (n mod ?I)" using i by (simp add: zmod_int)
    moreover have "0 < (of_nat n :: u64) \<longleftrightarrow> 0 < n" by (simp add: word_less_def n)
    ultimately show ?thesis by simp
  qed
  note due = this
  have tick: "ref_ClockTick c rf1 ?s = (if ?due then Inr (rf2\<lparr>ref_clk := of_nat n + 1\<rparr>, s2)
      else Inr (rf1\<lparr>ref_clk := of_nat n + 1\<rparr>, ?s))"
    using ins rf1 of_int_interval [OF i] by (simp add: ref_ClockTick_def Let_def)
  have cm: "n div ?I = ?m + (if n mod ?I = 0 \<and> 0 < n then 1 else 0)"
    using count_multiples [of ?I n] i by simp
  show ?case
  proof (cases ?due)
    case True
    then have "(Suc n - 1) div ?I = Suc ?m" using cm due by simp
    moreover have "ref_ClockTick c rf1 ?s = Inr (rf2\<lparr>ref_clk := of_nat n + 1\<rparr>, s2)"
      using True unfolding tick by (rule if_P)
    ultimately show ?thesis using rf1(1) ins s2 by (simp add: ref_at_def add.commute)
  next
    case False
    then have "(Suc n - 1) div ?I = ?m" using cm due by (simp split: if_splits)
    moreover have "ref_ClockTick c rf1 ?s = Inr (rf1\<lparr>ref_clk := of_nat n + 1\<rparr>, ?s)"
      using False unfolding tick by (rule if_not_P)
    ultimately show ?thesis using rf1 by (simp add: ref_at_def add.commute)
  qed
qed

section \<open>Properties\<close>

lemma ref_ticks_from_start:
  assumes "geometry_ok c" and "mk_Refresh c = Inr rf" and "refresh_policy c \<noteq> SIZE_POLICY"
    and "0 < refresh_interval rf" and "refresh_interval rf < 2 ^ 64"
    and "chan_shape c s" and "\<forall>b \<in> set (rank_is_sref s). \<not> b" and "n < 2 ^ 64"
  shows "\<exists>rf'. ref_ticks c n rf s =
      Inr (rf', s\<lparr>refresh_q := refresh_q s @
        map (refresh_of c (refresh_policy c)) [0 ..< (n - 1) div nat (refresh_interval rf)]\<rparr>)"
  using ref_ticks_queue [OF assms(1) _ _ _ assms(6-8), of rf] ref_inv_mk_Refresh [OF assms(2,4,5,3)]
  by auto

text \<open>
  C27: Schedule of refreshes. From its construction, and while no rank is in self refresh, the
  generator performs every tick; after \<open>n\<close> ticks it has queued one refresh for each multiple
  of the interval it passed, and the \<open>i\<close>-th of them addresses the \<open>i\<close>-th rank or bank of the
  policy's order.
\<close>

theorem refresh_schedule:
  assumes "geometry_ok c" and "mk_Refresh c = Inr rf" and "refresh_policy c \<noteq> SIZE_POLICY"
    and "0 < refresh_interval rf" and "refresh_interval rf < 2 ^ 64"
    and "chan_shape c s" and "\<forall>b \<in> set (rank_is_sref s). \<not> b" and "n < 2 ^ 64"
  shows "\<exists>rf' s'. ref_ticks c n rf s = Inr (rf', s') \<and>
    refresh_q s' = refresh_q s @
      map (refresh_of c (refresh_policy c)) [0 ..< (n - 1) div nat (refresh_interval rf)]"
  using ref_ticks_from_start [OF assms] by auto

theorem refresh_schedule_witness:
  "\<exists>rf rf' s'. mk_Refresh ddr4_config = Inr rf \<and>
     ref_ticks ddr4_config 20000 rf (mk_ChannelState ddr4_config) = Inr (rf', s') \<and>
     map Rank (refresh_q s') = [0, 1, 0]"
proof -
  let ?rf = "\<lparr>ref_clk = 0, refresh_interval = 6240, ref_policy = RANK_LEVEL_STAGGERED,
      next_rank = 0, next_bg = 0, next_bank = 0\<rparr> :: Refresh"
  have mk: "mk_Refresh ddr4_config = Inr ?rf" by code_simp
  have sh: "chan_shape ddr4_config (mk_ChannelState ddr4_config)"
    using chan_invD(1) [OF chan_inv_mk_ChannelState] .
  have ns: "\<forall>b \<in> set (rank_is_sref (mk_ChannelState ddr4_config)). \<not> b"
    by (simp add: mk_ChannelState_def)
  have h: "refresh_policy ddr4_config \<noteq> SIZE_POLICY" "0 < refresh_interval ?rf"
    "refresh_interval ?rf < 2 ^ 64" "(20000 :: nat) < 2 ^ 64"
    by (simp_all add: ddr4_config_def)
  have n: "(20000 - 1 :: nat) div nat (refresh_interval ?rf) = 3" by simp
  obtain rf' s' where s': "ref_ticks ddr4_config 20000 ?rf (mk_ChannelState ddr4_config) = Inr (rf', s')"
    and q: "refresh_q s' = refresh_q (mk_ChannelState ddr4_config) @
      map (refresh_of ddr4_config (refresh_policy ddr4_config)) [0 ..< 3]"
    using refresh_schedule [OF ddr4_geometry mk h(1-3) sh ns h(4)] unfolding n by blast
  have "map Rank (map (refresh_of ddr4_config (refresh_policy ddr4_config)) [0 ..< 3]) = [0, 1, 0]"
    by code_simp
  then have "map Rank (refresh_q s') = [0, 1, 0]" by (simp only: q mk_ChannelState_def) simp
  with mk s' show ?thesis by (intro exI conjI)
qed

text \<open>
  C28: No bank is forgotten. Under per-bank refresh every bank of the channel has a refresh
  queued within one round, that is within \<open>ranks * banks\<close> intervals.
\<close>

theorem refresh_round_covers_banks:
  assumes "geometry_ok c" and "mk_Refresh c = Inr rf" and "refresh_policy c = BANK_LEVEL_STAGGERED"
    and "0 < refresh_interval rf" and "refresh_interval rf < 2 ^ 64"
    and "chan_shape c s" and "\<forall>b \<in> set (rank_is_sref s). \<not> b"
    and "int n = ranks c * banks c * refresh_interval rf + 1" and "n < 2 ^ 64"
    and "bank_index c r j k"
  shows "\<exists>rf' s'. ref_ticks c n rf s = Inr (rf', s') \<and>
    (\<exists>q \<in> set (refresh_q s'). cmd_type q = REFRESH_BANK \<and> Rank q = r \<and> Bankgroup q = j \<and> Bank q = k)"
proof -
  let ?I = "nat (refresh_interval rf)"
  obtain m where m: "int m < ranks c * banks c" "nth_refresh c BANK_LEVEL_STAGGERED m = (r, j, k)"
    using nth_refresh_cover [OF assms(1,10)] by blast
  have "0 \<le> ranks c * banks c * refresh_interval rf"
    using assms(1,4) by (auto simp: geometry_ok_def)
  then have "int (n - 1) = ranks c * banks c * refresh_interval rf"
    using assms(8) by linarith
  then have "int ((n - 1) div ?I) = ranks c * banks c"
    using assms(4) by (simp add: zdiv_int)
  then have "m < (n - 1) div ?I" using m(1) by linarith
  moreover obtain rf' where "ref_ticks c n rf s = Inr (rf', s\<lparr>refresh_q := refresh_q s @
      map (refresh_of c BANK_LEVEL_STAGGERED) [0 ..< (n - 1) div ?I]\<rparr>)"
    using ref_ticks_from_start [OF assms(1,2) _ assms(4-7,9)] assms(3) by auto
  moreover have "cmd_type (refresh_of c BANK_LEVEL_STAGGERED m) = REFRESH_BANK"
    "Rank (refresh_of c BANK_LEVEL_STAGGERED m) = r" "Bankgroup (refresh_of c BANK_LEVEL_STAGGERED m) = j"
    "Bank (refresh_of c BANK_LEVEL_STAGGERED m) = k"
    by (simp_all add: refresh_of_def m(2))
  ultimately show ?thesis by (auto intro!: bexI [of _ "refresh_of c BANK_LEVEL_STAGGERED m"])
qed

theorem refresh_round_covers_banks_witness:
  "\<exists>rf rf' s' q. mk_Refresh (ddr4_config\<lparr>refresh_policy := BANK_LEVEL_STAGGERED\<rparr>) = Inr rf \<and>
     ref_ticks (ddr4_config\<lparr>refresh_policy := BANK_LEVEL_STAGGERED\<rparr>) 62401 rf
       (mk_ChannelState ddr4_config) = Inr (rf', s') \<and>
     q \<in> set (refresh_q s') \<and> Rank q = 1 \<and> Bankgroup q = 3 \<and> Bank q = 2"
proof -
  let ?c = "ddr4_config\<lparr>refresh_policy := BANK_LEVEL_STAGGERED\<rparr>"
  let ?rf = "\<lparr>ref_clk = 0, refresh_interval = 1950, ref_policy = BANK_LEVEL_STAGGERED,
      next_rank = 0, next_bg = 0, next_bank = 0\<rparr> :: Refresh"
  let ?s = "mk_ChannelState ddr4_config"
  have mk: "mk_Refresh ?c = Inr ?rf" by code_simp
  have g: "geometry_ok ?c" by code_simp
  have "chan_shape ddr4_config ?s"
    using chan_invD(1) [OF chan_inv_mk_ChannelState] .
  then have sh: "chan_shape ?c ?s" by (simp add: chan_shape_def)
  have ns: "\<forall>b \<in> set (rank_is_sref ?s). \<not> b" by (simp add: mk_ChannelState_def)
  have b: "bank_index ?c 1 3 2" by code_simp
  have h: "refresh_policy ?c = BANK_LEVEL_STAGGERED" "0 < refresh_interval ?rf"
    "refresh_interval ?rf < 2 ^ 64" "(62401 :: nat) < 2 ^ 64"
    by simp_all
  have n: "int 62401 = ranks ?c * banks ?c * refresh_interval ?rf + 1"
    by (simp add: ddr4_config_def)
  show ?thesis
    using refresh_round_covers_banks [OF g mk h(1-3) sh ns n h(4) b] mk by blast
qed

text \<open>
  C30: The policy \<open>RANK_LEVEL_SIMULTANEOUS\<close>, documented as a refresh of all ranks, queues a
  refresh of rank 0 only while that rank is not in self refresh: the loop over the ranks
  ends at the first one. No other rank is ever refreshed.
\<close>

theorem refresh_simultaneous_first_rank_only:
  assumes "geometry_ok c" and "mk_Refresh c = Inr rf" and "refresh_policy c = RANK_LEVEL_SIMULTANEOUS"
    and "0 < refresh_interval rf" and "refresh_interval rf < 2 ^ 64"
    and "chan_shape c s" and "\<forall>b \<in> set (rank_is_sref s). \<not> b" and "n < 2 ^ 64"
    and "refresh_q s = []"
  shows "\<exists>rf' s'. ref_ticks c n rf s = Inr (rf', s') \<and> (\<forall>q \<in> set (refresh_q s'). Rank q = 0)"
proof -
  have "Rank (refresh_of c RANK_LEVEL_SIMULTANEOUS m) = 0" for m
    by (simp add: refresh_of_def nth_refresh_def)
  moreover obtain rf' where "ref_ticks c n rf s = Inr (rf', s\<lparr>refresh_q :=
      map (refresh_of c RANK_LEVEL_SIMULTANEOUS) [0 ..< (n - 1) div nat (refresh_interval rf)]\<rparr>)"
    using ref_ticks_from_start [OF assms(1,2) _ assms(4-8)] assms(3,9) by auto
  ultimately show ?thesis by auto
qed

theorem refresh_simultaneous_first_rank_only_witness:
  "\<exists>rf rf' s'. mk_Refresh (ddr4_config\<lparr>refresh_policy := RANK_LEVEL_SIMULTANEOUS\<rparr>) = Inr rf \<and>
     ref_ticks (ddr4_config\<lparr>refresh_policy := RANK_LEVEL_SIMULTANEOUS\<rparr>) 40000 rf
       (mk_ChannelState ddr4_config) = Inr (rf', s') \<and>
     (\<forall>q \<in> set (refresh_q s'). Rank q = 0)"
proof -
  let ?c = "ddr4_config\<lparr>refresh_policy := RANK_LEVEL_SIMULTANEOUS\<rparr>"
  let ?rf = "\<lparr>ref_clk = 0, refresh_interval = 12480, ref_policy = RANK_LEVEL_SIMULTANEOUS,
      next_rank = 0, next_bg = 0, next_bank = 0\<rparr> :: Refresh"
  let ?s = "mk_ChannelState ddr4_config"
  have mk: "mk_Refresh ?c = Inr ?rf" by code_simp
  have g: "geometry_ok ?c" by code_simp
  have "chan_shape ddr4_config ?s"
    using chan_invD(1) [OF chan_inv_mk_ChannelState] .
  then have sh: "chan_shape ?c ?s" by (simp add: chan_shape_def)
  have ns: "\<forall>b \<in> set (rank_is_sref ?s). \<not> b" and q: "refresh_q ?s = []"
    by (simp_all add: mk_ChannelState_def)
  have h: "refresh_policy ?c = RANK_LEVEL_SIMULTANEOUS" "0 < refresh_interval ?rf"
    "refresh_interval ?rf < 2 ^ 64" "(40000 :: nat) < 2 ^ 64"
    by simp_all
  show ?thesis
    using refresh_simultaneous_first_rank_only [OF g mk h(1-3) sh ns h(4) q] mk by blast
qed

end
