(* ===== verification/Simple_Stats.thy ===== *)
theory Simple_Stats
  imports Emulator_Config "HOL-Library.AList"
begin

text \<open>
  \<open>DRAMSIM3/src/simple_stats.h\<close> and \<open>simple_stats.cc\<close>: the counters and histograms of a
  channel. An \<open>unordered_map\<close> is an association list with distinct keys; the loops over
  one do not depend on its order. The energies and averages computed in floating point,
  and the text and JSON output, are not modelled.
\<close>

section \<open>The statistics\<close>

type_synonym 'v smap = "(string \<times> 'v) list"
type_synonym HistoCount = "(int \<times> u64) list"

record SimpleStats =
  counters :: "u64 smap"
  epoch_counters :: "u64 smap"
  vec_counters :: "u64 list smap"
  epoch_vec_counters :: "u64 list smap"
  histo_bounds :: "(int \<times> int) smap"
  bin_widths :: "int smap"
  histo_counts :: "HistoCount smap"
  epoch_histo_counts :: "HistoCount smap"
  histo_bins :: "u64 list smap"
  epoch_histo_bins :: "u64 list smap"

text \<open>\<open>m[k]\<close> reads the default value when the key is absent; \<open>emplace\<close> keeps a present key.\<close>

definition get_or :: "'v \<Rightarrow> ('k \<times> 'v) list \<Rightarrow> 'k \<Rightarrow> 'v" where
  "get_or d m k = (case map_of m k of None \<Rightarrow> d | Some v \<Rightarrow> v)"

definition emplace :: "'k \<Rightarrow> 'v \<Rightarrow> ('k \<times> 'v) list \<Rightarrow> ('k \<times> 'v) list" where
  "emplace k v m = (if map_of m k = None then AList.update k v m else m)"

definition Increment :: "SimpleStats \<Rightarrow> string \<Rightarrow> SimpleStats" where
  "Increment st name =
     st\<lparr>epoch_counters := AList.update name (get_or 0 (epoch_counters st) name + 1) (epoch_counters st)\<rparr>"

definition IncrementVecBy :: "SimpleStats \<Rightarrow> string \<Rightarrow> int \<Rightarrow> int \<Rightarrow> SimpleStats result" where
  "IncrementVecBy st name pos num =
     bindR (vec_at (get_or [] (epoch_vec_counters st) name) pos) (\<lambda>x.
     bindR (vec_set (get_or [] (epoch_vec_counters st) name) pos (x + of_int num)) (\<lambda>v.
       Inr (st\<lparr>epoch_vec_counters := AList.update name v (epoch_vec_counters st)\<rparr>)))"

definition IncrementVec :: "SimpleStats \<Rightarrow> string \<Rightarrow> int \<Rightarrow> SimpleStats result" where
  "IncrementVec st name pos =
     bindR (vec_at (get_or [] (epoch_vec_counters st) name) pos) (\<lambda>x.
     bindR (vec_set (get_or [] (epoch_vec_counters st) name) pos (x + 1)) (\<lambda>v.
       Inr (st\<lparr>epoch_vec_counters := AList.update name v (epoch_vec_counters st)\<rparr>)))"

definition AddValue :: "SimpleStats \<Rightarrow> string \<Rightarrow> int \<Rightarrow> SimpleStats" where
  "AddValue st name value =
     (let epoch_counts = get_or [] (epoch_histo_counts st) name;
          counts = (if map_of epoch_counts value = None then AList.update value 1 epoch_counts
                    else AList.update value (get_or 0 epoch_counts value + 1) epoch_counts)
      in st\<lparr>epoch_histo_counts := AList.update name counts (epoch_histo_counts st)\<rparr>)"

subsection \<open>Construction and reset\<close>

definition SimpleStats0 :: SimpleStats where
  "SimpleStats0 = \<lparr>counters = [], epoch_counters = [], vec_counters = [], epoch_vec_counters = [],
     histo_bounds = [], bin_widths = [], histo_counts = [], epoch_histo_counts = [],
     histo_bins = [], epoch_histo_bins = []\<rparr>"

definition InitStat :: "string \<Rightarrow> SimpleStats \<Rightarrow> SimpleStats" where
  "InitStat name st =
     st\<lparr>counters := emplace name 0 (counters st), epoch_counters := emplace name 0 (epoch_counters st)\<rparr>"

definition InitVecStat :: "int \<Rightarrow> string \<Rightarrow> SimpleStats \<Rightarrow> SimpleStats" where
  "InitVecStat vec_len name st =
     st\<lparr>vec_counters := emplace name (replicate (nat vec_len) 0) (vec_counters st),
        epoch_vec_counters := emplace name (replicate (nat vec_len) 0) (epoch_vec_counters st)\<rparr>"

definition InitHistoStat :: "string \<Rightarrow> int \<Rightarrow> int \<Rightarrow> int \<Rightarrow> SimpleStats \<Rightarrow> SimpleStats" where
  "InitHistoStat name start_val end_val num_bins st =
     st\<lparr>bin_widths := emplace name (c_div (end_val - start_val) num_bins) (bin_widths st),
        histo_bounds := emplace name (start_val, end_val) (histo_bounds st),
        histo_counts := emplace name [] (histo_counts st),
        epoch_histo_counts := emplace name [] (epoch_histo_counts st),
        histo_bins := emplace name (replicate (nat (num_bins + 2)) 0) (histo_bins st),
        epoch_histo_bins := emplace name (replicate (nat (num_bins + 2)) 0) (epoch_histo_bins st)\<rparr>"

definition counter_names :: "string list" where
  "counter_names =
     [''num_cycles'', ''epoch_num'', ''num_reads_done'', ''num_writes_done'', ''num_write_buf_hits'',
      ''num_read_row_hits'', ''num_write_row_hits'', ''num_read_cmds'', ''num_write_cmds'',
      ''num_act_cmds'', ''num_pre_cmds'', ''num_ondemand_pres'', ''num_ref_cmds'', ''num_refb_cmds'',
      ''num_srefe_cmds'', ''num_srefx_cmds'', ''hbm_dual_cmds'']"

definition mk_SimpleStats :: "Config \<Rightarrow> SimpleStats" where
  "mk_SimpleStats c =
     (let st1 = fold InitStat counter_names SimpleStats0;
          st2 = fold (InitVecStat (ranks c))
                  [''all_bank_idle_cycles'', ''rank_active_cycles'', ''sref_cycles''] st1;
          st3 = InitHistoStat ''read_latency'' 0 200 10 st2;
          st4 = InitHistoStat ''write_latency'' 0 200 10 st3
      in InitHistoStat ''interarrival_latency'' 0 100 10 st4)"

definition zero_all :: "'v smap \<Rightarrow> ('v \<Rightarrow> 'v) \<Rightarrow> 'v smap" where
  "zero_all m z = map (\<lambda>(name, v). (name, z v)) m"

definition stats_Reset :: "SimpleStats \<Rightarrow> SimpleStats" where
  "stats_Reset st =
     st\<lparr>counters := zero_all (counters st) (\<lambda>_. 0),
        epoch_counters := zero_all (epoch_counters st) (\<lambda>_. 0),
        vec_counters := zero_all (vec_counters st) (\<lambda>v. replicate (length v) 0),
        epoch_vec_counters := zero_all (epoch_vec_counters st) (\<lambda>v. replicate (length v) 0),
        histo_counts := zero_all (histo_counts st) (\<lambda>_. []),
        epoch_histo_counts := zero_all (epoch_histo_counts st) (\<lambda>_. [])\<rparr>"

subsection \<open>End of an epoch\<close>

definition add_vec :: "u64 list \<Rightarrow> u64 list \<Rightarrow> u64 list result" where
  "add_vec w v =
     (if length v \<le> length w then Inr (map2 (+) (take (length v) w) v @ drop (length v) w)
      else Inl OutOfBounds)"

definition UpdateCounters :: "SimpleStats \<Rightarrow> SimpleStats result" where
  "UpdateCounters st =
     (let cs = fold (\<lambda>(name, x) m. AList.update name (get_or 0 m name + x) m)
                 (epoch_counters st) (counters st)
      in bindR (foldR (\<lambda>(name, v) m.
                   bindR (add_vec (get_or [] m name) v) (\<lambda>w. Inr (AList.update name w m)))
                 (epoch_vec_counters st) (vec_counters st)) (\<lambda>vs.
           Inr (st\<lparr>counters := cs, vec_counters := vs\<rparr>)))"

definition bin_index :: "int \<times> int \<Rightarrow> int \<Rightarrow> nat \<Rightarrow> int \<Rightarrow> int result" where
  "bin_index bounds width nbins value =
     (if value < fst bounds then Inr 0
      else if value > snd bounds then Inr (int nbins - 1)
      else bindR (div_int (value - fst bounds) width) (\<lambda>q. Inr (q + 1)))"

definition fill_bins :: "int \<times> int \<Rightarrow> int \<Rightarrow> HistoCount \<Rightarrow> u64 list \<Rightarrow> u64 list result" where
  "fill_bins bounds width counts bins =
     foldR (\<lambda>(value, count) bs.
       bindR (bin_index bounds width (length bs) value) (\<lambda>i.
       bindR (vec_at bs i) (\<lambda>x. vec_set bs i (x + count))))
     counts (replicate (length bins) 0)"

definition epoch_bins_of :: "SimpleStats \<Rightarrow> string \<Rightarrow> u64 list \<Rightarrow> u64 list result" where
  "epoch_bins_of st name bins =
     fill_bins (get_or (0, 0) (histo_bounds st) name) (get_or 0 (bin_widths st) name)
       (get_or [] (epoch_histo_counts st) name) bins"

definition add_bins :: "u64 list \<Rightarrow> u64 list \<Rightarrow> u64 list result" where
  "add_bins final_bins bins =
     (if length final_bins \<le> length bins then Inr (map2 (+) final_bins bins) else Inl OutOfBounds)"

definition merge_counts :: "HistoCount \<Rightarrow> HistoCount \<Rightarrow> HistoCount" where
  "merge_counts epoch_counts final_counts =
     fold (\<lambda>(v, n) m. if map_of m v = None then AList.update v n m
                      else AList.update v (get_or 0 m v + n) m) epoch_counts final_counts"

definition UpdateHistoBins :: "SimpleStats \<Rightarrow> SimpleStats result" where
  "UpdateHistoBins st =
     bindR (foldR (\<lambda>(name, bins) m.
              bindR (epoch_bins_of st name bins) (\<lambda>bs. Inr (AList.update name bs m)))
            (epoch_histo_bins st) (epoch_histo_bins st)) (\<lambda>eb.
     foldR (\<lambda>(name, epoch_counts) s.
              bindR (add_bins (get_or [] (histo_bins s) name) (get_or [] eb name)) (\<lambda>bs.
                Inr (s\<lparr>histo_counts :=
                         AList.update name (merge_counts epoch_counts (get_or [] (histo_counts s) name))
                           (histo_counts s),
                       histo_bins := AList.update name bs (histo_bins s)\<rparr>)))
       (epoch_histo_counts st) (st\<lparr>epoch_histo_bins := eb\<rparr>))"

definition UpdateEpochStats :: "SimpleStats \<Rightarrow> SimpleStats result" where
  "UpdateEpochStats st =
     bindR (UpdateCounters st) (\<lambda>s1.
     bindR (UpdateHistoBins s1) (\<lambda>s2.
       Inr (s2\<lparr>epoch_counters := zero_all (epoch_counters s2) (\<lambda>_. 0),
               epoch_vec_counters := zero_all (epoch_vec_counters s2) (\<lambda>v. replicate (length v) 0),
               epoch_histo_counts := zero_all (epoch_histo_counts s2) (\<lambda>_. [])\<rparr>)))"

definition UpdateFinalStats :: "SimpleStats \<Rightarrow> SimpleStats result" where
  "UpdateFinalStats st = bindR (UpdateCounters st) UpdateHistoBins"

section \<open>Histograms\<close>

lemma get_or_update [simp]: "get_or d (AList.update k v m) k' = (if k' = k then v else get_or d m k')"
  by (simp add: get_or_def update_conv')

lemma get_or_Cons [simp]: "get_or d ((k, v) # m) n = (if n = k then v else get_or d m n)"
  by (simp add: get_or_def)

lemma get_or_notin: "k \<notin> fst ` set m \<Longrightarrow> get_or d m k = d"
  using map_of_eq_None_iff [of m k] by (simp add: get_or_def)

lemma bin_index_range:
  assumes "fst b \<le> snd b" and "0 < w" and "(snd b - fst b) div w + 2 \<le> int n"
  shows "\<exists>i. bin_index b w n v = Inr i \<and> 0 \<le> i \<and> i < int n"
proof -
  have d: "0 \<le> (snd b - fst b) div w" using assms by (simp add: pos_imp_zdiv_nonneg_iff)
  show ?thesis
  proof (cases "fst b \<le> v \<and> v \<le> snd b")
    case True
    then have q: "c_div (v - fst b) w = (v - fst b) div w"
      using assms(2) by (simp add: c_div_nonneg)
    have "(v - fst b) div w \<le> (snd b - fst b) div w" and "0 \<le> (v - fst b) div w"
      using True assms(2) by (simp_all add: zdiv_mono1 pos_imp_zdiv_nonneg_iff)
    then show ?thesis
      using True assms(2,3) q by (auto simp: bin_index_def div_int_def)
  qed (use d assms(3) in \<open>auto simp: bin_index_def\<close>)
qed

lemma sum_list_update_add:
  "i < length xs \<Longrightarrow> sum_list (xs[i := xs ! i + (x :: u64)]) = sum_list xs + x"
  by (induction xs arbitrary: i) (auto split: nat.splits simp: ac_simps)

text \<open>Every recorded value falls into one bin, so the bins of an epoch sum to its samples.\<close>

lemma fill_bins_loop:
  assumes "fst b \<le> snd b" and "0 < w" and "(snd b - fst b) div w + 2 \<le> int (length (bs :: u64 list))"
  shows "\<exists>bs'. foldR (\<lambda>(value, count) bs.
       bindR (bin_index b w (length bs) value) (\<lambda>i.
       bindR (vec_at bs i) (\<lambda>x. vec_set bs i (x + count)))) counts bs = Inr bs' \<and>
     length bs' = length bs \<and> sum_list bs' = sum_list bs + sum_list (map snd counts)"
  using assms(3)
proof (induction counts arbitrary: bs)
  case Nil
  then show ?case by simp
next
  case (Cons p counts)
  obtain v n where p: "p = (v, n)" by (cases p)
  obtain i where i: "bin_index b w (length bs) v = Inr i" "0 \<le> i" "i < int (length bs)"
    using bin_index_range [OF assms(1,2) Cons.prems] by blast
  let ?bs = "bs[nat i := bs ! nat i + n]"
  have "vec_at bs i = Inr (bs ! nat i)" and "vec_set bs i (bs ! nat i + n) = Inr ?bs"
    using i by (simp_all add: vec_at_def vec_set_def)
  moreover have "sum_list ?bs = sum_list bs + n"
    using i by (intro sum_list_update_add) simp
  ultimately show ?case
    using Cons.IH [of ?bs] Cons.prems i(1) by (auto simp: p ac_simps)
qed

lemma fill_bins_total:
  assumes "fst b \<le> snd b" and "0 < w" and "(snd b - fst b) div w + 2 \<le> int (length bins)"
  shows "\<exists>bs. fill_bins b w counts bins = Inr bs \<and> length bs = length bins \<and>
    sum_list bs = sum_list (map snd counts)"
  using fill_bins_loop [OF assms(1,2), of "replicate (length bins) 0" counts] assms(3)
  by (simp add: fill_bins_def sum_list_replicate)

lemma AddValue_count:
  "get_or 0 (get_or [] (epoch_histo_counts (AddValue st name v)) name) u =
     get_or 0 (get_or [] (epoch_histo_counts st) name) u + (if u = v then 1 else 0)"
  by (auto simp: AddValue_def Let_def get_or_def update_conv' split: option.splits)

section \<open>Invariant\<close>

definition histo_names :: "string list" where
  "histo_names = [''read_latency'', ''write_latency'', ''interarrival_latency'']"

definition vec_names :: "string list" where
  "vec_names = [''all_bank_idle_cycles'', ''rank_active_cycles'', ''sref_cycles'']"

definition histo_ok :: "SimpleStats \<Rightarrow> string \<Rightarrow> bool" where
  "histo_ok st n \<longleftrightarrow> (\<exists>lo hi w bs fb.
     map_of (histo_bounds st) n = Some (lo, hi) \<and> map_of (bin_widths st) n = Some w \<and>
     map_of (epoch_histo_bins st) n = Some bs \<and> map_of (histo_bins st) n = Some fb \<and>
     lo \<le> hi \<and> 0 < w \<and> (hi - lo) div w + 2 \<le> int (length bs) \<and> length fb = length bs)"

lemma histo_ok_frame [simp]:
  "histo_ok (st\<lparr>counters := a\<rparr>) n = histo_ok st n"
  "histo_ok (st\<lparr>epoch_counters := a\<rparr>) n = histo_ok st n"
  "histo_ok (st\<lparr>vec_counters := v\<rparr>) n = histo_ok st n"
  "histo_ok (st\<lparr>epoch_vec_counters := v\<rparr>) n = histo_ok st n"
  "histo_ok (st\<lparr>histo_counts := h\<rparr>) n = histo_ok st n"
  "histo_ok (st\<lparr>epoch_histo_counts := h\<rparr>) n = histo_ok st n"
  by (simp_all add: histo_ok_def)

definition vec_ok :: "Config \<Rightarrow> u64 list smap \<Rightarrow> bool" where
  "vec_ok c m \<longleftrightarrow> distinct (map fst m) \<and> fst ` set m = set vec_names \<and>
     (\<forall>(n, v) \<in> set m. length v = nat (ranks c))"

definition stats_inv :: "Config \<Rightarrow> SimpleStats \<Rightarrow> bool" where
  "stats_inv c st \<longleftrightarrow> distinct (map fst (epoch_counters st)) \<and> vec_ok c (vec_counters st) \<and> vec_ok c (epoch_vec_counters st) \<and>
     distinct (map fst (epoch_histo_bins st)) \<and> fst ` set (epoch_histo_bins st) = set histo_names \<and>
     distinct (map fst (epoch_histo_counts st)) \<and>
     fst ` set (epoch_histo_counts st) \<subseteq> set histo_names \<and>
     (\<forall>n \<in> set histo_names. histo_ok st n)"

lemma InitStat_frame [simp]:
  "vec_counters (fold InitStat ns st) = vec_counters st"
  "epoch_vec_counters (fold InitStat ns st) = epoch_vec_counters st"
  "histo_bounds (fold InitStat ns st) = histo_bounds st"
  "bin_widths (fold InitStat ns st) = bin_widths st"
  "histo_bins (fold InitStat ns st) = histo_bins st"
  "epoch_histo_bins (fold InitStat ns st) = epoch_histo_bins st"
  "epoch_histo_counts (fold InitStat ns st) = epoch_histo_counts st"
  by (induction ns arbitrary: st) (simp_all add: InitStat_def)

lemma InitVecStat_frame [simp]:
  "epoch_counters (InitVecStat l n st) = epoch_counters st"
  "vec_counters (InitVecStat l n st) = emplace n (replicate (nat l) 0) (vec_counters st)"
  "epoch_vec_counters (InitVecStat l n st) = emplace n (replicate (nat l) 0) (epoch_vec_counters st)"
  "histo_bounds (InitVecStat l n st) = histo_bounds st"
  "bin_widths (InitVecStat l n st) = bin_widths st"
  "histo_bins (InitVecStat l n st) = histo_bins st"
  "epoch_histo_bins (InitVecStat l n st) = epoch_histo_bins st"
  "histo_counts (InitVecStat l n st) = histo_counts st"
  "epoch_histo_counts (InitVecStat l n st) = epoch_histo_counts st"
  by (simp_all add: InitVecStat_def)

lemma InitHistoStat_frame [simp]:
  "epoch_counters (InitHistoStat n a b k st) = epoch_counters st"
  "vec_counters (InitHistoStat n a b k st) = vec_counters st"
  "epoch_vec_counters (InitHistoStat n a b k st) = epoch_vec_counters st"
  "histo_bounds (InitHistoStat n a b k st) = emplace n (a, b) (histo_bounds st)"
  "bin_widths (InitHistoStat n a b k st) = emplace n (c_div (b - a) k) (bin_widths st)"
  "histo_bins (InitHistoStat n a b k st) = emplace n (replicate (nat (k + 2)) 0) (histo_bins st)"
  "epoch_histo_bins (InitHistoStat n a b k st) = emplace n (replicate (nat (k + 2)) 0) (epoch_histo_bins st)"
  "histo_counts (InitHistoStat n a b k st) = emplace n [] (histo_counts st)"
  "epoch_histo_counts (InitHistoStat n a b k st) = emplace n [] (epoch_histo_counts st)"
  by (simp_all add: InitHistoStat_def)

lemma mk_SimpleStats_fields:
  "vec_counters (mk_SimpleStats c) = map (\<lambda>n. (n, replicate (nat (ranks c)) 0))
     [''all_bank_idle_cycles'', ''rank_active_cycles'', ''sref_cycles'']"
  "epoch_vec_counters (mk_SimpleStats c) = map (\<lambda>n. (n, replicate (nat (ranks c)) 0))
     [''all_bank_idle_cycles'', ''rank_active_cycles'', ''sref_cycles'']"
  "histo_bounds (mk_SimpleStats c) =
     [(''read_latency'', (0, 200)), (''write_latency'', (0, 200)), (''interarrival_latency'', (0, 100))]"
  "bin_widths (mk_SimpleStats c) =
     [(''read_latency'', 20), (''write_latency'', 20), (''interarrival_latency'', 10)]"
  "histo_bins (mk_SimpleStats c) = map (\<lambda>n. (n, replicate 12 0))
     [''read_latency'', ''write_latency'', ''interarrival_latency'']"
  "epoch_histo_bins (mk_SimpleStats c) = map (\<lambda>n. (n, replicate 12 0))
     [''read_latency'', ''write_latency'', ''interarrival_latency'']"
  "epoch_histo_counts (mk_SimpleStats c) = map (\<lambda>n. (n, []))
     [''read_latency'', ''write_latency'', ''interarrival_latency'']"
  by (simp_all add: mk_SimpleStats_def SimpleStats0_def emplace_def c_div_def)

lemma InitStat_distinct:
  "distinct (map fst (epoch_counters st)) \<Longrightarrow> distinct (map fst (epoch_counters (fold InitStat ns st)))"
  by (induction ns arbitrary: st) (simp_all add: InitStat_def emplace_def distinct_update)

lemma stats_inv_mk_SimpleStats: "stats_inv c (mk_SimpleStats c)"
proof -
  have "distinct (map fst (epoch_counters (mk_SimpleStats c)))"
    by (simp add: mk_SimpleStats_def InitStat_distinct SimpleStats0_def)
  moreover
  have "histo_ok (mk_SimpleStats c) n" if "n \<in> set histo_names" for n
    using that by (auto simp: histo_ok_def histo_names_def mk_SimpleStats_fields)
  moreover have "vec_ok c (vec_counters (mk_SimpleStats c))" "vec_ok c (epoch_vec_counters (mk_SimpleStats c))"
    by (simp_all add: vec_ok_def vec_names_def mk_SimpleStats_fields)
  ultimately show ?thesis
    by (simp add: stats_inv_def mk_SimpleStats_fields) (simp add: histo_names_def)
qed

lemma Increment_inv [simp]: "stats_inv c st \<Longrightarrow> stats_inv c (Increment st n)"
  by (simp add: stats_inv_def Increment_def distinct_update)

lemma update_keys: "fst ` set (AList.update k v m) = insert k (fst ` set m)"
  using dom_update [of k v m] by (simp add: dom_map_of_conv_image_fst)

lemma AddValue_inv:
  assumes "stats_inv c st" and "n \<in> set histo_names"
  shows "stats_inv c (AddValue st n v)"
  using assms
  by (auto simp: stats_inv_def AddValue_def Let_def update_keys distinct_update)

lemma set_update_values:
  "(k', v') \<in> set (AList.update k v m) \<Longrightarrow> distinct (map fst m) \<Longrightarrow>
   (k' = k \<and> v' = v) \<or> (k', v') \<in> set m"
  using map_of_eq_Some_iff [of "AList.update k v m" k' v'] map_of_eq_Some_iff [of m k' v']
  by (auto simp: distinct_update update_conv' split: if_splits)

lemma vec_ok_update:
  assumes "vec_ok c m" and "n \<in> set vec_names" and "length v = nat (ranks c)"
  shows "vec_ok c (AList.update n v m)"
  using assms
  by (auto simp: vec_ok_def update_keys distinct_update dest!: set_update_values)

lemma vec_ok_get:
  assumes "vec_ok c m" and "n \<in> set vec_names"
  shows "length (get_or [] m n) = nat (ranks c)"
proof -
  have "n \<in> fst ` set m" using assms by (simp add: vec_ok_def)
  then obtain v where "map_of m n = Some v" by (metis domD dom_map_of_conv_image_fst)
  moreover have "length v = nat (ranks c)"
    using assms(1) map_of_SomeD [OF calculation] by (auto simp: vec_ok_def)
  ultimately show ?thesis by (simp add: get_or_def)
qed

lemma IncrementVec_total:
  assumes "stats_inv c st" and "n \<in> set vec_names" and "0 \<le> r" and "r < ranks c"
  shows "\<exists>st'. IncrementVec st n r = Inr st' \<and> stats_inv c st'"
proof -
  have l: "length (get_or [] (epoch_vec_counters st) n) = nat (ranks c)"
    using assms(1,2) vec_ok_get by (simp add: stats_inv_def)
  with assms show ?thesis
    by (auto simp: IncrementVec_def vec_at_def vec_set_def stats_inv_def vec_ok_update)
qed


section \<open>The end of an epoch\<close>

lemma UpdateCounters_counters:
  assumes "distinct (map fst l)"
  shows "get_or 0 (fold (\<lambda>(name, x) m. AList.update name (get_or 0 m name + x) m) l m) n =
    get_or 0 m n + get_or (0 :: u64) l n"
  using assms
proof (induction l arbitrary: m)
  case Nil
  then show ?case by (simp add: get_or_def)
next
  case (Cons p l)
  obtain k x where p: "p = (k, x)" by (cases p)
  have "get_or 0 l k = 0" using Cons.prems by (simp add: p get_or_notin)
  then show ?case using Cons by (simp add: p)
qed

lemma add_vec_total: "length v = length w \<Longrightarrow> \<exists>u. add_vec w v = Inr u \<and> length u = length w"
  by (simp add: add_vec_def)

lemma UpdateCounters_total:
  assumes "stats_inv c st"
  shows "\<exists>st'. UpdateCounters st = Inr st' \<and> stats_inv c st' \<and>
    epoch_counters st' = epoch_counters st \<and>
    (\<forall>n. get_or 0 (counters st') n = get_or 0 (counters st) n + get_or 0 (epoch_counters st) n)"
proof -
  have "\<exists>vs. foldR (\<lambda>(name, v) m.
        bindR (add_vec (get_or [] m name) v) (\<lambda>w. Inr (AList.update name w m)))
      (epoch_vec_counters st) (vec_counters st) = Inr vs \<and> vec_ok c vs"
  proof (rule foldR_total)
    show "vec_ok c (vec_counters st)" using assms by (simp add: stats_inv_def)
    fix p m assume ps: "p \<in> set (epoch_vec_counters st)" and m: "vec_ok c m"
    obtain n v where p: "p = (n, v)" by (cases p)
    have "n \<in> fst ` set (epoch_vec_counters st)" using ps by (force simp: p)
    then have n: "n \<in> set vec_names" and "length v = nat (ranks c)"
      using assms ps by (auto simp: stats_inv_def vec_ok_def p)
    then obtain u where "add_vec (get_or [] m n) v = Inr u" "length u = nat (ranks c)"
      using add_vec_total [of v "get_or [] m n"] vec_ok_get [OF m n] by auto
    then show "\<exists>t. (case p of (name, v) \<Rightarrow> \<lambda>m.
        bindR (add_vec (get_or [] m name) v) (\<lambda>w. Inr (AList.update name w m))) m = Inr t \<and> vec_ok c t"
      using vec_ok_update [OF m n] by (simp add: p)
  qed
  then obtain vs where "foldR (\<lambda>(name, v) m.
        bindR (add_vec (get_or [] m name) v) (\<lambda>w. Inr (AList.update name w m)))
      (epoch_vec_counters st) (vec_counters st) = Inr vs" and "vec_ok c vs" by blast
  then show ?thesis
    using assms UpdateCounters_counters [of "epoch_counters st"]
    by (simp add: UpdateCounters_def stats_inv_def)
qed

lemma histo_okD:
  assumes "histo_ok st n"
  shows "fst (get_or (0, 0) (histo_bounds st) n) \<le> snd (get_or (0, 0) (histo_bounds st) n)"
    and "0 < get_or 0 (bin_widths st) n"
    and "(snd (get_or (0, 0) (histo_bounds st) n) - fst (get_or (0, 0) (histo_bounds st) n))
      div get_or 0 (bin_widths st) n + 2 \<le> int (length (get_or [] (epoch_histo_bins st) n))"
    and "length (get_or [] (histo_bins st) n) = length (get_or [] (epoch_histo_bins st) n)"
  using assms by (auto simp: histo_ok_def get_or_def)

lemma epoch_bins_total:
  assumes "stats_inv c st"
  shows "\<exists>eb. foldR (\<lambda>(name, bins) m.
        bindR (epoch_bins_of st name bins) (\<lambda>bs. Inr (AList.update name bs m)))
      (epoch_histo_bins st) (epoch_histo_bins st) = Inr eb \<and> stats_inv c (st\<lparr>epoch_histo_bins := eb\<rparr>)"
proof (rule foldR_total)
  show "stats_inv c (st\<lparr>epoch_histo_bins := epoch_histo_bins st\<rparr>)" using assms by simp
  fix p m assume p: "p \<in> set (epoch_histo_bins st)" and m: "stats_inv c (st\<lparr>epoch_histo_bins := m\<rparr>)"
  obtain n bs where pp: "p = (n, bs)" by (cases p)
  have "n \<in> fst ` set (epoch_histo_bins st)" using p by (force simp: pp)
  then have n: "n \<in> set histo_names" and "map_of (epoch_histo_bins st) n = Some bs"
    using p assms by (simp_all add: stats_inv_def pp)
  then have bs: "get_or [] (epoch_histo_bins st) n = bs" by (simp add: get_or_def)
  have hok: "histo_ok st n" using assms n by (simp add: stats_inv_def)
  obtain bs' where "epoch_bins_of st n bs = Inr bs'" and l: "length bs' = length bs"
    using fill_bins_total [OF histo_okD(1-3) [OF hok, unfolded bs]]
    unfolding epoch_bins_of_def by blast
  moreover have "stats_inv c (st\<lparr>epoch_histo_bins := AList.update n bs' m\<rparr>)"
    using m n l hok bs
    by (auto simp: stats_inv_def update_keys distinct_update histo_ok_def update_conv' get_or_def)
  ultimately show "\<exists>t. (case p of (name, bins) \<Rightarrow> \<lambda>m.
      bindR (epoch_bins_of st name bins) (\<lambda>bs. Inr (AList.update name bs m))) m = Inr t \<and>
      stats_inv c (st\<lparr>epoch_histo_bins := t\<rparr>)"
    by (simp add: pp)
qed

lemma histo_ok_update_bins:
  assumes "histo_ok s m" and "length bs = length (get_or [] (epoch_histo_bins s) n)"
  shows "histo_ok (s\<lparr>histo_bins := AList.update n bs (histo_bins s)\<rparr>) m"
  using assms by (cases "m = n") (auto simp: histo_ok_def update_conv' get_or_def)

lemma stats_inv_update_bins:
  assumes "stats_inv c s" and "length bs = length (get_or [] (epoch_histo_bins s) n)"
  shows "stats_inv c (s\<lparr>histo_counts := hc, histo_bins := AList.update n bs (histo_bins s)\<rparr>)"
proof -
  have "histo_ok (s\<lparr>histo_counts := hc, histo_bins := AList.update n bs (histo_bins s)\<rparr>) m"
    if "m \<in> set histo_names" for m
    using histo_ok_update_bins [of "s\<lparr>histo_counts := hc\<rparr>" m bs n] assms that
    by (simp add: stats_inv_def)
  with assms(1) show ?thesis by (simp add: stats_inv_def)
qed

lemma UpdateHistoBins_total:
  assumes "stats_inv c st"
  shows "\<exists>st'. UpdateHistoBins st = Inr st' \<and> stats_inv c st' \<and>
    counters st' = counters st \<and> epoch_counters st' = epoch_counters st"
proof -
  obtain eb where eb: "foldR (\<lambda>(name, bins) m.
        bindR (epoch_bins_of st name bins) (\<lambda>bs. Inr (AList.update name bs m)))
      (epoch_histo_bins st) (epoch_histo_bins st) = Inr eb" "stats_inv c (st\<lparr>epoch_histo_bins := eb\<rparr>)"
    using epoch_bins_total [OF assms] by blast
  let ?P = "\<lambda>s. stats_inv c s \<and> epoch_histo_bins s = eb \<and> counters s = counters st \<and>
    epoch_counters s = epoch_counters st"
  let ?f = "\<lambda>(name, epoch_counts) s.
      bindR (add_bins (get_or [] (histo_bins s) name) (get_or [] eb name)) (\<lambda>bs.
        Inr (s\<lparr>histo_counts :=
                 AList.update name (merge_counts epoch_counts (get_or [] (histo_counts s) name))
                   (histo_counts s),
               histo_bins := AList.update name bs (histo_bins s)\<rparr>))"
  have "\<exists>s'. foldR ?f (epoch_histo_counts st) (st\<lparr>epoch_histo_bins := eb\<rparr>) = Inr s' \<and> ?P s'"
  proof (rule foldR_total)
    show "?P (st\<lparr>epoch_histo_bins := eb\<rparr>)" using eb(2) by simp
    fix p s assume p: "p \<in> set (epoch_histo_counts st)" and s: "?P s"
    obtain n ec where pp: "p = (n, ec)" by (cases p)
    have "n \<in> fst ` set (epoch_histo_counts st)" using p by (force simp: pp)
    then have n: "n \<in> set histo_names" using assms by (auto simp: stats_inv_def)
    then have hok: "histo_ok s n" using s by (simp add: stats_inv_def)
    let ?bs = "map2 (+) (get_or [] (histo_bins s) n) (get_or [] eb n)"
    have "length (get_or [] (histo_bins s) n) = length (get_or [] eb n)"
      using histo_okD(4) [OF hok] s by simp
    then have add: "add_bins (get_or [] (histo_bins s) n) (get_or [] eb n) = Inr ?bs"
      and l: "length ?bs = length (get_or [] (epoch_histo_bins s) n)"
      using s by (simp_all add: add_bins_def)
    have "stats_inv c (s\<lparr>histo_counts := hc, histo_bins := AList.update n ?bs (histo_bins s)\<rparr>)" for hc
      using stats_inv_update_bins [OF _ l] s by blast
    then show "\<exists>t. ?f p s = Inr t \<and> ?P t"
      unfolding pp using s add by (simp only: prod.case bindR_Inr) simp
  qed
  then obtain s' where "foldR ?f (epoch_histo_counts st) (st\<lparr>epoch_histo_bins := eb\<rparr>) = Inr s'" "?P s'"
    by blast
  then show ?thesis unfolding UpdateHistoBins_def eb(1) bindR_Inr by blast
qed

lemma zero_all_get: "get_or 0 (zero_all m (\<lambda>_. 0)) n = 0"
  by (induction m) (auto simp: zero_all_def get_or_def split: option.splits)

lemma zero_all_keys: "map fst (zero_all m z) = map fst m"
  by (simp add: zero_all_def case_prod_beta comp_def)

lemma zero_all_set: "(n, v) \<in> set (zero_all m z) \<Longrightarrow> \<exists>u. (n, u) \<in> set m \<and> v = z u"
  by (auto simp: zero_all_def)

lemma stats_inv_flush:
  assumes "stats_inv c st"
  shows "stats_inv c (st\<lparr>epoch_counters := zero_all (epoch_counters st) (\<lambda>_. 0),
    epoch_vec_counters := zero_all (epoch_vec_counters st) (\<lambda>v. replicate (length v) 0),
    epoch_histo_counts := zero_all (epoch_histo_counts st) (\<lambda>_. [])\<rparr>)"
proof -
  have k': "fst ` set (zero_all m z) = fst ` set m" for m :: "u64 list smap" and z
    using zero_all_keys [of m z] by (metis list.set_map)
  have k'': "fst ` set (zero_all m z) = fst ` set m" for m :: "HistoCount smap" and z
    using zero_all_keys [of m z] by (metis list.set_map)
  have "vec_ok c (zero_all (epoch_vec_counters st) (\<lambda>v. replicate (length v) 0))"
    using assms by (auto simp: stats_inv_def vec_ok_def zero_all_keys k' dest!: zero_all_set)
  then show ?thesis
    using assms by (simp add: stats_inv_def zero_all_keys k'')
qed

lemma UpdateEpochStats_total:
  assumes "stats_inv c st"
  shows "\<exists>st'. UpdateEpochStats st = Inr st' \<and> stats_inv c st' \<and>
    (\<forall>n. get_or 0 (epoch_counters st') n = 0 \<and>
      get_or 0 (counters st') n = get_or 0 (counters st) n + get_or 0 (epoch_counters st) n)"
proof -
  obtain s1 where s1: "UpdateCounters st = Inr s1" "stats_inv c s1"
    "\<forall>n. get_or 0 (counters s1) n = get_or 0 (counters st) n + get_or 0 (epoch_counters st) n"
    using UpdateCounters_total [OF assms] by blast
  obtain s2 where s2: "UpdateHistoBins s1 = Inr s2" "stats_inv c s2" "counters s2 = counters s1"
    using UpdateHistoBins_total [OF s1(2)] by blast
  show ?thesis
    using s1 s2 stats_inv_flush [OF s2(2)] by (simp add: UpdateEpochStats_def zero_all_get)
qed

section \<open>The account of all events\<close>

text \<open>How often the values that satisfy \<open>P\<close> were counted in a histogram.\<close>

definition tally :: "(int \<Rightarrow> bool) \<Rightarrow> HistoCount \<Rightarrow> u64" where
  "tally P h = (\<Sum>(v, n)\<leftarrow>h. if P v then n else 0)"

lemma tally_simps [simp]: "tally P [] = 0" "tally P ((v, n) # h) = (if P v then n else 0) + tally P h"
  by (simp_all add: tally_def)

lemma tally_update: "tally P (AList.update k (get_or 0 h k + x) h) = tally P h + (if P k then x else 0)"
  by (induction h) (auto simp: get_or_def)

lemma update_count:
  "(if map_of h k = None then AList.update k n h else AList.update k (get_or 0 h k + n) h) =
     AList.update k (get_or 0 h k + n) (h :: HistoCount)"
  by (cases "map_of h k") (simp_all add: get_or_def)

lemma tally_merge: "tally P (merge_counts e f) = tally P e + tally P f"
  unfolding merge_counts_def
proof (induction e arbitrary: f)
  case (Cons p e)
  then show ?case by (cases p) (simp add: update_count tally_update)
qed simp

lemma tally_AddValue:
  "tally P (get_or [] (epoch_histo_counts (AddValue st name v)) n) =
     tally P (get_or [] (epoch_histo_counts st) n) + (if n = name \<and> P v then 1 else 0)"
  by (simp add: AddValue_def Let_def update_count tally_update)

definition fill_bin :: "int \<times> int \<Rightarrow> int \<Rightarrow> int \<times> u64 \<Rightarrow> u64 list \<Rightarrow> u64 list result" where
  "fill_bin b w = (\<lambda>(value, count) bs.
     bindR (bin_index b w (length bs) value) (\<lambda>i. bindR (vec_at bs i) (\<lambda>x. vec_set bs i (x + count))))"

lemma fill_bin_step:
  assumes "fill_bin b w (v, n) bs = Inr bs'" and "i < length bs"
  shows "length bs' = length bs" and "bs' ! i = bs ! i + (if bin_index b w (length bs) v = Inr (int i) then n else 0)"
proof -
  obtain j where j: "bin_index b w (length bs) v = Inr j"
      "bindR (vec_at bs j) (\<lambda>x. vec_set bs j (x + n)) = Inr bs'"
    using assms(1) by (auto simp: fill_bin_def elim!: bindR_InrE)
  then have "0 \<le> j" "bs' = bs[nat j := bs ! nat j + n]"
    by (auto simp: vec_at_def vec_set_def split: if_splits elim!: bindR_InrE)
  then show "length bs' = length bs" "bs' ! i = bs ! i + (if bin_index b w (length bs) v = Inr (int i) then n else 0)"
    using assms(2) j(1) by (auto simp: nth_list_update)
qed

lemma fill_bins_nth:
  assumes "foldR (fill_bin b w) counts bs = Inr bs'" and "i < length bs"
  shows "length bs' = length bs \<and>
    bs' ! i = bs ! i + tally (\<lambda>v. bin_index b w (length bs) v = Inr (int i)) counts"
  using assms
proof (induction counts arbitrary: bs)
  case (Cons p counts)
  obtain v n where p: "p = (v, n)" by (cases p)
  obtain bs1 where s: "fill_bin b w (v, n) bs = Inr bs1" "foldR (fill_bin b w) counts bs1 = Inr bs'"
    using Cons.prems(1) by (auto simp: p elim!: bindR_InrE)
  note st = fill_bin_step [OF s(1) Cons.prems(2)]
  have "i < length bs1" using Cons.prems(2) st(1) by simp
  from Cons.IH [OF s(2) this] show ?case unfolding p tally_simps st by (simp only: st add.assoc simp_thms)
qed simp

text \<open>A loop that updates every key of a list once.\<close>

lemma foldR_update_keys:
  assumes "foldR (\<lambda>(k, v) m. bindR (f k (get_or d m k) v) (\<lambda>w. Inr (AList.update k w m))) l m = Inr m'"
    and "distinct (map fst l)"
  shows "case map_of l k of None \<Rightarrow> get_or d m' k = get_or d m k | Some v \<Rightarrow> f k (get_or d m k) v = Inr (get_or d m' k)"
  using assms
proof (induction l arbitrary: m)
  case (Cons p l)
  obtain k1 v1 where p: "p = (k1, v1)" by (cases p)
  obtain w where w: "f k1 (get_or d m k1) v1 = Inr w"
      and rec: "foldR (\<lambda>(k, v) m. bindR (f k (get_or d m k) v) (\<lambda>w. Inr (AList.update k w m))) l (AList.update k1 w m) = Inr m'"
    using Cons.prems(1) by (auto simp: p elim!: bindR_InrE)
  have n: "map_of l k1 = None" using Cons.prems(2) by (simp add: p map_of_eq_None_iff)
  have ih: "case map_of l k of None \<Rightarrow> get_or d m' k = get_or d (AList.update k1 w m) k
      | Some v \<Rightarrow> f k (get_or d (AList.update k1 w m) k) v = Inr (get_or d m' k)"
    using Cons.IH [OF rec] Cons.prems(2) by (simp add: p)
  show ?case
  proof (cases "k = k1")
    case True
    then show ?thesis using ih n w by (simp add: p)
  next
    case False
    then show ?thesis using ih by (cases "map_of l k") (simp_all add: p)
  qed
qed simp


text \<open>What the end of an epoch does to each part of the statistics.\<close>

lemma add_vec_nth:
  assumes "add_vec w v = Inr u" and "length v = length w" and "i < length w"
  shows "u ! i = w ! i + v ! i"
  using assms by (auto simp: add_vec_def)

lemma UpdateCounters_effect:
  assumes "stats_inv c st" and "UpdateCounters st = Inr s1"
  shows "\<exists>cs vs. s1 = st\<lparr>counters := cs, vec_counters := vs\<rparr> \<and>
    (\<forall>n. get_or 0 cs n = get_or 0 (counters st) n + get_or 0 (epoch_counters st) n) \<and>
    (\<forall>n \<in> set vec_names. \<forall>i < nat (ranks c).
       get_or [] vs n ! i = get_or [] (vec_counters st) n ! i + get_or [] (epoch_vec_counters st) n ! i)"
proof -
  let ?cs = "fold (\<lambda>(name, x) m. AList.update name (get_or 0 m name + x) m) (epoch_counters st) (counters st)"
  obtain vs where vs: "foldR (\<lambda>(name, v) m. bindR (add_vec (get_or [] m name) v) (\<lambda>w. Inr (AList.update name w m)))
      (epoch_vec_counters st) (vec_counters st) = Inr vs" and s1: "s1 = st\<lparr>counters := ?cs, vec_counters := vs\<rparr>"
    using assms(2) by (auto simp: UpdateCounters_def Let_def elim!: bindR_InrE)
  have inv: "vec_ok c (vec_counters st)" "vec_ok c (epoch_vec_counters st)" "distinct (map fst (epoch_counters st))"
    using assms(1) by (simp_all add: stats_inv_def)
  have "get_or [] vs n ! i = get_or [] (vec_counters st) n ! i + get_or [] (epoch_vec_counters st) n ! i"
    if n: "n \<in> set vec_names" and i: "i < nat (ranks c)" for n i
  proof -
    have "n \<in> fst ` set (epoch_vec_counters st)" using inv(2) n by (simp add: vec_ok_def)
    then obtain v where v: "map_of (epoch_vec_counters st) n = Some v" by (metis domD dom_map_of_conv_image_fst)
    have d: "distinct (map fst (epoch_vec_counters st))" using inv(2) by (simp add: vec_ok_def)
    have "add_vec (get_or [] (vec_counters st) n) v = Inr (get_or [] vs n)"
      using foldR_update_keys [where f = "\<lambda>_. add_vec", OF vs d, of n] v by simp
    moreover have "get_or [] (epoch_vec_counters st) n = v" using v by (simp add: get_or_def)
    ultimately show ?thesis using vec_ok_get [OF inv(1) n] vec_ok_get [OF inv(2) n] i by (intro add_vec_nth) simp_all
  qed
  then show ?thesis using s1 UpdateCounters_counters [OF inv(3)] by blast
qed

definition merge_histo :: "u64 list smap \<Rightarrow> string \<times> HistoCount \<Rightarrow> SimpleStats \<Rightarrow> SimpleStats result" where
  "merge_histo eb = (\<lambda>(name, epoch_counts) s.
     bindR (add_bins (get_or [] (histo_bins s) name) (get_or [] eb name)) (\<lambda>bs.
       Inr (s\<lparr>histo_counts := AList.update name (merge_counts epoch_counts (get_or [] (histo_counts s) name)) (histo_counts s),
              histo_bins := AList.update name bs (histo_bins s)\<rparr>)))"

lemma merge_histo_loop:
  assumes "foldR (merge_histo eb) l s = Inr s'" and "distinct (map fst l)"
  shows "\<exists>hc hb. s' = s\<lparr>histo_counts := hc, histo_bins := hb\<rparr> \<and>
    (\<forall>n. case map_of l n of
       None \<Rightarrow> get_or [] hc n = get_or [] (histo_counts s) n \<and> get_or [] hb n = get_or [] (histo_bins s) n
     | Some e \<Rightarrow> get_or [] hc n = merge_counts e (get_or [] (histo_counts s) n) \<and>
         add_bins (get_or [] (histo_bins s) n) (get_or [] eb n) = Inr (get_or [] hb n))"
  using assms
proof (induction l arbitrary: s)
  case Nil
  then show ?case by (intro exI [of _ "histo_counts s"] exI [of _ "histo_bins s"]) simp
next
  case (Cons p l)
  obtain n1 e1 where p: "p = (n1, e1)" by (cases p)
  obtain bs where bs: "add_bins (get_or [] (histo_bins s) n1) (get_or [] eb n1) = Inr bs"
    using Cons.prems(1) by (auto simp: p merge_histo_def elim!: bindR_InrE)
  let ?s = "s\<lparr>histo_counts := AList.update n1 (merge_counts e1 (get_or [] (histo_counts s) n1)) (histo_counts s),
              histo_bins := AList.update n1 bs (histo_bins s)\<rparr>"
  have "foldR (merge_histo eb) l ?s = Inr s'"
    using Cons.prems(1) bs by (simp add: p merge_histo_def)
  moreover have d: "distinct (map fst l)" "map_of l n1 = None"
    using Cons.prems(2) by (simp_all add: p map_of_eq_None_iff)
  ultimately obtain hc hb where h: "s' = ?s\<lparr>histo_counts := hc, histo_bins := hb\<rparr>"
      "\<And>n. case map_of l n of
         None \<Rightarrow> get_or [] hc n = get_or [] (histo_counts ?s) n \<and> get_or [] hb n = get_or [] (histo_bins ?s) n
       | Some e \<Rightarrow> get_or [] hc n = merge_counts e (get_or [] (histo_counts ?s) n) \<and>
           add_bins (get_or [] (histo_bins ?s) n) (get_or [] eb n) = Inr (get_or [] hb n)"
    using Cons.IH [of ?s] by blast
  have "case map_of (p # l) n of
       None \<Rightarrow> get_or [] hc n = get_or [] (histo_counts s) n \<and> get_or [] hb n = get_or [] (histo_bins s) n
     | Some e \<Rightarrow> get_or [] hc n = merge_counts e (get_or [] (histo_counts s) n) \<and>
         add_bins (get_or [] (histo_bins s) n) (get_or [] eb n) = Inr (get_or [] hb n)" for n
  proof (cases "n = n1")
    case True
    then show ?thesis using h(2) [of n1] d(2) bs by (simp add: p)
  next
    case False
    then show ?thesis using h(2) [of n] by (cases "map_of l n") (simp_all add: p)
  qed
  moreover have "s' = s\<lparr>histo_counts := hc, histo_bins := hb\<rparr>" using h(1) by simp
  ultimately show ?case by blast
qed


text \<open>The bin a value belongs to, with the bounds, the width and the number of bins in force.\<close>

definition in_bin :: "SimpleStats \<Rightarrow> string \<Rightarrow> nat \<Rightarrow> int \<Rightarrow> bool" where
  "in_bin st n i v \<longleftrightarrow> bin_index (get_or (0, 0) (histo_bounds st) n) (get_or 0 (bin_widths st) n)
     (length (get_or [] (histo_bins st) n)) v = Inr (int i)"

lemma epoch_bins_effect:
  assumes "stats_inv c st" and "n \<in> set histo_names"
    and "foldR (\<lambda>(name, bins) m. bindR (epoch_bins_of st name bins) (\<lambda>bs. Inr (AList.update name bs m)))
      (epoch_histo_bins st) (epoch_histo_bins st) = Inr eb"
  shows "length (get_or [] eb n) = length (get_or [] (histo_bins st) n)"
    and "i < length (get_or [] (histo_bins st) n) \<Longrightarrow>
      get_or [] eb n ! i = tally (in_bin st n i) (get_or [] (epoch_histo_counts st) n)"
proof -
  let ?b = "get_or (0, 0) (histo_bounds st) n" and ?w = "get_or 0 (bin_widths st) n"
  let ?cnt = "get_or [] (epoch_histo_counts st) n"
  have hok: "histo_ok st n" "distinct (map fst (epoch_histo_bins st))" using assms(1,2) by (simp_all add: stats_inv_def)
  obtain bins where bins: "map_of (epoch_histo_bins st) n = Some bins" using hok(1) unfolding histo_ok_def by blast
  then have g: "get_or [] (epoch_histo_bins st) n = bins" by (simp add: get_or_def)
  have l: "length bins = length (get_or [] (histo_bins st) n)" using histo_okD(4) [OF hok(1)] g by simp
  have "epoch_bins_of st n bins = Inr (get_or [] eb n)"
    using foldR_update_keys [where f = "\<lambda>k _. epoch_bins_of st k" and d = "[]", OF assms(3) hok(2), of n] bins by simp
  then have f: "foldR (fill_bin ?b ?w) ?cnt (replicate (length bins) 0) = Inr (get_or [] eb n)"
    by (simp add: epoch_bins_of_def fill_bins_def fill_bin_def)
  have "0 \<le> (snd ?b - fst ?b) div ?w" using histo_okD(1,2) [OF hok(1)] by (simp add: pos_imp_zdiv_nonneg_iff)
  then have "0 < length bins" using histo_okD(3) [OF hok(1)] unfolding g by linarith
  with fill_bins_nth [OF f, of 0] l show "length (get_or [] eb n) = length (get_or [] (histo_bins st) n)" by simp
  show "get_or [] eb n ! i = tally (in_bin st n i) ?cnt" if "i < length (get_or [] (histo_bins st) n)"
    using fill_bins_nth [OF f, of i] that l by (simp add: in_bin_def [abs_def])
qed

lemma UpdateHistoBins_effect:
  assumes "stats_inv c st" and "UpdateHistoBins st = Inr s1"
  shows "\<exists>eb hc hb. s1 = st\<lparr>epoch_histo_bins := eb, histo_counts := hc, histo_bins := hb\<rparr> \<and>
    (\<forall>n \<in> set histo_names.
       (\<forall>P. tally P (get_or [] hc n) =
          tally P (get_or [] (histo_counts st) n) + tally P (get_or [] (epoch_histo_counts st) n)) \<and>
       length (get_or [] hb n) = length (get_or [] (histo_bins st) n) \<and>
       (\<forall>i < length (get_or [] hb n). get_or [] hb n ! i = get_or [] (histo_bins st) n ! i +
          tally (in_bin st n i) (get_or [] (epoch_histo_counts st) n)))"
proof -
  obtain eb where eb: "foldR (\<lambda>(name, bins) m. bindR (epoch_bins_of st name bins) (\<lambda>bs. Inr (AList.update name bs m)))
      (epoch_histo_bins st) (epoch_histo_bins st) = Inr eb"
      and m: "foldR (merge_histo eb) (epoch_histo_counts st) (st\<lparr>epoch_histo_bins := eb\<rparr>) = Inr s1"
    using assms(2) unfolding UpdateHistoBins_def merge_histo_def by (rule bindR_InrE)
  have "distinct (map fst (epoch_histo_counts st))" using assms(1) by (simp add: stats_inv_def)
  from merge_histo_loop [OF m this] obtain hc hb where
    h: "s1 = st\<lparr>epoch_histo_bins := eb\<rparr>\<lparr>histo_counts := hc, histo_bins := hb\<rparr>"
      "\<And>n. case map_of (epoch_histo_counts st) n of
         None \<Rightarrow> get_or [] hc n = get_or [] (histo_counts (st\<lparr>epoch_histo_bins := eb\<rparr>)) n \<and>
           get_or [] hb n = get_or [] (histo_bins (st\<lparr>epoch_histo_bins := eb\<rparr>)) n
       | Some e \<Rightarrow> get_or [] hc n = merge_counts e (get_or [] (histo_counts (st\<lparr>epoch_histo_bins := eb\<rparr>)) n) \<and>
           add_bins (get_or [] (histo_bins (st\<lparr>epoch_histo_bins := eb\<rparr>)) n) (get_or [] eb n) = Inr (get_or [] hb n)"
    by blast
  have "(\<forall>P. tally P (get_or [] hc n) =
          tally P (get_or [] (histo_counts st) n) + tally P (get_or [] (epoch_histo_counts st) n)) \<and>
       length (get_or [] hb n) = length (get_or [] (histo_bins st) n) \<and>
       (\<forall>i < length (get_or [] hb n). get_or [] hb n ! i = get_or [] (histo_bins st) n ! i +
          tally (in_bin st n i) (get_or [] (epoch_histo_counts st) n))" if n: "n \<in> set histo_names" for n
  proof (cases "map_of (epoch_histo_counts st) n")
    case None
    then have "get_or [] (epoch_histo_counts st) n = []" by (simp add: get_or_def)
    with h(2) [of n] None show ?thesis by simp
  next
    case (Some e)
    then have e: "get_or [] (epoch_histo_counts st) n = e" by (simp add: get_or_def)
    note b = epoch_bins_effect [OF assms(1) n eb]
    have hb: "get_or [] hb n = map2 (+) (get_or [] (histo_bins st) n) (get_or [] eb n)"
      using h(2) [of n] Some by (auto simp: add_bins_def split: if_splits)
    have hc: "get_or [] hc n = merge_counts e (get_or [] (histo_counts st) n)" using h(2) [of n] Some by simp
    show ?thesis unfolding hc using b e by (simp add: hb tally_merge)
  qed
  with h(1) show ?thesis by blast
qed


subsection \<open>Runs\<close>

datatype stat_op = Count string | CountVec string int | CountVecBy string int int | Sample string int | EndEpoch

fun stat_step :: "stat_op \<Rightarrow> SimpleStats \<Rightarrow> SimpleStats result" where
  "stat_step (Count n) st = Inr (Increment st n)"
| "stat_step (CountVec n r) st = IncrementVec st n r"
| "stat_step (CountVecBy n r k) st = IncrementVecBy st n r k"
| "stat_step (Sample n v) st = Inr (AddValue st n v)"
| "stat_step EndEpoch st = UpdateEpochStats st"

fun stat_ok :: "Config \<Rightarrow> stat_op \<Rightarrow> bool" where
  "stat_ok c (CountVec n r) \<longleftrightarrow> n \<in> set vec_names \<and> 0 \<le> r \<and> r < ranks c"
| "stat_ok c (CountVecBy n r k) \<longleftrightarrow> n \<in> set vec_names \<and> 0 \<le> r \<and> r < ranks c"
| "stat_ok c (Sample n v) \<longleftrightarrow> n \<in> set histo_names"
| "stat_ok c _ \<longleftrightarrow> True"

text \<open>What each operation adds to a counter, to an entry of a vector, to a histogram.\<close>

fun counted :: "string \<Rightarrow> stat_op \<Rightarrow> u64" where
  "counted n (Count m) = (if m = n then 1 else 0)"
| "counted n _ = 0"

fun vec_counted :: "string \<Rightarrow> nat \<Rightarrow> stat_op \<Rightarrow> u64" where
  "vec_counted n i (CountVec m r) = (if m = n \<and> r = int i then 1 else 0)"
| "vec_counted n i (CountVecBy m r k) = (if m = n \<and> r = int i then of_int k else 0)"
| "vec_counted n i _ = 0"

fun sampled :: "string \<Rightarrow> (int \<Rightarrow> bool) \<Rightarrow> stat_op \<Rightarrow> u64" where
  "sampled n P (Sample m v) = (if m = n \<and> P v then 1 else 0)"
| "sampled n P _ = 0"

definition sum_over :: "(stat_op \<Rightarrow> u64) \<Rightarrow> stat_op list \<Rightarrow> u64" where
  "sum_over f ops = (\<Sum>x\<leftarrow>ops. f x)"

lemma sum_over_simps [simp]: "sum_over f [] = 0" "sum_over f (xs @ ys) = sum_over f xs + sum_over f ys" "sum_over f [x] = f x"
  by (simp_all add: sum_over_def)

text \<open>
  The histograms of the simulator: ten bins up to 100 cycles for the time between arrivals, up
  to 200 for the latencies, one below and one above.
\<close>

definition histo_end :: "string \<Rightarrow> int" where
  "histo_end n = (if n = ''interarrival_latency'' then 100 else 200)"

definition bin_of :: "string \<Rightarrow> int \<Rightarrow> nat" where
  "bin_of n v = (if v < 0 then 0 else if histo_end n < v then 11 else nat (v div (histo_end n div 10)) + 1)"

definition bins_fixed :: "SimpleStats \<Rightarrow> bool" where
  "bins_fixed st \<longleftrightarrow> (\<forall>n \<in> set histo_names. get_or (0, 0) (histo_bounds st) n = (0, histo_end n) \<and>
     get_or 0 (bin_widths st) n = histo_end n div 10 \<and> length (get_or [] (histo_bins st) n) = 12)"

lemma in_bin_fixed:
  assumes "bins_fixed st" and "n \<in> set histo_names"
  shows "in_bin st n i v \<longleftrightarrow> bin_of n v = i"
proof -
  have "0 < histo_end n div 10" by (simp add: histo_end_def)
  then have "bin_index (0, histo_end n) (histo_end n div 10) 12 v = Inr (int (bin_of n v))"
    by (auto simp: bin_index_def bin_of_def div_int_def c_div_nonneg pos_imp_zdiv_nonneg_iff)
  with assms show ?thesis by (simp add: in_bin_def bins_fixed_def)
qed

text \<open>
  The statistics account for the operations: the totals for those in \<open>F\<close>, up to the last end
  of an epoch, the values of the epoch for those in \<open>C\<close>, since then.
\<close>

definition accounts :: "Config \<Rightarrow> stat_op list \<Rightarrow> stat_op list \<Rightarrow> SimpleStats \<Rightarrow> bool" where
  "accounts c F C st \<longleftrightarrow>
     (\<forall>n. get_or 0 (counters st) n = sum_over (counted n) F \<and> get_or 0 (epoch_counters st) n = sum_over (counted n) C) \<and>
     (\<forall>n \<in> set vec_names. \<forall>i < nat (ranks c).
        get_or [] (vec_counters st) n ! i = sum_over (vec_counted n i) F \<and>
        get_or [] (epoch_vec_counters st) n ! i = sum_over (vec_counted n i) C) \<and>
     (\<forall>n \<in> set histo_names.
        (\<forall>P. tally P (get_or [] (histo_counts st) n) = sum_over (sampled n P) F \<and>
           tally P (get_or [] (epoch_histo_counts st) n) = sum_over (sampled n P) C) \<and>
        (\<forall>i < 12. get_or [] (histo_bins st) n ! i = sum_over (sampled n (\<lambda>v. bin_of n v = i)) F))"

lemma IncrementVecBy_effect:
  assumes "stats_inv c st" and "n \<in> set vec_names" and "0 \<le> r" and "r < ranks c"
  shows "\<exists>m. IncrementVecBy st n r k = Inr (st\<lparr>epoch_vec_counters := m\<rparr>) \<and> vec_ok c m \<and>
    (\<forall>n' i. get_or [] m n' ! i = get_or [] (epoch_vec_counters st) n' ! i +
       (if n' = n \<and> r = int i then of_int k else 0))"
proof -
  let ?v = "get_or [] (epoch_vec_counters st) n"
  let ?m = "AList.update n (?v[nat r := ?v ! nat r + of_int k]) (epoch_vec_counters st)"
  have ok: "vec_ok c (epoch_vec_counters st)" using assms(1) by (simp add: stats_inv_def)
  have l: "length ?v = nat (ranks c)" using vec_ok_get [OF ok assms(2)] .
  have "IncrementVecBy st n r k = Inr (st\<lparr>epoch_vec_counters := ?m\<rparr>)"
    using assms(3,4) l by (simp add: IncrementVecBy_def vec_at_def vec_set_def)
  moreover have "vec_ok c ?m" using vec_ok_update [OF ok assms(2)] l by simp
  moreover have "get_or [] ?m n' ! i = get_or [] (epoch_vec_counters st) n' ! i +
       (if n' = n \<and> r = int i then of_int k else 0)" for n' i
    using assms(3,4) l by (auto simp: nth_list_update)
  ultimately show ?thesis by blast
qed

lemma IncrementVec_By: "IncrementVec st n r = IncrementVecBy st n r 1"
  by (simp add: IncrementVec_def IncrementVecBy_def)

lemma stat_step_records:
  assumes "stats_inv c st" and "bins_fixed st" and "accounts c F C st" and "stat_ok c x" and "x \<noteq> EndEpoch"
  shows "\<exists>st'. stat_step x st = Inr st' \<and> stats_inv c st' \<and> bins_fixed st' \<and> accounts c F (C @ [x]) st'"
proof (cases x)
  case (Count m)
  then show ?thesis
    using assms(1-3) by (simp add: accounts_def bins_fixed_def) (auto simp: Increment_def)
next
  case (CountVec m r)
  then have m: "m \<in> set vec_names" "0 \<le> r" "r < ranks c" using assms(4) by simp_all
  obtain t where t: "IncrementVecBy st m r 1 = Inr (st\<lparr>epoch_vec_counters := t\<rparr>)" "vec_ok c t"
      "\<And>n' i. get_or [] t n' ! i = get_or [] (epoch_vec_counters st) n' ! i + (if n' = m \<and> r = int i then 1 else 0)"
    using IncrementVecBy_effect [OF assms(1) m, of 1] by auto
  with assms(1-3) CountVec show ?thesis
    by (auto simp: IncrementVec_By stats_inv_def accounts_def bins_fixed_def)
next
  case (CountVecBy m r k)
  then have m: "m \<in> set vec_names" "0 \<le> r" "r < ranks c" using assms(4) by simp_all
  obtain t where t: "IncrementVecBy st m r k = Inr (st\<lparr>epoch_vec_counters := t\<rparr>)" "vec_ok c t"
      "\<And>n' i. get_or [] t n' ! i = get_or [] (epoch_vec_counters st) n' ! i + (if n' = m \<and> r = int i then of_int k else 0)"
    using IncrementVecBy_effect [OF assms(1) m, of k] by auto
  with assms(1-3) CountVecBy show ?thesis
    by (auto simp: stats_inv_def accounts_def bins_fixed_def)
next
  case (Sample m v)
  have f: "counters (AddValue st m v) = counters st" "epoch_counters (AddValue st m v) = epoch_counters st"
    "vec_counters (AddValue st m v) = vec_counters st" "epoch_vec_counters (AddValue st m v) = epoch_vec_counters st"
    "histo_counts (AddValue st m v) = histo_counts st" "histo_bins (AddValue st m v) = histo_bins st"
    "histo_bounds (AddValue st m v) = histo_bounds st" "bin_widths (AddValue st m v) = bin_widths st"
    by (simp_all add: AddValue_def Let_def)
  have "m \<in> set histo_names" using assms(4) Sample by simp
  from AddValue_inv [OF assms(1) this, of v] assms(2,3) Sample show ?thesis
    by (auto simp: accounts_def bins_fixed_def f tally_AddValue)
next
  case EndEpoch
  with assms(5) show ?thesis by simp
qed


lemma zero_all_vec:
  assumes "vec_ok c m" and "n \<in> set vec_names" and "i < nat (ranks c)"
  shows "get_or [] (zero_all m (\<lambda>v. replicate (length v) 0)) n ! i = 0"
proof -
  have "get_or [] (zero_all m (\<lambda>v. replicate (length v) 0)) n = replicate (length (get_or [] m n)) 0"
    by (induction m) (auto simp: zero_all_def get_or_def split: option.splits)
  with vec_ok_get [OF assms(1,2)] assms(3) show ?thesis by simp
qed

lemma zero_all_histo: "get_or [] (zero_all m (\<lambda>_. [])) n = []"
  by (induction m) (auto simp: zero_all_def get_or_def split: option.splits)

lemma EndEpoch_records:
  assumes "stats_inv c st" and "bins_fixed st" and "accounts c F C st"
  shows "\<exists>st'. UpdateEpochStats st = Inr st' \<and> stats_inv c st' \<and> bins_fixed st' \<and> accounts c (F @ C @ [EndEpoch]) [] st'"
proof -
  obtain s1 where s1: "UpdateCounters st = Inr s1" "stats_inv c s1" using UpdateCounters_total [OF assms(1)] by blast
  obtain s2 where s2: "UpdateHistoBins s1 = Inr s2" "stats_inv c s2" using UpdateHistoBins_total [OF s1(2)] by blast
  obtain cs vs where c1: "s1 = st\<lparr>counters := cs, vec_counters := vs\<rparr>"
      "\<And>n. get_or 0 cs n = get_or 0 (counters st) n + get_or 0 (epoch_counters st) n"
      "\<And>n i. n \<in> set vec_names \<Longrightarrow> i < nat (ranks c) \<Longrightarrow>
         get_or [] vs n ! i = get_or [] (vec_counters st) n ! i + get_or [] (epoch_vec_counters st) n ! i"
    using UpdateCounters_effect [OF assms(1) s1(1)] by blast
  obtain eb hc hb where c2: "s2 = s1\<lparr>epoch_histo_bins := eb, histo_counts := hc, histo_bins := hb\<rparr>"
      and h: "\<And>n P. n \<in> set histo_names \<Longrightarrow> tally P (get_or [] hc n) =
          tally P (get_or [] (histo_counts s1) n) + tally P (get_or [] (epoch_histo_counts s1) n)"
      and l: "\<And>n. n \<in> set histo_names \<Longrightarrow> length (get_or [] hb n) = length (get_or [] (histo_bins s1) n)"
      and b: "\<And>n i. n \<in> set histo_names \<Longrightarrow> i < length (get_or [] hb n) \<Longrightarrow> get_or [] hb n ! i =
          get_or [] (histo_bins s1) n ! i + tally (in_bin s1 n i) (get_or [] (epoch_histo_counts s1) n)"
    using UpdateHistoBins_effect [OF s1(2) s2(1)] by blast
  have s1': "bins_fixed s1" "histo_counts s1 = histo_counts st" "epoch_histo_counts s1 = epoch_histo_counts st"
      "histo_bins s1 = histo_bins st" using assms(2) by (simp_all add: c1(1) bins_fixed_def)
  let ?s = "s2\<lparr>epoch_counters := zero_all (epoch_counters s2) (\<lambda>_. 0),
      epoch_vec_counters := zero_all (epoch_vec_counters s2) (\<lambda>v. replicate (length v) 0),
      epoch_histo_counts := zero_all (epoch_histo_counts s2) (\<lambda>_. [])\<rparr>"
  have tl: "length (get_or [] hb n) = 12" if "n \<in> set histo_names" for n
    using l [OF that] s1'(1) that by (simp add: bins_fixed_def)
  have fx: "bins_fixed ?s" using s1'(1) tl by (simp add: bins_fixed_def c2)
  have vo: "vec_ok c (epoch_vec_counters s2)" using s2(2) by (simp add: stats_inv_def)
  have bin: "in_bin s1 n i = (\<lambda>v. bin_of n v = i)" if "n \<in> set histo_names" for n i
    using in_bin_fixed [OF s1'(1) that] by blast
  have "accounts c (F @ C @ [EndEpoch]) [] ?s"
    unfolding accounts_def
  proof (intro conjI allI ballI impI)
    fix n
    show "get_or 0 (counters ?s) n = sum_over (counted n) (F @ C @ [EndEpoch])"
      using assms(3) c1(2) by (simp add: c2 c1(1) accounts_def)
    show "get_or 0 (epoch_counters ?s) n = sum_over (counted n) []" by (simp add: zero_all_get)
  next
    fix n i assume n: "n \<in> set vec_names" and i: "i < nat (ranks c)"
    show "get_or [] (vec_counters ?s) n ! i = sum_over (vec_counted n i) (F @ C @ [EndEpoch])"
      using assms(3) c1(3) [OF n i] n i by (simp add: c2 c1(1) accounts_def)
    show "get_or [] (epoch_vec_counters ?s) n ! i = sum_over (vec_counted n i) []"
      using zero_all_vec [OF vo n i] by simp
  next
    fix n P assume n: "n \<in> set histo_names"
    show "tally P (get_or [] (histo_counts ?s) n) = sum_over (sampled n P) (F @ C @ [EndEpoch])"
      using assms(3) h [OF n, of P] n by (simp add: c2 s1' accounts_def)
    show "tally P (get_or [] (epoch_histo_counts ?s) n) = sum_over (sampled n P) []" by (simp add: zero_all_histo)
  next
    fix n i assume n: "n \<in> set histo_names" and i: "(i :: nat) < 12"
    show "get_or [] (histo_bins ?s) n ! i = sum_over (sampled n (\<lambda>v. bin_of n v = i)) (F @ C @ [EndEpoch])"
      using assms(3) b [OF n, of i] n i tl [OF n] by (simp add: c2 s1' accounts_def bin [OF n])
  qed
  then show ?thesis using s1 s2 stats_inv_flush [OF s2(2)] fx by (simp add: UpdateEpochStats_def)
qed

text \<open>The operations up to the last end of an epoch, and those since.\<close>

definition flushed :: "stat_op list \<Rightarrow> stat_op list" where
  "flushed ops = rev (dropWhile (\<lambda>x. x \<noteq> EndEpoch) (rev ops))"

definition current :: "stat_op list \<Rightarrow> stat_op list" where
  "current ops = rev (takeWhile (\<lambda>x. x \<noteq> EndEpoch) (rev ops))"

lemma epoch_split: "flushed ops @ current ops = ops"
  unfolding flushed_def current_def by (metis rev_append rev_rev_ident takeWhile_dropWhile_id)

lemma epoch_snoc:
  "flushed (ops @ [x]) = (if x = EndEpoch then ops @ [x] else flushed ops)"
  "current (ops @ [x]) = (if x = EndEpoch then [] else current ops @ [x])"
  by (simp_all add: flushed_def current_def)

lemma get_or_emplace: "get_or d (emplace k d m) n = get_or d m n"
  by (cases "map_of m k") (auto simp: emplace_def get_or_def update_conv')

lemma mk_SimpleStats_accounts: "bins_fixed (mk_SimpleStats c)" "accounts c [] [] (mk_SimpleStats c)"
proof -
  have z: "get_or 0 (counters (fold InitStat ns st)) n = get_or 0 (counters st) n \<and>
      get_or 0 (epoch_counters (fold InitStat ns st)) n = get_or 0 (epoch_counters st) n" for ns st n
    by (induction ns arbitrary: st) (simp_all add: InitStat_def get_or_emplace)
  have "counters (mk_SimpleStats c) = counters (fold InitStat counter_names SimpleStats0)"
    "epoch_counters (mk_SimpleStats c) = epoch_counters (fold InitStat counter_names SimpleStats0)"
    by (simp_all add: mk_SimpleStats_def InitHistoStat_def InitVecStat_def Let_def)
  then have k: "get_or 0 (counters (mk_SimpleStats c)) n = 0" "get_or 0 (epoch_counters (mk_SimpleStats c)) n = 0" for n
    using z [of counter_names SimpleStats0 n] by (simp_all add: SimpleStats0_def get_or_def)
  have hc: "get_or [] (histo_counts (mk_SimpleStats c)) n = []" for n
  proof -
    have "histo_counts (fold InitStat ns st) = histo_counts st" for ns st
      by (induction ns arbitrary: st) (simp_all add: InitStat_def)
    then show ?thesis by (simp add: mk_SimpleStats_def SimpleStats0_def emplace_def Let_def get_or_def)
  qed
  show "bins_fixed (mk_SimpleStats c)"
    by (auto simp: bins_fixed_def mk_SimpleStats_fields histo_names_def histo_end_def)
  show "accounts c [] [] (mk_SimpleStats c)"
    by (auto simp: accounts_def k hc mk_SimpleStats_fields vec_names_def histo_names_def)
qed

section \<open>Properties of the statistics\<close>

text \<open>
  C19: The statistics account for every event. After any sequence of counts, vector counts,
  samples and ends of epochs, each known to the statistics, every counter, every entry of a
  vector counter and every histogram equals, modulo \<open>2 ^ 64\<close>, the number of its events: the
  totals those up to the last end of an epoch, the values of the epoch those since. Each bin
  of a histogram holds the number of samples whose value falls into it.
\<close>

theorem statistics_account_for_events:
  assumes "list_all (stat_ok c) ops"
  shows "\<exists>st. foldR stat_step ops (mk_SimpleStats c) = Inr st \<and> accounts c (flushed ops) (current ops) st"
proof -
  have "\<exists>st. foldR stat_step ops (mk_SimpleStats c) = Inr st \<and> stats_inv c st \<and> bins_fixed st \<and>
      accounts c (flushed ops) (current ops) st"
    using assms
  proof (induction ops rule: rev_induct)
    case Nil
    show ?case using stats_inv_mk_SimpleStats mk_SimpleStats_accounts by (simp add: flushed_def current_def)
  next
    case (snoc x ops)
    then obtain st where st: "foldR stat_step ops (mk_SimpleStats c) = Inr st" "stats_inv c st" "bins_fixed st"
        "accounts c (flushed ops) (current ops) st" and x: "stat_ok c x" by auto
    show ?case
    proof (cases "x = EndEpoch")
      case True
      obtain st' where "UpdateEpochStats st = Inr st'" "stats_inv c st'" "bins_fixed st'"
          "accounts c (flushed ops @ current ops @ [EndEpoch]) [] st'"
        using EndEpoch_records [OF st(2-4)] by blast
      moreover from this(4) have "accounts c (ops @ [EndEpoch]) [] st'" by (simp add: epoch_split flip: append_assoc)
      ultimately show ?thesis using st(1) True by (simp add: foldR_append epoch_snoc)
    next
      case False
      then show ?thesis
        using stat_step_records [OF st(2-4) x False] st(1) by (auto simp: foldR_append epoch_snoc)
    qed
  qed
  then show ?thesis by blast
qed

theorem statistics_account_for_events_witness:
  "\<exists>st. foldR stat_step [Count ''num_cycles'', CountVec ''sref_cycles'' 1, Sample ''read_latency'' 35, EndEpoch,
       Sample ''read_latency'' 250, Count ''num_cycles'', Sample ''read_latency'' 21, EndEpoch, Count ''num_cycles''] (mk_SimpleStats ddr4_config) = Inr st \<and>
     get_or 0 (counters st) ''num_cycles'' = 2 \<and> get_or 0 (epoch_counters st) ''num_cycles'' = 1 \<and>
     get_or [] (vec_counters st) ''sref_cycles'' ! 1 = 1 \<and>
     get_or [] (histo_bins st) ''read_latency'' ! 2 = 2 \<and> get_or [] (histo_bins st) ''read_latency'' ! 11 = 1"
proof -
  let ?ops = "[Count ''num_cycles'', CountVec ''sref_cycles'' 1, Sample ''read_latency'' 35, EndEpoch,
       Sample ''read_latency'' 250, Count ''num_cycles'', Sample ''read_latency'' 21, EndEpoch, Count ''num_cycles'']"
  have r: "ranks ddr4_config = 2" by (simp add: ddr4_config_def)
  then have "list_all (stat_ok ddr4_config) ?ops" by (simp add: vec_names_def histo_names_def)
  from statistics_account_for_events [OF this] obtain st where
    st: "foldR stat_step ?ops (mk_SimpleStats ddr4_config) = Inr st" "accounts ddr4_config (flushed ?ops) (current ?ops) st"
    by blast
  have n: "''sref_cycles'' \<in> set vec_names" "''read_latency'' \<in> set histo_names" by (simp_all add: vec_names_def histo_names_def)
  have a: "get_or 0 (counters st) ''num_cycles'' = sum_over (counted ''num_cycles'') (flushed ?ops)"
    "get_or 0 (epoch_counters st) ''num_cycles'' = sum_over (counted ''num_cycles'') (current ?ops)"
    "get_or [] (vec_counters st) ''sref_cycles'' ! 1 = sum_over (vec_counted ''sref_cycles'' 1) (flushed ?ops)"
    "get_or [] (histo_bins st) ''read_latency'' ! 2 = sum_over (sampled ''read_latency'' (\<lambda>v. bin_of ''read_latency'' v = 2)) (flushed ?ops)"
    "get_or [] (histo_bins st) ''read_latency'' ! 11 = sum_over (sampled ''read_latency'' (\<lambda>v. bin_of ''read_latency'' v = 11)) (flushed ?ops)"
    using st(2) n r unfolding accounts_def by simp_all
  have e: "flushed ?ops = butlast ?ops" "current ?ops = [last ?ops]" by (simp_all add: flushed_def current_def)
  show ?thesis
    by (intro exI [of _ st] conjI, rule st(1)) (simp_all only: a e, simp_all add: sum_over_def bin_of_def histo_end_def)
qed

text \<open>
  C20: The histogram of an epoch accounts for every sample. With bounds, bin width and number
  of bins as \<open>InitHistoStat\<close> chooses them, filling the bins never leaves the vector, and
  the bins sum to the number of recorded samples.
\<close>

theorem histogram_keeps_samples:
  assumes "fst b \<le> snd b" and "0 < w" and "(snd b - fst b) div w + 2 \<le> int (length bins)"
  shows "\<exists>bs. fill_bins b w counts bins = Inr bs \<and> length bs = length bins \<and>
    sum_list bs = sum_list (map snd counts)"
  by (rule fill_bins_total [OF assms])

theorem histogram_keeps_samples_witness:
  "\<exists>bs. fill_bins (0, 200) 20 [(-3, 1), (200, 5), (7, 2), (201, 4)] (replicate 12 0) = Inr bs \<and>
     length bs = 12 \<and> sum_list bs = 12"
proof -
  have h: "fst (0 :: int, 200 :: int) \<le> snd (0 :: int, 200 :: int)" "0 < (20 :: int)"
    "(snd (0 :: int, 200 :: int) - fst (0 :: int, 200 :: int)) div 20 + 2 \<le> int (length (replicate 12 (0 :: u64)))"
    by simp_all
  from histogram_keeps_samples [OF h, of "[(-3, 1), (200, 5), (7, 2), (201, 4)]"] show ?thesis by simp
qed

end
