(* ===== verification/Command_Queue.thy ===== *)
theory Command_Queue
  imports Channel_Trace Simple_Stats
begin

text \<open>
  \<open>DRAMSIM3/src/command_queue.h\<close> and \<open>command_queue.cc\<close>: the queues of DRAM commands waiting
  for their bank, one per bank or per rank, the round-robin choice of the next command, and
  the suspension of the queues a refresh waits for. The queue reads the channel state and
  counts on-demand precharges in the statistics, which it holds by reference; both are
  arguments here, and the statistics are returned.
\<close>

section \<open>The queues\<close>

datatype QueueStructure = PER_RANK | PER_BANK | SIZE_STRUCTURE

record CommandQueue =
  rank_q_empty :: "bool list"
  cq_structure :: QueueStructure
  queues :: "Command list list"
  ref_q_indices :: "int set"
  is_in_ref :: bool
  num_queues :: int
  queue_size :: u64
  queue_idx :: int
  cq_clk :: u64

definition mk_CommandQueue :: "Config \<Rightarrow> CommandQueue result" where
  "mk_CommandQueue c =
     bindR (if queue_structure c = ''PER_BANK'' then Inr (PER_BANK, banks c * ranks c)
            else if queue_structure c = ''PER_RANK'' then Inr (PER_RANK, ranks c)
            else Inl (AbruptExit ''command_queue.cc'' 25)) (\<lambda>(structure, num).
       if num < 0 \<or> (0 < num \<and> cmd_queue_size c < 0) then Inl LengthError
       else Inr \<lparr>rank_q_empty = replicate (nat (ranks c)) True, cq_structure = structure,
              queues = replicate (nat num) [], ref_q_indices = {}, is_in_ref = False,
              num_queues = num, queue_size = of_int (cmd_queue_size c), queue_idx = 0,
              cq_clk = 0\<rparr>)"

definition GetQueueIndex :: "Config \<Rightarrow> CommandQueue \<Rightarrow> int \<Rightarrow> int \<Rightarrow> int \<Rightarrow> int" where
  "GetQueueIndex c cq r j k =
     (if cq_structure cq = PER_RANK then r else r * banks c + j * banks_per_group c + k)"

definition GetQueue :: "Config \<Rightarrow> CommandQueue \<Rightarrow> int \<Rightarrow> int \<Rightarrow> int \<Rightarrow> Command list result" where
  "GetQueue c cq r j k = vec_at (queues cq) (GetQueueIndex c cq r j k)"

definition WillAcceptCommand :: "Config \<Rightarrow> CommandQueue \<Rightarrow> int \<Rightarrow> int \<Rightarrow> int \<Rightarrow> bool result" where
  "WillAcceptCommand c cq r j k =
     bindR (vec_at (queues cq) (GetQueueIndex c cq r j k)) (\<lambda>q.
       Inr (length q < unat (queue_size cq)))"

definition QueueEmpty :: "CommandQueue \<Rightarrow> bool" where
  "QueueEmpty cq \<longleftrightarrow> (\<forall>q \<in> set (queues cq). q = [])"

definition QueueUsage :: "CommandQueue \<Rightarrow> int" where
  "QueueUsage cq = fold (\<lambda>q usage. usage + int (length q)) (queues cq) 0"

definition cq_ClockTick :: "CommandQueue \<Rightarrow> CommandQueue" where
  "cq_ClockTick cq = cq\<lparr>cq_clk := cq_clk cq + 1\<rparr>"

definition AddCommand :: "Config \<Rightarrow> CommandQueue \<Rightarrow> Command \<Rightarrow> (bool \<times> CommandQueue) result" where
  "AddCommand c cq cmd =
     bindR (GetQueue c cq (Rank cmd) (Bankgroup cmd) (Bank cmd)) (\<lambda>q.
       if length q < unat (queue_size cq) then
         bindR (vec_set (queues cq) (GetQueueIndex c cq (Rank cmd) (Bankgroup cmd) (Bank cmd))
                  (q @ [cmd])) (\<lambda>qs.
         bindR (vec_set (rank_q_empty cq) (Rank cmd) False) (\<lambda>e.
           Inr (True, cq\<lparr>queues := qs, rank_q_empty := e\<rparr>)))
       else Inr (False, cq))"

definition GetNextQueue :: "CommandQueue \<Rightarrow> (Command list \<times> CommandQueue) result" where
  "GetNextQueue cq =
     (let i = queue_idx cq + 1;
          cq1 = cq\<lparr>queue_idx := (if i = num_queues cq then 0 else i)\<rparr>
      in bindR (vec_at (queues cq1) (queue_idx cq1)) (\<lambda>q. Inr (q, cq1)))"

section \<open>Refreshes\<close>

definition GetRefQIndices :: "Config \<Rightarrow> CommandQueue \<Rightarrow> Command \<Rightarrow> CommandQueue result" where
  "GetRefQIndices c cq ref =
     (if cmd_type ref = REFRESH then
        if cq_structure cq = PER_BANK then
          foldR (\<lambda>i cq1.
            bindR (div_int i (banks c)) (\<lambda>d.
              if d = Rank ref then Inr (cq1\<lparr>ref_q_indices := insert i (ref_q_indices cq1)\<rparr>)
              else Inr cq1)) [0 .. num_queues cq - 1] cq
        else Inr (cq\<lparr>ref_q_indices := insert (Rank ref) (ref_q_indices cq)\<rparr>)
      else
        Inr (cq\<lparr>ref_q_indices :=
          insert (GetQueueIndex c cq (Rank ref) (Bankgroup ref) (Bank ref)) (ref_q_indices cq)\<rparr>))"

definition FinishRefresh ::
  "Config \<Rightarrow> ChannelState \<Rightarrow> CommandQueue \<Rightarrow> (Command \<times> CommandQueue) result" where
  "FinishRefresh c s cq =
     bindR (PendingRefCommand s) (\<lambda>ref.
     bindR (if \<not> is_in_ref cq
            then bindR (GetRefQIndices c cq ref) (\<lambda>cq1. Inr (cq1\<lparr>is_in_ref := True\<rparr>))
            else Inr cq) (\<lambda>cq1.
     bindR (chan_GetReadyCommand c s ref (cq_clk cq1)) (\<lambda>cmd.
       if IsRefresh cmd then Inr (cmd, cq1\<lparr>ref_q_indices := {}, is_in_ref := False\<rparr>)
       else Inr (cmd, cq1))))"

section \<open>Choice of the next command\<close>

text \<open>
  An iterator into a queue is the split of the queue at its position: the commands before
  it, the command it points to, and the commands after it.
\<close>

definition same_bank_cmd :: "Command \<Rightarrow> Command \<Rightarrow> bool" where
  "same_bank_cmd p cmd \<longleftrightarrow> Rank p = Rank cmd \<and> Bankgroup p = Bankgroup cmd \<and> Bank p = Bank cmd"

definition ArbitratePrecharge ::
  "ChannelState \<Rightarrow> SimpleStats \<Rightarrow> Command list \<Rightarrow> Command \<Rightarrow> Command list \<Rightarrow>
   (bool \<times> SimpleStats) result" where
  "ArbitratePrecharge s st prev cmd rest =
     (if \<exists>p \<in> set prev. same_bank_cmd p cmd then Inr (False, st)
      else
        bindR (chan_OpenRow s (Rank cmd) (Bankgroup cmd) (Bank cmd)) (\<lambda>open_row.
        let pending_row_hits_exist =
              (\<exists>p \<in> set (cmd # rest). Row p = open_row \<and> same_bank_cmd p cmd)
        in bindR (chan_RowHitCount s (Rank cmd) (Bankgroup cmd) (Bank cmd)) (\<lambda>count.
             if \<not> pending_row_hits_exist \<or> 4 \<le> count
             then Inr (True, Increment st ''num_ondemand_pres'')
             else Inr (False, st))))"

definition HasRWDependency :: "Command list \<Rightarrow> Command \<Rightarrow> bool" where
  "HasRWDependency prev cmd \<longleftrightarrow>
     (\<exists>p \<in> set prev. IsRead p \<and> Row p = Row cmd \<and> Column p = Column cmd \<and>
        Bank p = Bank cmd \<and> Bankgroup p = Bankgroup cmd)"

fun first_ready_loop ::
  "Config \<Rightarrow> ChannelState \<Rightarrow> u64 \<Rightarrow> Command list \<Rightarrow> Command list \<Rightarrow> SimpleStats \<Rightarrow>
   (Command \<times> SimpleStats) result" where
  "first_ready_loop c s clk prev [] st = Inr (Command0, st)"
| "first_ready_loop c s clk prev (req # rest) st =
     bindR (chan_GetReadyCommand c s req clk) (\<lambda>cmd.
       if \<not> IsValid cmd then first_ready_loop c s clk (prev @ [req]) rest st
       else if cmd_type cmd = PRECHARGE then
         bindR (ArbitratePrecharge s st prev req rest) (\<lambda>(ok, st1).
           if \<not> ok then first_ready_loop c s clk (prev @ [req]) rest st1 else Inr (cmd, st1))
       else if IsWrite cmd \<and> HasRWDependency prev req
       then first_ready_loop c s clk (prev @ [req]) rest st
       else Inr (cmd, st))"

definition GetFirstReadyInQueue ::
  "Config \<Rightarrow> ChannelState \<Rightarrow> u64 \<Rightarrow> Command list \<Rightarrow> SimpleStats \<Rightarrow> (Command \<times> SimpleStats) result" where
  "GetFirstReadyInQueue c s clk q st = first_ready_loop c s clk [] q st"

definition EraseRWCommand :: "Config \<Rightarrow> CommandQueue \<Rightarrow> Command \<Rightarrow> CommandQueue result" where
  "EraseRWCommand c cq cmd =
     bindR (GetQueue c cq (Rank cmd) (Bankgroup cmd) (Bank cmd)) (\<lambda>q.
       if \<exists>p \<in> set q. hex_addr cmd = hex_addr p \<and> cmd_type cmd = cmd_type p then
         bindR (vec_set (queues cq) (GetQueueIndex c cq (Rank cmd) (Bankgroup cmd) (Bank cmd))
                  (erase_first (\<lambda>p. hex_addr cmd = hex_addr p \<and> cmd_type cmd = cmd_type p) q)) (\<lambda>qs.
           Inr (cq\<lparr>queues := qs\<rparr>))
       else Inl (Exit 1))"

fun issue_loop ::
  "Config \<Rightarrow> ChannelState \<Rightarrow> nat \<Rightarrow> CommandQueue \<Rightarrow> SimpleStats \<Rightarrow>
   (Command \<times> CommandQueue \<times> SimpleStats) result" where
  "issue_loop c s 0 cq st = Inr (Command0, cq, st)"
| "issue_loop c s (Suc n) cq st =
     bindR (GetNextQueue cq) (\<lambda>(q, cq1).
       if is_in_ref cq1 \<and> queue_idx cq1 \<in> ref_q_indices cq1 then issue_loop c s n cq1 st
       else
         bindR (GetFirstReadyInQueue c s (cq_clk cq1) q st) (\<lambda>(cmd, st1).
           if IsValid cmd then
             if IsReadWrite cmd then
               bindR (EraseRWCommand c cq1 cmd) (\<lambda>cq2. Inr (cmd, cq2, st1))
             else Inr (cmd, cq1, st1)
           else issue_loop c s n cq1 st1))"

definition GetCommandToIssue ::
  "Config \<Rightarrow> ChannelState \<Rightarrow> CommandQueue \<Rightarrow> SimpleStats \<Rightarrow>
   (Command \<times> CommandQueue \<times> SimpleStats) result" where
  "GetCommandToIssue c s cq st = issue_loop c s (nat (num_queues cq)) cq st"

section \<open>Invariant\<close>

text \<open>
  Every queued command is a read or write to a bank of the channel, carries the address its
  physical address decodes to, and sits in the queue of that bank; no queue exceeds its size.
\<close>

definition queued_ok :: "Config \<Rightarrow> CommandQueue \<Rightarrow> nat \<Rightarrow> Command \<Rightarrow> bool" where
  "queued_ok c cq i cmd \<longleftrightarrow> IsReadWrite cmd \<and> cmd_ok c cmd \<and>
     AddressMapping c (hex_addr cmd) = Inr (cmd_addr cmd) \<and>
     GetQueueIndex c cq (Rank cmd) (Bankgroup cmd) (Bank cmd) = int i"

definition cq_inv :: "Config \<Rightarrow> CommandQueue \<Rightarrow> bool" where
  "cq_inv c cq \<longleftrightarrow> cq_structure cq \<in> {PER_RANK, PER_BANK} \<and>
     num_queues cq = (if cq_structure cq = PER_RANK then ranks c else banks c * ranks c) \<and>
     length (queues cq) = nat (num_queues cq) \<and> length (rank_q_empty cq) = nat (ranks c) \<and>
     0 \<le> queue_idx cq \<and> queue_idx cq < num_queues cq \<and>
     (\<forall>i < length (queues cq). length (queues cq ! i) \<le> unat (queue_size cq) \<and>
        (\<forall>cmd \<in> set (queues cq ! i). queued_ok c cq i cmd))"

definition bag :: "CommandQueue \<Rightarrow> Command multiset" where
  "bag cq = mset (concat (queues cq))"

lemma cq_invD:
  assumes "cq_inv c cq"
  shows "length (queues cq) = nat (num_queues cq)" and "length (rank_q_empty cq) = nat (ranks c)"
    and "0 \<le> queue_idx cq" and "queue_idx cq < num_queues cq"
    and "\<And>i cmd. i < length (queues cq) \<Longrightarrow> cmd \<in> set (queues cq ! i) \<Longrightarrow> queued_ok c cq i cmd"
    and "\<And>i. i < length (queues cq) \<Longrightarrow> length (queues cq ! i) \<le> unat (queue_size cq)"
  using assms by (auto simp: cq_inv_def)

lemma queue_index_range:
  assumes "cq_inv c cq" and "geometry_ok c" and "bank_index c r j k"
  shows "0 \<le> GetQueueIndex c cq r j k" and "GetQueueIndex c cq r j k < num_queues cq"
proof -
  have b: "0 \<le> r" "r < ranks c" "0 \<le> j" "j < bankgroups c" "0 \<le> k" "k < banks_per_group c"
    and g: "banks c = bankgroups c * banks_per_group c" "1 \<le> banks_per_group c" "1 \<le> bankgroups c"
    using assms(2,3) by (auto simp: bank_index_def geometry_ok_def)
  have "j * banks_per_group c + banks_per_group c \<le> banks c"
  proof -
    have "(j + 1) * banks_per_group c \<le> bankgroups c * banks_per_group c"
      using b g by (intro mult_right_mono) auto
    then show ?thesis by (simp add: g algebra_simps)
  qed
  moreover have "r * banks c + banks c \<le> banks c * ranks c"
  proof -
    have "(r + 1) * banks c \<le> ranks c * banks c"
      using b g by (intro mult_right_mono) auto
    then show ?thesis by (simp add: algebra_simps)
  qed
  moreover have "0 \<le> r * banks c" "0 \<le> j * banks_per_group c" using b g by simp_all
  ultimately have "0 \<le> r * banks c + j * banks_per_group c + k"
    "r * banks c + j * banks_per_group c + k < banks c * ranks c" using b by linarith+
  moreover have "num_queues cq = (if cq_structure cq = PER_RANK then ranks c else banks c * ranks c)"
    using assms(1) by (simp add: cq_inv_def)
  ultimately show "0 \<le> GetQueueIndex c cq r j k" and "GetQueueIndex c cq r j k < num_queues cq"
    using b by (simp_all add: GetQueueIndex_def)
qed

lemma queue_index_inject:
  assumes "geometry_ok c" and "cq_structure cq \<noteq> PER_RANK" and "bank_index c r j k" and "bank_index c r' j' k'"
    and "GetQueueIndex c cq r j k = GetQueueIndex c cq r' j' k'"
  shows "r = r' \<and> j = j' \<and> k = k'"
proof -
  let ?K = "banks_per_group c" and ?B = "bankgroups c"
  have b: "0 \<le> j" "j < ?B" "0 \<le> k" "k < ?K" "0 \<le> j'" "j' < ?B" "0 \<le> k'" "k' < ?K"
    and g: "banks c = ?B * ?K"
    using assms(1,3,4) by (auto simp: bank_index_def geometry_ok_def)
  have e: "k + ?K * (j + ?B * r) = k' + ?K * (j' + ?B * r')"
    using assms(2,5) by (simp add: GetQueueIndex_def g algebra_simps)
  have "(k + ?K * (j + ?B * r)) mod ?K = k" "(k' + ?K * (j' + ?B * r')) mod ?K = k'"
    "(k + ?K * (j + ?B * r)) div ?K = j + ?B * r" "(k' + ?K * (j' + ?B * r')) div ?K = j' + ?B * r'"
    using b by simp_all
  with e have k: "k = k'" and e2: "j + ?B * r = j' + ?B * r'" by auto
  have "(j + ?B * r) mod ?B = j" "(j' + ?B * r') mod ?B = j'"
    "(j + ?B * r) div ?B = r" "(j' + ?B * r') div ?B = r'"
    using b by simp_all
  with e2 k show ?thesis by auto
qed

lemma queued_ok_frame:
  "cq_structure cq' = cq_structure cq \<Longrightarrow> queued_ok c cq' i cmd = queued_ok c cq i cmd"
  by (simp add: queued_ok_def GetQueueIndex_def)

lemma cq_inv_frame [simp]:
  "cq_inv c (cq\<lparr>ref_q_indices := R\<rparr>) = cq_inv c cq"
  "cq_inv c (cq\<lparr>is_in_ref := b\<rparr>) = cq_inv c cq"
  "cq_inv c (cq\<lparr>cq_clk := t\<rparr>) = cq_inv c cq"
  by (simp_all add: cq_inv_def queued_ok_def GetQueueIndex_def)

lemma cq_inv_mk_CommandQueue:
  assumes "geometry_ok c" and "mk_CommandQueue c = Inr cq"
  shows "cq_inv c cq" and "bag cq = {#}" and "\<not> is_in_ref cq" and "cq_clk cq = 0"
proof -
  have "0 < ranks c" "0 < banks c * ranks c"
    using assms(1) by (auto simp: geometry_ok_def)
  with assms(2) show "cq_inv c cq" "bag cq = {#}" "\<not> is_in_ref cq" "cq_clk cq = 0"
    by (auto simp: mk_CommandQueue_def cq_inv_def bag_def split: if_splits)
qed

section \<open>Adding and erasing commands\<close>

lemma mset_concat_update:
  "i < length xss \<Longrightarrow> mset (concat (xss[i := ys])) + mset (xss ! i) = mset (concat xss) + mset ys"
proof (induction xss arbitrary: i)
  case (Cons a xss)
  then show ?case by (cases i) (auto simp: ac_simps)
qed simp

lemma cq_inv_set_queue:
  assumes "cq_inv c cq" and "i < length (queues cq)" and "length q \<le> unat (queue_size cq)"
    and "\<forall>cmd \<in> set q. queued_ok c cq i cmd"
  shows "cq_inv c (cq\<lparr>queues := (queues cq)[i := q]\<rparr>)"
proof -
  have "queued_ok c (cq\<lparr>queues := Q\<rparr>) = queued_ok c cq" for Q
    by (intro ext queued_ok_frame) simp
  with assms show ?thesis by (auto simp: cq_inv_def nth_list_update)
qed

lemma cq_inv_rank_empty:
  "cq_inv c cq \<Longrightarrow> length e = length (rank_q_empty cq) \<Longrightarrow> cq_inv c (cq\<lparr>rank_q_empty := e\<rparr>)"
  by (simp add: cq_inv_def queued_ok_def GetQueueIndex_def)

definition routed :: "Config \<Rightarrow> Command \<Rightarrow> bool" where
  "routed c cmd \<longleftrightarrow> IsReadWrite cmd \<and> cmd_ok c cmd \<and> AddressMapping c (hex_addr cmd) = Inr (cmd_addr cmd)"

lemma routed_bank: "routed c cmd \<Longrightarrow> bank_index c (Rank cmd) (Bankgroup cmd) (Bank cmd)"
  by (auto simp: routed_def cmd_ok_def)

text \<open>What the operations of the queue leave alone.\<close>

definition cq_same :: "CommandQueue \<Rightarrow> CommandQueue \<Rightarrow> bool" where
  "cq_same cq cq' \<longleftrightarrow> cq_structure cq' = cq_structure cq \<and> num_queues cq' = num_queues cq \<and>
     queue_size cq' = queue_size cq \<and> is_in_ref cq' = is_in_ref cq \<and>
     ref_q_indices cq' = ref_q_indices cq \<and> cq_clk cq' = cq_clk cq"

lemma AddCommand_spec:
  assumes "cq_inv c cq" and "geometry_ok c" and "routed c cmd"
  shows "\<exists>b cq'. AddCommand c cq cmd = Inr (b, cq') \<and>
    WillAcceptCommand c cq (Rank cmd) (Bankgroup cmd) (Bank cmd) = Inr b \<and>
    cq_inv c cq' \<and> cq_same cq cq' \<and> queue_idx cq' = queue_idx cq \<and>
    bag cq' = (if b then bag cq + {#cmd#} else bag cq)"
proof -
  let ?x = "GetQueueIndex c cq (Rank cmd) (Bankgroup cmd) (Bank cmd)"
  let ?q = "queues cq ! nat ?x"
  have x: "0 \<le> ?x" "?x < num_queues cq"
    using queue_index_range [OF assms(1,2) routed_bank [OF assms(3)]] by auto
  then have l: "nat ?x < length (queues cq)" using cq_invD(1) [OF assms(1)] by simp
  have at: "vec_at (queues cq) ?x = Inr ?q" using x l by (simp add: vec_at_Inr)
  have r: "0 \<le> Rank cmd" "nat (Rank cmd) < length (rank_q_empty cq)"
    using assms(3) cq_invD(2) [OF assms(1)] by (auto simp: routed_def cmd_ok_def)
  show ?thesis
  proof (cases "length ?q < unat (queue_size cq)")
    case True
    let ?cq = "cq\<lparr>queues := (queues cq)[nat ?x := ?q @ [cmd]]\<rparr>"
    have "queued_ok c cq (nat ?x) cmd" using assms(3) x by (simp add: queued_ok_def routed_def)
    then have i: "cq_inv c ?cq"
      using cq_inv_set_queue [OF assms(1) l, of "?q @ [cmd]"] True cq_invD(5) [OF assms(1) l] by auto
    have "bag ?cq + mset ?q = bag cq + mset (?q @ [cmd])"
      using mset_concat_update [OF l] by (simp add: bag_def)
    then have "bag ?cq = bag cq + {#cmd#}" by simp
    moreover have "AddCommand c cq cmd = Inr (True, ?cq\<lparr>rank_q_empty := (rank_q_empty cq)[nat (Rank cmd) := False]\<rparr>)"
      using True at r x l by (simp add: AddCommand_def GetQueue_def vec_set_Inr [THEN iffD2])
    ultimately show ?thesis
      using cq_inv_rank_empty [OF i] at True
      by (intro exI [of _ True]) (simp add: WillAcceptCommand_def cq_same_def bag_def)
  next
    case False
    with at assms(1) show ?thesis
      by (intro exI [of _ False])
        (simp add: AddCommand_def GetQueue_def WillAcceptCommand_def cq_same_def)
  qed
qed

lemma mset_erase_first:
  assumes "\<exists>x \<in> set xs. P x" and "\<forall>x \<in> set xs. P x \<longrightarrow> x = y"
  shows "mset (erase_first P xs) = mset xs - {#y#}"
  using assms
proof (induction xs)
  case (Cons a xs)
  show ?case
  proof (cases "P a")
    case True
    with Cons show ?thesis by simp
  next
    case False
    with Cons.prems have "\<exists>x \<in> set xs. P x" and y: "y \<in># mset xs" by auto
    with Cons have "mset (erase_first P xs) = mset xs - {#y#}" by simp
    with False y show ?thesis by (simp add: insert_DiffM)
  qed
qed simp

lemma length_erase_first: "length (erase_first P xs) \<le> length xs"
  by (induction xs) auto

lemma EraseRWCommand_spec:
  assumes "cq_inv c cq" and "geometry_ok c" and "i < length (queues cq)" and "cmd \<in> set (queues cq ! i)"
  shows "\<exists>cq'. EraseRWCommand c cq cmd = Inr cq' \<and> cq_inv c cq' \<and> cq_same cq cq' \<and>
    queue_idx cq' = queue_idx cq \<and> bag cq = bag cq' + {#cmd#} \<and>
    queues cq' = (queues cq)[i := erase_first (\<lambda>p. hex_addr cmd = hex_addr p \<and> cmd_type cmd = cmd_type p) (queues cq ! i)]"
proof -
  let ?P = "\<lambda>p. hex_addr cmd = hex_addr p \<and> cmd_type cmd = cmd_type p"
  let ?cq = "cq\<lparr>queues := (queues cq)[i := erase_first ?P (queues cq ! i)]\<rparr>"
  have q: "queued_ok c cq i cmd" using cq_invD(5) [OF assms(1,3,4)] .
  have "p = cmd" if "p \<in> set (queues cq ! i)" "?P p" for p
  proof -
    have "AddressMapping c (hex_addr p) = Inr (cmd_addr p)"
      using cq_invD(5) [OF assms(1,3) that(1)] by (simp add: queued_ok_def)
    with q that(2) show ?thesis by (simp add: queued_ok_def)
  qed
  then have m: "mset (erase_first ?P (queues cq ! i)) = mset (queues cq ! i) - {#cmd#}"
    using assms(4) by (intro mset_erase_first) auto
  have "cq_inv c ?cq"
  proof (rule cq_inv_set_queue [OF assms(1,3)])
    show "length (erase_first ?P (queues cq ! i)) \<le> unat (queue_size cq)"
      using length_erase_first cq_invD(6) [OF assms(1,3)] by (rule order_trans)
    show "\<forall>p \<in> set (erase_first ?P (queues cq ! i)). queued_ok c cq i p"
      using set_erase_first [of ?P "queues cq ! i"] cq_invD(5) [OF assms(1,3)] by blast
  qed
  moreover have "bag ?cq + {#cmd#} = bag cq"
  proof -
    have "bag ?cq + mset (queues cq ! i) = bag cq + (mset (queues cq ! i) - {#cmd#})"
      using mset_concat_update [OF assms(3), of "erase_first ?P (queues cq ! i)"] m by (simp add: bag_def)
    moreover obtain M where "mset (queues cq ! i) = add_mset cmd M"
      using assms(4) by (metis mset_add set_mset_mset)
    ultimately show ?thesis by simp
  qed
  moreover have "EraseRWCommand c cq cmd = Inr ?cq"
    using q assms(3,4) by (auto simp: EraseRWCommand_def GetQueue_def queued_ok_def)
  ultimately show ?thesis by (simp add: cq_same_def)
qed

section \<open>First ready, first come, first served\<close>

text \<open>
  \<open>eligible c s clk q i cmd\<close>: position \<open>i\<close> of the queue \<open>q\<close> may issue \<open>cmd\<close> now. The channel
  answers its request with \<open>cmd\<close>; a precharge overtakes no older request to the bank, and
  closes a row only if nothing behind it hits that row or the row was hit four times; a
  write overtakes no older read of the same column.
\<close>

definition precharge_due :: "ChannelState \<Rightarrow> Command list \<Rightarrow> Command \<Rightarrow> Command list \<Rightarrow> bool" where
  "precharge_due s prev req rest \<longleftrightarrow>
     (let b = at_bank (bank_states s) (Rank req, Bankgroup req, Bank req)
      in (\<forall>p \<in> set prev. \<not> same_bank_cmd p req) \<and>
         ((\<forall>p \<in> set (req # rest). same_bank_cmd p req \<longrightarrow> Row p \<noteq> open_row b) \<or> 4 \<le> row_hit_count b))"

definition eligible ::
  "Config \<Rightarrow> ChannelState \<Rightarrow> u64 \<Rightarrow> Command list \<Rightarrow> nat \<Rightarrow> Command \<Rightarrow> bool" where
  "eligible c s clk q i cmd \<longleftrightarrow>
     chan_GetReadyCommand c s (q ! i) clk = Inr cmd \<and> IsValid cmd \<and>
     (cmd_type cmd = PRECHARGE \<longrightarrow> precharge_due s (take i q) (q ! i) (drop (Suc i) q)) \<and>
     (IsWrite cmd \<longrightarrow> \<not> HasRWDependency (take i q) (q ! i))"

lemma ArbitratePrecharge_spec:
  assumes "chan_inv c s" and "stats_inv c st" and "bank_index c (Rank req) (Bankgroup req) (Bank req)"
  shows "\<exists>st'. ArbitratePrecharge s st prev req rest = Inr (precharge_due s prev req rest, st') \<and>
    stats_inv c st'"
  using assms(2) get3_bank [OF chan_invD(2) [OF assms(1)] assms(3)]
  by (auto simp: ArbitratePrecharge_def precharge_due_def chan_OpenRow_def chan_RowHitCount_def Let_def)

definition first_ready ::
  "Config \<Rightarrow> ChannelState \<Rightarrow> u64 \<Rightarrow> Command list \<Rightarrow> nat \<Rightarrow> Command \<Rightarrow> bool" where
  "first_ready c s clk q n cmd \<longleftrightarrow>
     (if IsValid cmd
      then \<exists>i. n \<le> i \<and> i < length q \<and> eligible c s clk q i cmd \<and> (\<forall>j. n \<le> j \<longrightarrow> j < i \<longrightarrow> (\<forall>cmd'. \<not> eligible c s clk q j cmd'))
      else \<forall>j. n \<le> j \<longrightarrow> j < length q \<longrightarrow> (\<forall>cmd'. \<not> eligible c s clk q j cmd'))"

lemma first_ready_skip:
  assumes "\<forall>cmd'. \<not> eligible c s clk q n cmd'" and "first_ready c s clk q (Suc n) cmd"
  shows "first_ready c s clk q n cmd"
proof -
  have le: "n \<le> j \<longleftrightarrow> j = n \<or> Suc n \<le> j" for j by auto
  show ?thesis
  proof (cases "IsValid cmd")
    case True
    with assms(2) obtain i where "Suc n \<le> i" "i < length q" "eligible c s clk q i cmd"
      "\<forall>j. Suc n \<le> j \<longrightarrow> j < i \<longrightarrow> (\<forall>cmd'. \<not> eligible c s clk q j cmd')"
      unfolding first_ready_def by auto
    with True assms(1) show ?thesis
      unfolding first_ready_def by (simp only: if_True) (metis le)
  next
    case False
    with assms show ?thesis unfolding first_ready_def by (simp only: if_False) (metis le)
  qed
qed

lemma first_ready_loop_spec:
  assumes "chan_inv c s" and "stats_inv c st" and "\<forall>req \<in> set q. IsReadWrite req \<and> cmd_ok c req"
    and "q = prev @ rest"
  shows "\<exists>cmd st'. first_ready_loop c s clk prev rest st = Inr (cmd, st') \<and> stats_inv c st' \<and>
    first_ready c s clk q (length prev) cmd"
  using assms(2,4)
proof (induction rest arbitrary: prev st)
  case Nil
  then show ?case by (simp add: first_ready_def)
next
  case (Cons req rest)
  let ?n = "length prev"
  have q: "q ! ?n = req" "take ?n q = prev" "drop (Suc ?n) q = rest" "?n < length q"
    using Cons.prems(2) by simp_all
  have rq: "IsReadWrite req" "cmd_ok c req" using assms(3) Cons.prems(2) by auto
  then have bi: "bank_index c (Rank req) (Bankgroup req) (Bank req)" by (auto simp: cmd_ok_def)
  obtain cmd where cmd: "chan_GetReadyCommand c s req clk = Inr cmd"
    using chan_GetReadyCommand_total [OF assms(1) rq(2)] rq(1) by (auto simp: chan_answers_def)
  obtain st1 where arb: "ArbitratePrecharge s st prev req rest = Inr (precharge_due s prev req rest, st1)"
    "stats_inv c st1"
    using ArbitratePrecharge_spec [OF assms(1) Cons.prems(1) bi] by blast
  have el: "eligible c s clk q ?n x \<longleftrightarrow> x = cmd \<and> IsValid cmd \<and>
      (cmd_type cmd = PRECHARGE \<longrightarrow> precharge_due s prev req rest) \<and>
      (IsWrite cmd \<longrightarrow> \<not> HasRWDependency prev req)" for x
    unfolding eligible_def q using cmd by auto
  have skip: "\<exists>cmd' st'. first_ready_loop c s clk (prev @ [req]) rest u = Inr (cmd', st') \<and>
      stats_inv c st' \<and> first_ready c s clk q ?n cmd'"
    if "stats_inv c u" "\<forall>x. \<not> eligible c s clk q ?n x" for u
    using Cons.IH [OF that(1), of "prev @ [req]"] Cons.prems(2) first_ready_skip [OF that(2)] by auto
  have take: "first_ready c s clk q ?n cmd" if "eligible c s clk q ?n cmd"
    using that q(4) el [of cmd] unfolding first_ready_def by auto
  show ?case
  proof (cases "eligible c s clk q ?n cmd")
    case True
    then have "first_ready_loop c s clk prev (req # rest) st =
        Inr (cmd, if cmd_type cmd = PRECHARGE then st1 else st)"
      using cmd arb(1) el [of cmd] by auto
    with take [OF True] arb(2) Cons.prems(1) show ?thesis by simp
  next
    case False
    then have ne: "\<forall>x. \<not> eligible c s clk q ?n x" using el by metis
    have "first_ready_loop c s clk prev (req # rest) st = first_ready_loop c s clk (prev @ [req]) rest
        (if IsValid cmd \<and> cmd_type cmd = PRECHARGE then st1 else st)"
      using False cmd arb(1) el [of cmd] by auto
    with skip [OF _ ne] arb(2) Cons.prems(1) show ?thesis by simp
  qed
qed

lemma GetFirstReadyInQueue_spec:
  assumes "chan_inv c s" and "stats_inv c st" and "\<forall>req \<in> set q. IsReadWrite req \<and> cmd_ok c req"
  shows "\<exists>cmd st'. GetFirstReadyInQueue c s clk q st = Inr (cmd, st') \<and> stats_inv c st' \<and>
    first_ready c s clk q 0 cmd"
  using first_ready_loop_spec [OF assms, of "[]" q] by (simp add: GetFirstReadyInQueue_def)

text \<open>A read or write that the channel answers with is the request itself.\<close>

lemma ready_rw_same:
  assumes "chan_inv c s" and "cmd_ok c req" and "IsReadWrite req"
    and "chan_GetReadyCommand c s req clk = Inr cmd" and "IsReadWrite cmd"
  shows "cmd = req"
proof -
  have "IsValid cmd" using assms(5) by auto
  note rw = chan_ready_rw [OF assms(2,3,1,4) this]
  have "cmd_type cmd = cmd_type req" using rw(3) assms(5) by auto
  with rw show ?thesis by simp
qed

section \<open>Round robin\<close>

definition suspended :: "CommandQueue \<Rightarrow> int \<Rightarrow> bool" where
  "suspended cq i \<longleftrightarrow> is_in_ref cq \<and> i \<in> ref_q_indices cq"

definition turn :: "CommandQueue \<Rightarrow> nat \<Rightarrow> nat" where
  "turn cq k = (nat (queue_idx cq) + k) mod nat (num_queues cq)"

definition idle_queue :: "Config \<Rightarrow> ChannelState \<Rightarrow> CommandQueue \<Rightarrow> nat \<Rightarrow> bool" where
  "idle_queue c s cq i \<longleftrightarrow> suspended cq (int i) \<or>
     (\<forall>j < length (queues cq ! i). \<forall>cmd. \<not> eligible c s (cq_clk cq) (queues cq ! i) j cmd)"

text \<open>
  The outcome of looking at the next \<open>n\<close> queues in turn: the first command ready in the
  first of them that is neither suspended nor idle, or none.
\<close>

definition picked ::
  "Config \<Rightarrow> ChannelState \<Rightarrow> nat \<Rightarrow> CommandQueue \<Rightarrow> Command \<Rightarrow> CommandQueue \<Rightarrow> bool" where
  "picked c s n cq cmd cq' \<longleftrightarrow>
     (if IsValid cmd then
        \<exists>k. 1 \<le> k \<and> k \<le> n \<and> (\<forall>k'. 1 \<le> k' \<longrightarrow> k' < k \<longrightarrow> idle_queue c s cq (turn cq k')) \<and>
          \<not> suspended cq (int (turn cq k)) \<and>
          first_ready c s (cq_clk cq) (queues cq ! turn cq k) 0 cmd \<and>
          queue_idx cq' = int (turn cq k)
      else \<forall>k. 1 \<le> k \<longrightarrow> k \<le> n \<longrightarrow> idle_queue c s cq (turn cq k)) \<and>
     bag cq = bag cq' + (if IsReadWrite cmd then {#cmd#} else {#}) \<and>
     (\<not> IsReadWrite cmd \<longrightarrow> queues cq' = queues cq)"


lemma GetNextQueue_spec:
  assumes "cq_inv c cq"
  shows "GetNextQueue cq = Inr (queues cq ! turn cq 1, cq\<lparr>queue_idx := int (turn cq 1)\<rparr>)"
    and "turn cq 1 < length (queues cq)" and "cq_inv c (cq\<lparr>queue_idx := int (turn cq 1)\<rparr>)"
proof -
  obtain i n where b: "queue_idx cq = int i" "num_queues cq = int n" "i < n"
    using cq_invD(3,4) [OF assms] by (metis nonneg_int_cases of_nat_less_iff order_le_less_trans order_less_imp_le)
  have t: "turn cq 1 = (if i + 1 = n then 0 else i + 1)"
    using b by (auto simp: turn_def)
  have e: "(if queue_idx cq + 1 = num_queues cq then 0 else queue_idx cq + 1) = int (turn cq 1)"
    unfolding t b by auto
  have l: "turn cq 1 < nat (num_queues cq)" using b t by auto
  then show "turn cq 1 < length (queues cq)" using cq_invD(1) [OF assms] by simp
  then show "GetNextQueue cq = Inr (queues cq ! turn cq 1, cq\<lparr>queue_idx := int (turn cq 1)\<rparr>)"
    by (simp add: GetNextQueue_def e Let_def)
  have "int (turn cq 1) < num_queues cq" using l b(2) by linarith
  then show "cq_inv c (cq\<lparr>queue_idx := int (turn cq 1)\<rparr>)"
    using assms by (simp add: cq_inv_def queued_ok_def GetQueueIndex_def)
qed

lemma turn_next: "turn (cq\<lparr>queue_idx := int (turn cq 1)\<rparr>) k = turn cq (Suc k)"
  by (simp add: turn_def mod_simps)

lemma idle_queue_frame [simp]: "idle_queue c s (cq\<lparr>queue_idx := i\<rparr>) = idle_queue c s cq"
  by (simp add: idle_queue_def suspended_def fun_eq_iff)

lemma picked_next:
  assumes "idle_queue c s cq (turn cq 1)" and "picked c s n (cq\<lparr>queue_idx := int (turn cq 1)\<rparr>) cmd cq'"
  shows "picked c s (Suc n) cq cmd cq'"
proof -
  let ?cq = "cq\<lparr>queue_idx := int (turn cq 1)\<rparr>"
  have all: "\<forall>k'. 1 \<le> k' \<longrightarrow> k' < Suc m \<longrightarrow> idle_queue c s cq (turn cq k')"
    if "\<forall>k'. 1 \<le> k' \<longrightarrow> k' < m \<longrightarrow> idle_queue c s cq (turn cq (Suc k'))" for m
  proof (intro allI impI)
    fix k' assume k': "1 \<le> k'" "k' < Suc m"
    show "idle_queue c s cq (turn cq k')"
    proof (cases "k' = 1")
      case False
      with k' obtain l where "k' = Suc l" "1 \<le> l" "l < m" by (cases k') auto
      with that show ?thesis by simp
    qed (use assms(1) in simp)
  qed
  have f: "bag ?cq = bag cq" "suspended ?cq = suspended cq" by (auto simp: bag_def suspended_def)
  show ?thesis
  proof (cases "IsValid cmd")
    case True
    then obtain k where k: "1 \<le> k" "k \<le> n" "\<forall>k'. 1 \<le> k' \<longrightarrow> k' < k \<longrightarrow> idle_queue c s cq (turn cq (Suc k'))"
      "\<not> suspended cq (int (turn cq (Suc k)))"
      "first_ready c s (cq_clk cq) (queues cq ! turn cq (Suc k)) 0 cmd"
      "queue_idx cq' = int (turn cq (Suc k))"
      using assms(2) unfolding picked_def turn_next f by auto
    have "\<exists>k. 1 \<le> k \<and> k \<le> Suc n \<and> (\<forall>k'. 1 \<le> k' \<longrightarrow> k' < k \<longrightarrow> idle_queue c s cq (turn cq k')) \<and>
          \<not> suspended cq (int (turn cq k)) \<and>
          first_ready c s (cq_clk cq) (queues cq ! turn cq k) 0 cmd \<and> queue_idx cq' = int (turn cq k)"
      using k all [OF k(3)] by (intro exI [of _ "Suc k"]) simp
    with True assms(2) f(1) show ?thesis unfolding picked_def by simp
  next
    case False
    then have "\<forall>k'. 1 \<le> k' \<longrightarrow> k' < Suc n \<longrightarrow> idle_queue c s cq (turn cq (Suc k'))"
      using assms(2) unfolding picked_def turn_next f by auto
    from all [OF this] False assms(2) f(1) show ?thesis unfolding picked_def by simp
  qed
qed

lemma issue_loop_spec:
  assumes "chan_inv c s" and "geometry_ok c" and "cq_inv c cq" and "stats_inv c st"
  shows "\<exists>cmd cq' st'. issue_loop c s n cq st = Inr (cmd, cq', st') \<and> cq_inv c cq' \<and> stats_inv c st' \<and>
    cq_same cq cq' \<and> picked c s n cq cmd cq'"
  using assms(3,4)
proof (induction n arbitrary: cq st)
  case 0
  then show ?case by (simp add: picked_def cq_same_def)
next
  case (Suc n)
  let ?t = "turn cq 1" and ?cq = "cq\<lparr>queue_idx := int (turn cq 1)\<rparr>"
  note next_q = GetNextQueue_spec [OF Suc.prems(1)]
  have cont: "\<exists>cmd cq' st'. issue_loop c s n ?cq u = Inr (cmd, cq', st') \<and> cq_inv c cq' \<and> stats_inv c st' \<and>
      cq_same cq cq' \<and> picked c s (Suc n) cq cmd cq'"
    if "idle_queue c s cq ?t" "stats_inv c u" for u
    using Suc.IH [OF next_q(3) that(2)] picked_next [OF that(1)] by (auto simp: cq_same_def)
  show ?case
  proof (cases "suspended cq (int ?t)")
    case True
    then have "issue_loop c s (Suc n) cq st = issue_loop c s n ?cq st"
      by (simp add: next_q(1) suspended_def)
    with cont [OF _ Suc.prems(2)] True show ?thesis by (simp add: idle_queue_def)
  next
    case False
    have qs: "\<forall>req \<in> set (queues cq ! ?t). IsReadWrite req \<and> cmd_ok c req"
      using cq_invD(5) [OF Suc.prems(1) next_q(2)] by (auto simp: queued_ok_def)
    obtain cmd st1 where fr: "GetFirstReadyInQueue c s (cq_clk cq) (queues cq ! ?t) st = Inr (cmd, st1)"
        "stats_inv c st1" "first_ready c s (cq_clk cq) (queues cq ! ?t) 0 cmd"
      using GetFirstReadyInQueue_spec [OF assms(1) Suc.prems(2) qs] by blast
    show ?thesis
    proof (cases "IsValid cmd")
      case False2: False
      then have "idle_queue c s cq ?t" using fr(3) by (simp add: idle_queue_def first_ready_def)
      moreover have "issue_loop c s (Suc n) cq st = issue_loop c s n ?cq st1"
        using False False2 fr(1) by (auto simp: next_q(1) suspended_def)
      ultimately show ?thesis using cont [OF _ fr(2)] by simp
    next
      case True
      have pk: "picked c s (Suc n) cq cmd cq'"
        if "bag cq = bag cq' + (if IsReadWrite cmd then {#cmd#} else {#})"
          "\<not> IsReadWrite cmd \<longrightarrow> queues cq' = queues cq" "queue_idx cq' = int ?t" for cq'
        unfolding picked_def using that True False fr(3) by (auto intro!: exI [of _ 1])
      show ?thesis
      proof (cases "IsReadWrite cmd")
        case rw: True
        from fr(3) True obtain i where i: "i < length (queues cq ! ?t)"
            "eligible c s (cq_clk cq) (queues cq ! ?t) i cmd"
          by (auto simp: first_ready_def)
        have "cmd = queues cq ! ?t ! i"
          using ready_rw_same [OF assms(1) _ _ _ rw] i qs by (auto simp: eligible_def)
        then have "cmd \<in> set (queues cq ! ?t)" using i(1) by simp
        then obtain cq' where er: "EraseRWCommand c ?cq cmd = Inr cq'" "cq_inv c cq'" "cq_same ?cq cq'"
            "queue_idx cq' = int ?t" "bag ?cq = bag cq' + {#cmd#}"
          using EraseRWCommand_spec [OF next_q(3) assms(2), of ?t cmd] next_q(2) by auto
        moreover have "bag ?cq = bag cq" by (simp add: bag_def)
        ultimately have "picked c s (Suc n) cq cmd cq'" using rw by (intro pk) auto
        moreover have "issue_loop c s (Suc n) cq st = Inr (cmd, cq', st1)"
          using False fr(1) True rw er(1) by (auto simp: next_q(1) suspended_def)
        ultimately show ?thesis using er fr(2) by (auto simp: cq_same_def)
      next
        case rw: False
        have "picked c s (Suc n) cq cmd ?cq" using rw by (intro pk) (auto simp: bag_def)
        moreover have "issue_loop c s (Suc n) cq st = Inr (cmd, ?cq, st1)"
          using False fr(1) True rw by (auto simp: next_q(1) suspended_def)
        ultimately show ?thesis using next_q(3) fr(2) by (auto simp: cq_same_def)
      qed
    qed
  qed
qed

lemma GetCommandToIssue_spec:
  assumes "chan_inv c s" and "geometry_ok c" and "cq_inv c cq" and "stats_inv c st"
  shows "\<exists>cmd cq' st'. GetCommandToIssue c s cq st = Inr (cmd, cq', st') \<and> cq_inv c cq' \<and>
    stats_inv c st' \<and> cq_same cq cq' \<and> picked c s (nat (num_queues cq)) cq cmd cq'"
  using issue_loop_spec [OF assms] by (simp add: GetCommandToIssue_def)

text \<open>The request behind a chosen command, with its queue.\<close>

lemma picked_request:
  assumes "picked c s n cq cmd cq'" and "IsValid cmd" and "cq_inv c cq" and "chan_inv c s"
  shows "\<exists>i req. i < length (queues cq) \<and> req \<in> set (queues cq ! i) \<and> \<not> suspended cq (int i) \<and>
    chan_GetReadyCommand c s req (cq_clk cq) = Inr cmd \<and> cmd_addr cmd = cmd_addr req \<and>
    hex_addr cmd = hex_addr req \<and> queued_ok c cq i req"
proof -
  obtain k where k: "\<not> suspended cq (int (turn cq k))"
      "first_ready c s (cq_clk cq) (queues cq ! turn cq k) 0 cmd"
    using assms(1,2) unfolding picked_def by auto
  let ?i = "turn cq k"
  have l: "?i < length (queues cq)"
    using cq_invD(1,3,4) [OF assms(3)] by (simp add: turn_def)
  obtain m where m: "m < length (queues cq ! ?i)" "eligible c s (cq_clk cq) (queues cq ! ?i) m cmd"
    using k(2) assms(2) by (auto simp: first_ready_def)
  then have q: "queued_ok c cq ?i (queues cq ! ?i ! m)" using cq_invD(5) [OF assms(3) l] by simp
  then have rq: "cmd_ok c (queues cq ! ?i ! m)" "IsReadWrite (queues cq ! ?i ! m)"
    unfolding queued_ok_def by blast+
  have g: "chan_GetReadyCommand c s (queues cq ! ?i ! m) (cq_clk cq) = Inr cmd"
    using m(2) unfolding eligible_def by blast
  from chan_ready_rw(1,2) [OF rq assms(4) g assms(2)] g q l k(1) m(1) show ?thesis
    by (meson nth_mem)
qed

section \<open>Refreshes\<close>

text \<open>The queues that a refresh suspends.\<close>

definition ref_indices :: "Config \<Rightarrow> CommandQueue \<Rightarrow> Command \<Rightarrow> int set" where
  "ref_indices c cq ref =
     (if cmd_type ref = REFRESH then
        if cq_structure cq = PER_BANK then {i. 0 \<le> i \<and> i < num_queues cq \<and> i div banks c = Rank ref}
        else {Rank ref}
      else {GetQueueIndex c cq (Rank ref) (Bankgroup ref) (Bank ref)})"

lemma ref_loop_indices:
  assumes "0 < b" and "\<forall>i \<in> set is. 0 \<le> i"
  shows "foldR (\<lambda>i cq1. bindR (div_int i b) (\<lambda>d.
      if d = r then Inr (cq1\<lparr>ref_q_indices := insert i (ref_q_indices cq1)\<rparr>) else Inr cq1)) is cq =
    Inr (cq\<lparr>ref_q_indices := ref_q_indices cq \<union> {i \<in> set is. i div b = r}\<rparr>)"
  using assms(2)
proof (induction "is" arbitrary: cq)
  case (Cons i "is")
  have "div_int i b = Inr (i div b)"
    using Cons.prems assms(1) by (simp add: div_int_def c_div_nonneg)
  with Cons show ?case by (auto intro!: arg_cong [where f = "\<lambda>x. cq\<lparr>ref_q_indices := x\<rparr>"])
qed simp

lemma GetRefQIndices_spec:
  assumes "geometry_ok c"
  shows "GetRefQIndices c cq ref = Inr (cq\<lparr>ref_q_indices := ref_q_indices cq \<union> ref_indices c cq ref\<rparr>)"
proof -
  have "0 < banks c" using assms by (simp add: geometry_ok_def)
  from ref_loop_indices [OF this, of "[0 .. num_queues cq - 1]"] show ?thesis
    by (auto simp: GetRefQIndices_def ref_indices_def intro!: arg_cong [where f = "\<lambda>x. cq\<lparr>ref_q_indices := x\<rparr>"])
qed

text \<open>The suspended queues are those of the refresh at the head of the waiting refreshes.\<close>

definition ref_sync :: "Config \<Rightarrow> ChannelState \<Rightarrow> CommandQueue \<Rightarrow> bool" where
  "ref_sync c s cq \<longleftrightarrow>
     (if is_in_ref cq then refresh_q s \<noteq> [] \<and> ref_q_indices cq = ref_indices c cq (hd (refresh_q s))
      else ref_q_indices cq = {})"

lemma ref_sync_mk_CommandQueue: "mk_CommandQueue c = Inr cq \<Longrightarrow> ref_sync c s cq"
  by (auto simp: mk_CommandQueue_def ref_sync_def split: if_splits)

lemma FinishRefresh_spec:
  assumes "chan_inv c s" and "geometry_ok c" and "cq_inv c cq" and "ref_sync c s cq"
    and "refresh_q s \<noteq> []" and "chan_answers s (hd (refresh_q s))"
  shows "\<exists>cmd cq'. FinishRefresh c s cq = Inr (cmd, cq') \<and> cq_inv c cq' \<and> queues cq' = queues cq \<and>
    cq_clk cq' = cq_clk cq \<and> chan_GetReadyCommand c s (hd (refresh_q s)) (cq_clk cq) = Inr cmd \<and>
    is_in_ref cq' = (\<not> IsRefresh cmd) \<and> ref_sync c s cq'"
proof -
  obtain ref Q where q: "refresh_q s = ref # Q" using assms(5) by (cases "refresh_q s") auto
  have "ref_ok c ref" using chan_invD(5) [OF assms(1)] q by simp
  then obtain cmd where cmd: "chan_GetReadyCommand c s ref (cq_clk cq) = Inr cmd"
    using chan_GetReadyCommand_total [OF assms(1)] assms(6) q by (auto simp: ref_ok_def)
  have pend: "PendingRefCommand s = Inr ref" by (simp add: PendingRefCommand_def q)
  let ?cq = "cq\<lparr>ref_q_indices := ref_indices c cq ref, is_in_ref := True\<rparr>"
  have ri: "ref_indices c (cq\<lparr>ref_q_indices := R, is_in_ref := b\<rparr>) = ref_indices c cq" for R b
    by (intro ext) (simp add: ref_indices_def GetQueueIndex_def)
  have "(if \<not> is_in_ref cq then bindR (GetRefQIndices c cq ref) (\<lambda>cq1. Inr (cq1\<lparr>is_in_ref := True\<rparr>))
      else Inr cq) = Inr ?cq"
    using assms(4) q by (cases "is_in_ref cq") (simp_all add: GetRefQIndices_spec [OF assms(2)] ref_sync_def)
  then have "FinishRefresh c s cq = (if IsRefresh cmd
      then Inr (cmd, ?cq\<lparr>ref_q_indices := {}, is_in_ref := False\<rparr>) else Inr (cmd, ?cq))"
    using cmd by (simp add: FinishRefresh_def pend)
  then show ?thesis
    using assms(3) cmd q ri by (auto simp: ref_sync_def)
qed

lemma ref_index_touched:
  assumes "geometry_ok c" and "cq_inv c cq" and "ref_ok c ref" and "bank_index c r j k"
    and "touches ref (r, j, k)"
  shows "GetQueueIndex c cq r j k \<in> ref_indices c cq ref"
proof (cases "cmd_type ref = REFRESH")
  case True
  then have r: "r = Rank ref" using assms(5) by (simp add: touches_def)
  have "(r * banks c + j * banks_per_group c + k) div banks c = r"
  proof -
    have b: "0 \<le> j" "j + 1 \<le> bankgroups c" "0 \<le> k" "k < banks_per_group c"
      and g: "banks c = bankgroups c * banks_per_group c" "1 \<le> banks_per_group c"
      using assms(1,4) by (auto simp: bank_index_def geometry_ok_def)
    have "(j + 1) * banks_per_group c \<le> banks c"
      unfolding g using b g(2) by (intro mult_right_mono) auto
    then have "j * banks_per_group c + k < banks c" using b by (simp add: algebra_simps)
    moreover have "0 \<le> j * banks_per_group c + k" using b g by simp
    ultimately show ?thesis
      by (metis add.assoc add.commute add.left_neutral div_mult_self3 div_pos_pos_trivial
          mult.commute not_less order_le_less_trans order_less_irrefl)
  qed
  then show ?thesis
    using True r queue_index_range [OF assms(2,1,4)] assms(2)
    by (auto simp: ref_indices_def GetQueueIndex_def cq_inv_def)
next
  case False
  then have "cmd_type ref = REFRESH_BANK" using assms(3) by (auto simp: ref_ok_def)
  then show ?thesis using assms(5) by (simp add: ref_indices_def touches_def)
qed

lemma picked_not_refreshing:
  assumes "chan_inv c s" and "geometry_ok c" and "cq_inv c cq" and "ref_sync c s cq" and "is_in_ref cq"
    and "picked c s n cq cmd cq'" and "IsValid cmd"
  shows "\<not> touches (hd (refresh_q s)) (Rank cmd, Bankgroup cmd, Bank cmd)"
proof
  assume t: "touches (hd (refresh_q s)) (Rank cmd, Bankgroup cmd, Bank cmd)"
  obtain i req where r: "\<not> suspended cq (int i)" "cmd_addr cmd = cmd_addr req" "queued_ok c cq i req"
    using picked_request [OF assms(6,7,3,1)] by blast
  have "refresh_q s \<noteq> []" and ri: "ref_q_indices cq = ref_indices c cq (hd (refresh_q s))"
    using assms(4,5) by (auto simp: ref_sync_def)
  then have "ref_ok c (hd (refresh_q s))" using chan_invD(5) [OF assms(1)] by simp
  moreover have "bank_index c (Rank cmd) (Bankgroup cmd) (Bank cmd)"
    using r by (auto simp: queued_ok_def cmd_ok_def)
  ultimately have "GetQueueIndex c cq (Rank cmd) (Bankgroup cmd) (Bank cmd) \<in> ref_q_indices cq"
    using ref_index_touched [OF assms(2,3)] t ri by simp
  with r assms(5) show False by (auto simp: suspended_def queued_ok_def)
qed

section \<open>Contract of a command queue\<close>

text \<open>
  What the controller relies on: commands are accepted or refused, the accepted reads and
  writes wait in a bag, and each is handed out once. An environment (the channel state and
  the statistics) accompanies each request for a command.
\<close>

datatype 'e queue_op = AddOp Command | TakeOp 'e | TickOp

fun queue_run ::
  "('q \<Rightarrow> Command \<Rightarrow> (bool \<times> 'q) result) \<Rightarrow> ('e \<Rightarrow> 'q \<Rightarrow> (Command \<times> 'q) result) \<Rightarrow> ('q \<Rightarrow> 'q) \<Rightarrow>
   'e queue_op list \<Rightarrow> 'q \<Rightarrow> ('q \<times> Command multiset \<times> Command multiset) result" where
  "queue_run add hand tick [] q = Inr (q, {#}, {#})"
| "queue_run add hand tick (AddOp cmd # ops) q =
     bindR (add q cmd) (\<lambda>(b, q1).
     bindR (queue_run add hand tick ops q1) (\<lambda>(q2, accepted, handed).
       Inr (q2, (if b then add_mset cmd accepted else accepted), handed)))"
| "queue_run add hand tick (TakeOp e # ops) q =
     bindR (hand e q) (\<lambda>(cmd, q1).
     bindR (queue_run add hand tick ops q1) (\<lambda>(q2, accepted, handed).
       Inr (q2, accepted, if IsReadWrite cmd then add_mset cmd handed else handed)))"
| "queue_run add hand tick (TickOp # ops) q = queue_run add hand tick ops (tick q)"

fun op_ok :: "(Command \<Rightarrow> bool) \<Rightarrow> ('e \<Rightarrow> bool) \<Rightarrow> 'e queue_op \<Rightarrow> bool" where
  "op_ok ok env_ok (AddOp cmd) = ok cmd"
| "op_ok ok env_ok (TakeOp e) = env_ok e"
| "op_ok ok env_ok TickOp = True"

locale command_bag =
  fixes inv :: "'q \<Rightarrow> bool" and pending :: "'q \<Rightarrow> Command multiset"
    and ok :: "Command \<Rightarrow> bool" and env_ok :: "'e \<Rightarrow> bool"
    and add :: "'q \<Rightarrow> Command \<Rightarrow> (bool \<times> 'q) result"
    and hand_out :: "'e \<Rightarrow> 'q \<Rightarrow> (Command \<times> 'q) result"
    and tick :: "'q \<Rightarrow> 'q"
  assumes add_law: "inv q \<Longrightarrow> ok cmd \<Longrightarrow> \<exists>b q'. add q cmd = Inr (b, q') \<and> inv q' \<and>
      pending q' = (if b then add_mset cmd (pending q) else pending q)"
    and hand_out_law: "inv q \<Longrightarrow> env_ok e \<Longrightarrow> \<exists>cmd q'. hand_out e q = Inr (cmd, q') \<and> inv q' \<and>
      pending q = (if IsReadWrite cmd then add_mset cmd (pending q') else pending q')"
    and tick_law: "inv q \<Longrightarrow> inv (tick q) \<and> pending (tick q) = pending q"
begin

lemma run_conserves:
  assumes "inv q" and "\<forall>x \<in> set ops. op_ok ok env_ok x"
  shows "\<exists>q' accepted handed. queue_run add hand_out tick ops q = Inr (q', accepted, handed) \<and> inv q' \<and>
    pending q + accepted = pending q' + handed"
  using assms
proof (induction ops arbitrary: q)
  case (Cons x ops)
  have IH: "\<exists>q2 a h. queue_run add hand_out tick ops q1 = Inr (q2, a, h) \<and> inv q2 \<and>
      pending q1 + a = pending q2 + h" if "inv q1" for q1
    using Cons.IH [OF that] Cons.prems(2) by simp
  show ?case
  proof (cases x)
    case (AddOp cmd)
    then obtain b q1 where "add q cmd = Inr (b, q1)" "inv q1"
        "pending q1 = (if b then add_mset cmd (pending q) else pending q)"
      using add_law [OF Cons.prems(1), of cmd] Cons.prems(2) by auto
    moreover from IH [OF this(2)] obtain q2 a h where
      "queue_run add hand_out tick ops q1 = Inr (q2, a, h)" "inv q2" "pending q1 + a = pending q2 + h"
      by blast
    ultimately show ?thesis using AddOp by (cases b) simp_all
  next
    case (TakeOp e)
    then obtain cmd q1 where t: "hand_out e q = Inr (cmd, q1)" "inv q1"
        "pending q = (if IsReadWrite cmd then add_mset cmd (pending q1) else pending q1)"
      using hand_out_law [OF Cons.prems(1), of e] Cons.prems(2) by auto
    moreover from IH [OF this(2)] obtain q2 a h where
      "queue_run add hand_out tick ops q1 = Inr (q2, a, h)" "inv q2" "pending q1 + a = pending q2 + h"
      by blast
    ultimately show ?thesis using TakeOp by (cases "IsReadWrite cmd") simp_all
  next
    case TickOp
    with IH [of "tick q"] tick_law [OF Cons.prems(1)] show ?thesis by simp
  qed
qed simp

end

definition hand_out_command ::
  "Config \<Rightarrow> ChannelState \<times> SimpleStats \<Rightarrow> CommandQueue \<Rightarrow> (Command \<times> CommandQueue) result" where
  "hand_out_command c e cq =
     bindR (GetCommandToIssue c (fst e) cq (snd e)) (\<lambda>(cmd, cq1, _). Inr (cmd, cq1))"

interpretation cmd_bag: command_bag "\<lambda>cq. geometry_ok c \<and> cq_inv c cq" bag "routed c"
  "\<lambda>e. chan_inv c (fst e) \<and> stats_inv c (snd e)" "AddCommand c" "hand_out_command c" cq_ClockTick for c
proof
  fix cq cmd assume "geometry_ok c \<and> cq_inv c cq" and "routed c cmd"
  then show "\<exists>b q'. AddCommand c cq cmd = Inr (b, q') \<and> (geometry_ok c \<and> cq_inv c q') \<and>
      bag q' = (if b then add_mset cmd (bag cq) else bag cq)"
    using AddCommand_spec [of c cq cmd] by (metis add_mset_add_single)
next
  fix cq e assume a: "geometry_ok c \<and> cq_inv c cq" and e: "chan_inv c (fst e) \<and> stats_inv c (snd e)"
  obtain cmd cq' st' where g: "GetCommandToIssue c (fst e) cq (snd e) = Inr (cmd, cq', st')" "cq_inv c cq'"
      "picked c (fst e) (nat (num_queues cq)) cq cmd cq'"
    using GetCommandToIssue_spec [of c "fst e" cq "snd e"] a e by blast
  have "bag cq = bag cq' + (if IsReadWrite cmd then {#cmd#} else {#})"
    using g(3) unfolding picked_def by blast
  with g(1,2) a show "\<exists>cmd q'. hand_out_command c e cq = Inr (cmd, q') \<and> (geometry_ok c \<and> cq_inv c q') \<and>
      bag cq = (if IsReadWrite cmd then add_mset cmd (bag q') else bag q')"
    by (intro exI [of _ cmd] exI [of _ cq']) (simp add: hand_out_command_def)
next
  fix cq assume "geometry_ok c \<and> cq_inv c cq"
  then show "(geometry_ok c \<and> cq_inv c (cq_ClockTick cq)) \<and> bag (cq_ClockTick cq) = bag cq"
    by (simp add: cq_ClockTick_def bag_def)
qed

section \<open>Sample states\<close>

definition sample_read :: Command where
  "sample_read = mk_Command READ (mk_Address 0 1 2 3 9 5) 2496384"

definition sample_write :: Command where
  "sample_write = mk_Command WRITE (mk_Address 0 0 0 0 0 0) 0"

definition sample_queue0 :: CommandQueue where
  "sample_queue0 = projr (mk_CommandQueue ddr4_config)"

definition sample_queue1 :: CommandQueue where
  "sample_queue1 = snd (projr (AddCommand ddr4_config sample_queue0 sample_read))"

definition sample_queue :: CommandQueue where
  "sample_queue = snd (projr (AddCommand ddr4_config sample_queue1 sample_write))"

text \<open>A channel whose banks are all in one state.\<close>

definition uniform_channel :: "Config \<Rightarrow> BankState \<Rightarrow> ChannelState" where
  "uniform_channel c b = (mk_ChannelState c)\<lparr>bank_states := replicate (nat (ranks c))
     (replicate (nat (bankgroups c)) (replicate (nat (banks_per_group c)) b)),
     rank_is_sref := replicate (nat (ranks c)) (bank_state b = SREF)\<rparr>"

lemma chan_inv_uniform:
  assumes "bank_inv b"
  shows "chan_inv c (uniform_channel c b)"
proof -
  have "at_bank (bank_states (uniform_channel c b)) (r, j, k) = b" if "bank_index c r j k" for r j k
    using that by (auto simp: at_bank_def uniform_channel_def bank_index_def intro!: at3_replicate)
  moreover have "rank_is_sref (uniform_channel c b) ! nat r = (bank_state b = SREF)" if "bank_index c r j k" for r j k
    using that by (simp add: uniform_channel_def mk_ChannelState_def bank_index_def)
  moreover have "bank_index c r 0 0" if "bank_index c r j k" for r j k
    using that by (simp add: bank_index_def)
  moreover have "chan_shape c (uniform_channel c b)" and "refresh_q (uniform_channel c b) = []"
    by (simp_all add: uniform_channel_def chan_shape_def mk_ChannelState_def shape3_replicate)
  ultimately show ?thesis using assms unfolding chan_inv_def by simp
qed

text \<open>A channel where no refresh may start before cycle 100, and one waits for rank 1.\<close>

definition sample_channel :: ChannelState where
  "sample_channel = RankNeedRefresh
     (uniform_channel ddr4_config (BankState0\<lparr>cmd_timing := (\<lambda>_. 0)(REFRESH := 100)\<rparr>)) 1 True"

lemma sample_routed: "routed ddr4_config sample_read" "routed ddr4_config sample_write"
  by code_simp+

lemma sample_queue0_mk: "mk_CommandQueue ddr4_config = Inr sample_queue0"
  by code_simp

lemma sample_queue_inv:
  "cq_inv ddr4_config sample_queue0" "cq_inv ddr4_config sample_queue1" "cq_inv ddr4_config sample_queue"
  "ref_sync ddr4_config s sample_queue"
proof -
  have "\<not> is_in_ref sample_queue0 \<and> ref_q_indices sample_queue0 = {}" by code_simp
  moreover show q0: "cq_inv ddr4_config sample_queue0"
    by (rule cq_inv_mk_CommandQueue [OF ddr4_geometry sample_queue0_mk])
  moreover show "cq_inv ddr4_config sample_queue1"
    using AddCommand_spec [OF q0 ddr4_geometry sample_routed(1)] by (auto simp: sample_queue1_def)
  moreover show "cq_inv ddr4_config sample_queue"
    using AddCommand_spec [OF calculation(3) ddr4_geometry sample_routed(2)] by (auto simp: sample_queue_def)
  moreover have "cq_same sample_queue0 sample_queue1" "cq_same sample_queue1 sample_queue"
    using AddCommand_spec [OF q0 ddr4_geometry sample_routed(1)]
      AddCommand_spec [OF calculation(3) ddr4_geometry sample_routed(2)]
    by (auto simp: sample_queue1_def sample_queue_def)
  ultimately show "ref_sync ddr4_config s sample_queue"
    by (simp add: ref_sync_def cq_same_def)
qed

lemma sample_channel_inv: "chan_inv ddr4_config sample_channel"
proof -
  have "chan_inv ddr4_config (uniform_channel ddr4_config (BankState0\<lparr>cmd_timing := (\<lambda>_. 0)(REFRESH := 100)\<rparr>))"
    by (rule chan_inv_uniform) (simp add: bank_inv_def BankState0_def)
  then show ?thesis
    unfolding sample_channel_def by (rule RankNeedRefresh_inv) (simp_all add: ddr4_config_def)
qed

section \<open>Properties\<close>

lemma mod_onto:
  assumes "x < n" and "i < n"
  shows "\<exists>k. 1 \<le> k \<and> k \<le> n \<and> (x + k) mod n = (i :: nat)"
proof (cases "x < i")
  case True
  with assms show ?thesis by (intro exI [of _ "i - x"]) auto
next
  case False
  with assms have "x + (i + n - x) = i + n" by simp
  with False assms show ?thesis by (intro exI [of _ "i + n - x"]) auto
qed

lemma turn_onto:
  assumes "cq_inv c cq" and "i < length (queues cq)"
  shows "\<exists>k. 1 \<le> k \<and> k \<le> nat (num_queues cq) \<and> turn cq k = i"
  unfolding turn_def using cq_invD(1,3,4) [OF assms(1)] assms(2) by (intro mod_onto) auto

text \<open>
  C4: First ready, first come, first served. In a consistent state the choice of the next
  command always succeeds. Of the queues, taken in turn after the last one served, it takes
  the first that is not suspended by a refresh and holds a command that may go now, and
  from it the oldest such command; a read or write leaves the queue, exactly once. When it
  returns no command, no queue had one: either it is suspended or each of its requests is
  blocked by timing, by the arbitration of precharges, or by an older read of its column.
\<close>

theorem command_queue_first_ready:
  assumes "chan_inv c s" and "geometry_ok c" and "cq_inv c cq" and "stats_inv c st"
  shows "\<exists>cmd cq' st'. GetCommandToIssue c s cq st = Inr (cmd, cq', st') \<and> cq_inv c cq' \<and>
    picked c s (nat (num_queues cq)) cq cmd cq' \<and>
    (\<not> IsValid cmd \<longrightarrow> (\<forall>i < length (queues cq). idle_queue c s cq i))"
proof -
  obtain cmd cq' st' where g: "GetCommandToIssue c s cq st = Inr (cmd, cq', st')" "cq_inv c cq'"
      and p: "picked c s (nat (num_queues cq)) cq cmd cq'"
    using GetCommandToIssue_spec [OF assms] by blast
  have "idle_queue c s cq i" if "\<not> IsValid cmd" "i < length (queues cq)" for i
  proof -
    from turn_onto [OF assms(3) that(2)] obtain k where
      "1 \<le> k" "k \<le> nat (num_queues cq)" "turn cq k = i" by blast
    moreover have "\<forall>k. 1 \<le> k \<longrightarrow> k \<le> nat (num_queues cq) \<longrightarrow> idle_queue c s cq (turn cq k)"
      using p that(1) unfolding picked_def by (simp only: if_False) blast
    ultimately show ?thesis by blast
  qed
  with g p show ?thesis by blast
qed

theorem command_queue_first_ready_witness:
  "\<exists>cq' st'. GetCommandToIssue ddr4_config (mk_ChannelState ddr4_config) sample_queue
      (mk_SimpleStats ddr4_config) = Inr (mk_Command ACTIVATE (mk_Address 0 1 2 3 9 5) 2496384, cq', st') \<and>
     picked ddr4_config (mk_ChannelState ddr4_config) 32 sample_queue
      (mk_Command ACTIVATE (mk_Address 0 1 2 3 9 5) 2496384) cq'"
proof -
  have "fst (projr (GetCommandToIssue ddr4_config (mk_ChannelState ddr4_config) sample_queue
      (mk_SimpleStats ddr4_config))) = mk_Command ACTIVATE (mk_Address 0 1 2 3 9 5) 2496384"
    "nat (num_queues sample_queue) = 32"
    by code_simp+
  with command_queue_first_ready [OF chan_inv_mk_ChannelState ddr4_geometry sample_queue_inv(3)
      stats_inv_mk_SimpleStats] show ?thesis by auto
qed

text \<open>
  C8: Nothing is lost or duplicated in the queues. For every sequence of arriving commands,
  requests for a command and clock ticks, the commands accepted are those handed out plus
  those still queued, with their multiplicities, and no step fails.
\<close>

theorem command_queue_conserves:
  assumes "geometry_ok c" and "mk_CommandQueue c = Inr cq"
    and "\<forall>x \<in> set ops. op_ok (routed c) (\<lambda>e. chan_inv c (fst e) \<and> stats_inv c (snd e)) x"
  shows "\<exists>cq' accepted handed.
    queue_run (AddCommand c) (hand_out_command c) cq_ClockTick ops cq = Inr (cq', accepted, handed) \<and>
    accepted = bag cq' + handed"
proof -
  have "geometry_ok c \<and> cq_inv c cq" and "bag cq = {#}"
    using assms(1) cq_inv_mk_CommandQueue [OF assms(1,2)] by auto
  from cmd_bag.run_conserves [OF this(1) assms(3)] this(2) show ?thesis by auto
qed

theorem command_queue_conserves_witness:
  "\<exists>cq' handed. queue_run (AddCommand ddr4_config) (hand_out_command ddr4_config) cq_ClockTick
      [AddOp sample_read, TickOp, TakeOp (mk_ChannelState ddr4_config, mk_SimpleStats ddr4_config)]
      sample_queue0 = Inr (cq', {#sample_read#}, handed) \<and> {#sample_read#} = bag cq' + handed"
proof -
  let ?ops = "[AddOp sample_read, TickOp, TakeOp (mk_ChannelState ddr4_config, mk_SimpleStats ddr4_config)]"
  have ok: "\<forall>x \<in> set ?ops. op_ok (routed ddr4_config)
      (\<lambda>e. chan_inv ddr4_config (fst e) \<and> stats_inv ddr4_config (snd e)) x"
    by (simp add: sample_routed chan_inv_mk_ChannelState stats_inv_mk_SimpleStats)
  from command_queue_conserves [OF ddr4_geometry sample_queue0_mk ok] obtain cq' accepted handed where
    r: "queue_run (AddCommand ddr4_config) (hand_out_command ddr4_config) cq_ClockTick ?ops sample_queue0 =
      Inr (cq', accepted, handed)" "accepted = bag cq' + handed" by blast
  have "fst (projr (AddCommand ddr4_config sample_queue0 sample_read))" by code_simp
  with r(1) have "accepted = {#sample_read#}"
    by (auto elim!: bindR_InrE split: if_splits)
  with r show ?thesis by auto
qed

text \<open>
  C25: Acceptance. \<open>AddCommand\<close> accepts a command exactly when \<open>WillAcceptCommand\<close> says so for
  its bank; an accepted command is in the queue of its bank, a refused one changes nothing,
  and no queue ever exceeds the configured size.
\<close>

theorem command_queue_acceptance:
  assumes "cq_inv c cq" and "geometry_ok c" and "routed c cmd"
  shows "\<exists>b cq'. AddCommand c cq cmd = Inr (b, cq') \<and>
    WillAcceptCommand c cq (Rank cmd) (Bankgroup cmd) (Bank cmd) = Inr b \<and>
    bag cq' = (if b then bag cq + {#cmd#} else bag cq) \<and>
    (\<forall>q \<in> set (queues cq'). length q \<le> unat (queue_size cq))"
proof -
  obtain b cq' where a: "AddCommand c cq cmd = Inr (b, cq')"
      "WillAcceptCommand c cq (Rank cmd) (Bankgroup cmd) (Bank cmd) = Inr b" "cq_inv c cq'" "cq_same cq cq'"
      "bag cq' = (if b then bag cq + {#cmd#} else bag cq)"
    using AddCommand_spec [OF assms] by blast
  moreover have "\<forall>q \<in> set (queues cq'). length q \<le> unat (queue_size cq)"
    using cq_invD(6) [OF a(3)] a(4) by (auto simp: in_set_conv_nth cq_same_def)
  ultimately show ?thesis by blast
qed

theorem command_queue_acceptance_witness:
  "\<exists>cq'. AddCommand ddr4_config sample_queue1 sample_write = Inr (True, cq') \<and>
     bag cq' = bag sample_queue1 + {#sample_write#}"
proof -
  have "fst (projr (AddCommand ddr4_config sample_queue1 sample_write))" by code_simp
  with command_queue_acceptance [OF sample_queue_inv(2) ddr4_geometry sample_routed(2)]
  show ?thesis by auto
qed

text \<open>
  C26: A waiting refresh is not overtaken. Once \<open>FinishRefresh\<close> has been asked for a refresh
  that the channel is not yet ready for, \<open>GetCommandToIssue\<close> returns no command for any bank
  that the refresh addresses.
\<close>

theorem refresh_suspends_banks:
  assumes "chan_inv c s" and "geometry_ok c" and "cq_inv c cq" and "ref_sync c s cq" and "stats_inv c st"
    and "refresh_q s \<noteq> []" and "chan_answers s (hd (refresh_q s))"
    and "FinishRefresh c s cq = Inr (cmd, cq1)" and "\<not> IsRefresh cmd"
    and "GetCommandToIssue c s cq1 st = Inr (cmd2, cq2, st2)" and "IsValid cmd2"
  shows "\<not> touches (hd (refresh_q s)) (Rank cmd2, Bankgroup cmd2, Bank cmd2)"
proof -
  have f: "cq_inv c cq1" "is_in_ref cq1" "ref_sync c s cq1"
    using FinishRefresh_spec [OF assms(1-4,6,7)] assms(8,9) by auto
  moreover have "picked c s (nat (num_queues cq1)) cq1 cmd2 cq2"
    using GetCommandToIssue_spec [OF assms(1,2) f(1) assms(5)] assms(10) by auto
  ultimately show ?thesis using picked_not_refreshing [OF assms(1,2)] assms(11) by blast
qed

theorem refresh_suspends_banks_witness:
  "\<exists>cq1 cq2 st2 cmd2.
     FinishRefresh ddr4_config sample_channel sample_queue = Inr (Command0, cq1) \<and>
     GetCommandToIssue ddr4_config sample_channel cq1 (mk_SimpleStats ddr4_config) = Inr (cmd2, cq2, st2) \<and>
     cmd_type cmd2 = ACTIVATE \<and>
     \<not> touches (hd (refresh_q sample_channel)) (Rank cmd2, Bankgroup cmd2, Bank cmd2)"
proof -
  let ?s = sample_channel and ?st = "mk_SimpleStats ddr4_config"
  have w: "refresh_q ?s \<noteq> []" "chan_answers ?s (hd (refresh_q ?s))" by code_simp+
  obtain cmd cq1 where f: "FinishRefresh ddr4_config ?s sample_queue = Inr (cmd, cq1)" "cq_inv ddr4_config cq1"
    using FinishRefresh_spec [OF sample_channel_inv ddr4_geometry sample_queue_inv(3,4) w] by blast
  have "fst (projr (FinishRefresh ddr4_config ?s sample_queue)) = Command0" by code_simp
  with f have c0: "cmd = Command0" by simp
  obtain cmd2 cq2 st2 where g: "GetCommandToIssue ddr4_config ?s cq1 ?st = Inr (cmd2, cq2, st2)"
    using GetCommandToIssue_spec [OF sample_channel_inv ddr4_geometry f(2) stats_inv_mk_SimpleStats] by blast
  have "cmd_type (fst (projr (GetCommandToIssue ddr4_config ?s
      (snd (projr (FinishRefresh ddr4_config ?s sample_queue))) ?st))) = ACTIVATE" by code_simp
  with f g have a: "cmd_type cmd2 = ACTIVATE" by simp
  have "\<not> IsRefresh cmd" "IsValid cmd2" using c0 a by simp_all
  from refresh_suspends_banks [OF sample_channel_inv ddr4_geometry sample_queue_inv(3,4)
      stats_inv_mk_SimpleStats w f(1) this(1) g this(2)] f(1) g a c0
  show ?thesis by blast
qed

end
