(* ===== verification/Transaction_Port.thy ===== *)
theory Transaction_Port
  imports Common
begin

text \<open>
  The contract between a memory and the processor that uses it: transactions are submitted,
  and none is lost, answered twice or made up. The controller of a channel and the memory systems built
  on it are shown to satisfy it.
\<close>

section \<open>Runs of a memory\<close>

text \<open>
  A step performs one operation. It returns the transactions it took in and those it
  answered. For a memory a transaction is its address and direction (\<open>True\<close> for a write);
  the bridges to the processor add the tag of the request.
\<close>

type_synonym answers = "(u64 \<times> bool) list"

fun port_run ::
  "('o \<Rightarrow> 's \<Rightarrow> ('s \<times> 'a list \<times> 'a list) result) \<Rightarrow> 'o list \<Rightarrow> 's \<Rightarrow>
   ('s \<times> 'a list \<times> 'a list) result" where
  "port_run step [] s = Inr (s, [], [])"
| "port_run step (x # xs) s =
     bindR (step x s) (\<lambda>(s1, acc1, out1).
     bindR (port_run step xs s1) (\<lambda>(s2, acc2, out2). Inr (s2, acc1 @ acc2, out1 @ out2)))"

text \<open>
  The contract with a budget: the invariant holds with a number of units left, and each
  operation uses up some. A memory whose clock is bounded keeps its promise while the budget
  lasts.
\<close>

lemma port_run_append:
  "port_run step (xs @ ys) s = bindR (port_run step xs s) (\<lambda>(s1, acc1, out1).
     bindR (port_run step ys s1) (\<lambda>(s2, acc2, out2). Inr (s2, acc1 @ acc2, out1 @ out2)))"
proof (induction xs arbitrary: s)
  case Nil
  show ?case by (simp add: case_prod_beta')
next
  case (Cons x xs)
  show ?case by (cases "step x s") (simp_all add: Cons.IH bindR_assoc case_prod_beta')
qed

lemma port_run_invariant:
  assumes "port_run step xs s = Inr (s', acc, out)" and "P s"
    and step: "\<And>x s s' acc out. P s \<Longrightarrow> step x s = Inr (s', acc, out) \<Longrightarrow> P s'"
  shows "P s'"
  using assms(1,2)
proof (induction xs arbitrary: s acc out)
  case (Cons x xs)
  then show ?case using step by (auto elim!: bindR_InrE)
qed simp

locale metered_port =
  fixes inv :: "nat \<Rightarrow> 's \<Rightarrow> bool" and outstanding :: "'s \<Rightarrow> 'a multiset"
    and step :: "'o \<Rightarrow> 's \<Rightarrow> ('s \<times> 'a list \<times> 'a list) result" and cost :: "'o \<Rightarrow> nat"
  assumes metered_law: "inv (cost x + n) s \<Longrightarrow> \<exists>s' acc out. step x s = Inr (s', acc, out) \<and> inv n s' \<and>
      outstanding s + mset acc = outstanding s' + mset out"
begin

lemma metered_run:
  assumes "inv (sum_list (map cost xs) + n) s"
  shows "\<exists>s' acc out. port_run step xs s = Inr (s', acc, out) \<and> inv n s' \<and>
    outstanding s + mset acc = outstanding s' + mset out"
  using assms
proof (induction xs arbitrary: s)
  case (Cons x xs)
  then have "inv (cost x + (sum_list (map cost xs) + n)) s" by (simp add: add.assoc)
  then obtain s1 acc1 out1 where s1: "step x s = Inr (s1, acc1, out1)" "inv (sum_list (map cost xs) + n) s1"
      "outstanding s + mset acc1 = outstanding s1 + mset out1"
    using metered_law by blast
  obtain s2 acc2 out2 where s2: "port_run step xs s1 = Inr (s2, acc2, out2)" "inv n s2"
      "outstanding s1 + mset acc2 = outstanding s2 + mset out2"
    using Cons.IH [OF s1(2)] by blast
  have "outstanding s + mset (acc1 @ acc2) = outstanding s2 + mset (out1 @ out2)"
    using s1(3) s2(3) by (metis (no_types) add.assoc add.commute mset_append)
  with s1(1) s2(1,2) show ?case by simp
qed simp

end

text \<open>The contract without a budget is the one in which nothing costs anything.\<close>

locale transaction_port =
  fixes inv :: "'s \<Rightarrow> bool" and outstanding :: "'s \<Rightarrow> 'a multiset"
    and step :: "'o \<Rightarrow> 's \<Rightarrow> ('s \<times> 'a list \<times> 'a list) result"
  assumes step_law: "inv s \<Longrightarrow> \<exists>s' acc out. step x s = Inr (s', acc, out) \<and> inv s' \<and>
      outstanding s + mset acc = outstanding s' + mset out"

sublocale transaction_port \<subseteq> metered: metered_port "\<lambda>_. inv" outstanding step "\<lambda>_. 0"
  by unfold_locales (rule step_law)

context transaction_port begin

lemma run_answers:
  assumes "inv s"
  shows "\<exists>s' acc out. port_run step xs s = Inr (s', acc, out) \<and> inv s' \<and>
    outstanding s + mset acc = outstanding s' + mset out"
  using metered.metered_run [where s = s and xs = xs] assms by simp

end

text \<open>A memory that refuses nothing: what it takes in is what is submitted.\<close>

locale open_port = transaction_port inv outstanding step
  for inv :: "'s \<Rightarrow> bool" and outstanding :: "'s \<Rightarrow> 'a multiset"
    and step :: "'o \<Rightarrow> 's \<Rightarrow> ('s \<times> 'a list \<times> 'a list) result" +
  fixes submits :: "'o \<Rightarrow> 'a list"
  assumes accepts_law: "step x s = Inr (s', acc, out) \<Longrightarrow> acc = submits x"
begin

lemma run_accepts:
  assumes "port_run step xs s = Inr (s', acc, out)"
  shows "acc = concat (map submits xs)"
  using assms
proof (induction xs arbitrary: s acc out)
  case (Cons x xs)
  then show ?case by (auto elim!: bindR_InrE dest: accepts_law)
qed simp

lemma run_answers_all:
  assumes "inv s"
  shows "\<exists>s' acc out. port_run step xs s = Inr (s', acc, out) \<and> inv s' \<and>
    outstanding s + mset (concat (map submits xs)) = outstanding s' + mset out"
  using run_answers [OF assms, of xs] run_accepts by blast

end

end
