(* ===== verification/Controller.thy ===== *)
theory Controller
  imports Refresh Command_Queue Transaction_Port
begin

text \<open>
  \<open>DRAMSIM3/src/controller.h\<close> and \<open>controller.cc\<close>: the memory controller of one channel. It
  owns the channel state, the command queue, the refresh generator and the statistics, takes
  read and write transactions, turns them into commands, issues one command per cycle and
  reports finished transactions.
\<close>

section \<open>The controller\<close>

datatype RowBufPolicy = OPEN_PAGE | CLOSE_PAGE | SIZE_ROW_POLICY

text \<open>
  A \<open>std::multimap\<close> is a list of pairs: equal keys keep the order of insertion, \<open>find\<close> gives
  the first. A vector whose capacity the code reads carries the capacity beside it; as in
  the GNU library, \<open>push_back\<close> on a full vector doubles it. \<open>cmd_trace\<close> is the stream that
  the build option \<open>CMD_TRACE\<close> writes: each command issued, with its cycle.
\<close>

type_synonym pending = "(u64 \<times> Transaction) list"

record Controller =
  channel_id :: int
  ctl_clk :: u64
  ctl_stats :: SimpleStats
  ctl_channel :: ChannelState
  ctl_cmd_queue :: CommandQueue
  ctl_refresh :: Refresh
  is_unified_queue :: bool
  unified_q :: "Transaction list"
  unified_cap :: nat
  read_queue :: "Transaction list"
  read_cap :: nat
  write_buffer :: "Transaction list"
  write_cap :: nat
  pending_rd_q :: pending
  pending_wr_q :: pending
  return_queue :: "Transaction list"
  row_policy :: RowBufPolicy
  cmd_trace :: "(u64 \<times> Command) list"
  last_trans_clk :: u64
  write_draining :: int

definition mk_Controller :: "Config \<Rightarrow> int \<Rightarrow> Controller result" where
  "mk_Controller c ch =
     bindR (mk_CommandQueue c) (\<lambda>cq.
     bindR (mk_Refresh c) (\<lambda>rf.
       if trans_queue_size c < 0 then Inl LengthError
       else
         let cap = nat (trans_queue_size c)
         in Inr \<lparr>channel_id = ch, ctl_clk = 0, ctl_stats = mk_SimpleStats c,
              ctl_channel = mk_ChannelState c, ctl_cmd_queue = cq, ctl_refresh = rf,
              is_unified_queue = unified_queue c,
              unified_q = [], unified_cap = (if unified_queue c then cap else 0),
              read_queue = [], read_cap = (if unified_queue c then 0 else cap),
              write_buffer = [], write_cap = (if unified_queue c then 0 else cap),
              pending_rd_q = [], pending_wr_q = [], return_queue = [],
              row_policy = (if row_buf_policy c = ''CLOSE_PAGE'' then CLOSE_PAGE else OPEN_PAGE),
              cmd_trace = [], last_trans_clk = 0, write_draining = 0\<rparr>))"

definition push_cap :: "'a list \<Rightarrow> nat \<Rightarrow> nat" where
  "push_cap xs cap = (if length xs < cap then cap else if xs = [] then 1 else 2 * length xs)"

definition count_key :: "pending \<Rightarrow> u64 \<Rightarrow> nat" where
  "count_key m a = length (filter (\<lambda>e. fst e = a) m)"

section \<open>Transactions from and to the processor\<close>

definition ReturnDoneTrans :: "Controller \<Rightarrow> u64 \<Rightarrow> (u64 \<times> int) \<times> Controller" where
  "ReturnDoneTrans ctl clk =
     (case List.find (\<lambda>t. complete_cycle t \<le> clk) (return_queue ctl) of
        None \<Rightarrow> ((-1, -1), ctl)
      | Some t \<Rightarrow>
          let st = (if is_write t then Increment (ctl_stats ctl) ''num_writes_done''
                    else AddValue (Increment (ctl_stats ctl) ''num_reads_done'') ''read_latency''
                           (to_int32 (ctl_clk ctl - added_cycle t)))
          in ((trans_addr t, if is_write t then 1 else 0),
              ctl\<lparr>ctl_stats := st,
                return_queue := erase_first (\<lambda>t. complete_cycle t \<le> clk) (return_queue ctl)\<rparr>))"

definition WillAcceptTransaction :: "Controller \<Rightarrow> u64 \<Rightarrow> bool \<Rightarrow> bool" where
  "WillAcceptTransaction ctl hex is_wr =
     (if is_unified_queue ctl then length (unified_q ctl) < unified_cap ctl
      else if \<not> is_wr then length (read_queue ctl) < read_cap ctl
      else length (write_buffer ctl) < write_cap ctl)"

definition push_unified :: "Controller \<Rightarrow> Transaction \<Rightarrow> Controller" where
  "push_unified ctl t =
     ctl\<lparr>unified_q := unified_q ctl @ [t],
         unified_cap := push_cap (unified_q ctl) (unified_cap ctl)\<rparr>"

definition push_read :: "Controller \<Rightarrow> Transaction \<Rightarrow> Controller" where
  "push_read ctl t =
     ctl\<lparr>read_queue := read_queue ctl @ [t], read_cap := push_cap (read_queue ctl) (read_cap ctl)\<rparr>"

definition push_write :: "Controller \<Rightarrow> Transaction \<Rightarrow> Controller" where
  "push_write ctl t =
     ctl\<lparr>write_buffer := write_buffer ctl @ [t],
         write_cap := push_cap (write_buffer ctl) (write_cap ctl)\<rparr>"

definition AddTransaction :: "Controller \<Rightarrow> Transaction \<Rightarrow> bool \<times> Controller" where
  "AddTransaction ctl trans0 =
     (let trans = trans0\<lparr>added_cycle := ctl_clk ctl\<rparr>;
          c1 = ctl\<lparr>ctl_stats := AddValue (ctl_stats ctl) ''interarrival_latency''
                       (to_int32 (ctl_clk ctl - last_trans_clk ctl)),
                   last_trans_clk := ctl_clk ctl\<rparr>;
          finished = trans\<lparr>complete_cycle := ctl_clk ctl + 1\<rparr>
      in if is_write trans then
           let c2 = (if count_key (pending_wr_q c1) (trans_addr trans) = 0 then
                       let d = c1\<lparr>pending_wr_q := pending_wr_q c1 @ [(trans_addr trans, trans)]\<rparr>
                       in if is_unified_queue d then push_unified d trans else push_write d trans
                     else c1)
           in (True, c2\<lparr>return_queue := return_queue c2 @ [finished]\<rparr>)
         else if count_key (pending_wr_q c1) (trans_addr trans) > 0 then
           (True, c1\<lparr>return_queue := return_queue c1 @ [finished]\<rparr>)
         else
           let d = c1\<lparr>pending_rd_q := pending_rd_q c1 @ [(trans_addr trans, trans)]\<rparr>
           in (True, if count_key (pending_rd_q d) (trans_addr trans) = 1 then
                       if is_unified_queue d then push_unified d trans else push_read d trans
                     else d))"

section \<open>Scheduling transactions\<close>

definition TransToCommand :: "Config \<Rightarrow> Controller \<Rightarrow> Transaction \<Rightarrow> Command result" where
  "TransToCommand c ctl tr =
     bindR (AddressMapping c (trans_addr tr)) (\<lambda>addr.
       Inr (mk_Command
              (if row_policy ctl = OPEN_PAGE then if is_write tr then WRITE else READ
               else if is_write tr then WRITE_PRECHARGE else READ_PRECHARGE)
              addr (trans_addr tr)))"

text \<open>
  The loop over the chosen queue, split at the iterator; it returns the controller and the
  queue as the loop leaves it.
\<close>

fun schedule_loop ::
  "Config \<Rightarrow> Controller \<Rightarrow> Transaction list \<Rightarrow> Transaction list \<Rightarrow> (Controller \<times> Transaction list) result" where
  "schedule_loop c ctl prev [] = Inr (ctl, prev)"
| "schedule_loop c ctl prev (t # rest) =
     bindR (TransToCommand c ctl t) (\<lambda>cmd.
     bindR (WillAcceptCommand c (ctl_cmd_queue ctl) (Rank cmd) (Bankgroup cmd) (Bank cmd)) (\<lambda>ok.
       if \<not> ok then schedule_loop c ctl (prev @ [t]) rest
       else if \<not> is_unified_queue ctl \<and> IsWrite cmd \<and> count_key (pending_rd_q ctl) (trans_addr t) > 0
       then Inr (ctl\<lparr>write_draining := 0\<rparr>, prev @ t # rest)
       else
         let c1 = (if \<not> is_unified_queue ctl \<and> IsWrite cmd
                   then ctl\<lparr>write_draining := write_draining ctl - 1\<rparr> else ctl)
         in bindR (AddCommand c (ctl_cmd_queue c1) cmd) (\<lambda>(_, cq).
              Inr (c1\<lparr>ctl_cmd_queue := cq\<rparr>, prev @ rest))))"

definition choose_draining :: "Controller \<Rightarrow> Controller" where
  "choose_draining ctl =
     (if write_draining ctl = 0 \<and> \<not> is_unified_queue ctl \<and>
         (write_cap ctl \<le> length (write_buffer ctl) \<or>
          8 < length (write_buffer ctl) \<and> QueueEmpty (ctl_cmd_queue ctl))
      then ctl\<lparr>write_draining := int (length (write_buffer ctl))\<rparr> else ctl)"

definition ScheduleTransaction :: "Config \<Rightarrow> Controller \<Rightarrow> Controller result" where
  "ScheduleTransaction c ctl0 =
     (let ctl = choose_draining ctl0
      in if is_unified_queue ctl then
           bindR (schedule_loop c ctl [] (unified_q ctl)) (\<lambda>(d, q). Inr (d\<lparr>unified_q := q\<rparr>))
         else if write_draining ctl > 0 then
           bindR (schedule_loop c ctl [] (write_buffer ctl)) (\<lambda>(d, q). Inr (d\<lparr>write_buffer := q\<rparr>))
         else
           bindR (schedule_loop c ctl [] (read_queue ctl)) (\<lambda>(d, q). Inr (d\<lparr>read_queue := q\<rparr>)))"

section \<open>Issuing commands\<close>

definition UpdateCommandStats :: "ChannelState \<Rightarrow> SimpleStats \<Rightarrow> Command \<Rightarrow> SimpleStats result" where
  "UpdateCommandStats s st cmd =
     (case cmd_type cmd of
        ACTIVATE \<Rightarrow> Inr (Increment st ''num_act_cmds'')
      | PRECHARGE \<Rightarrow> Inr (Increment st ''num_pre_cmds'')
      | REFRESH \<Rightarrow> Inr (Increment st ''num_ref_cmds'')
      | REFRESH_BANK \<Rightarrow> Inr (Increment st ''num_refb_cmds'')
      | SREF_ENTER \<Rightarrow> Inr (Increment st ''num_srefe_cmds'')
      | SREF_EXIT \<Rightarrow> Inr (Increment st ''num_srefx_cmds'')
      | SIZE_CMD \<Rightarrow> Inl (AbruptExit ''controller.cc'' 343)
      | _ \<Rightarrow>
          let (cmds, hits) = (if IsRead cmd then (''num_read_cmds'', ''num_read_row_hits'')
                              else (''num_write_cmds'', ''num_write_row_hits''));
              st1 = Increment st cmds
          in bindR (chan_RowHitCount s (Rank cmd) (Bankgroup cmd) (Bank cmd)) (\<lambda>n.
               Inr (if n \<noteq> 0 then Increment st1 hits else st1)))"

text \<open>The loop that returns all pending reads of the address; dereferencing \<open>end()\<close> is a failure.\<close>

fun return_reads ::
  "nat \<Rightarrow> u64 \<Rightarrow> u64 \<Rightarrow> pending \<times> Transaction list \<Rightarrow> (pending \<times> Transaction list) result" where
  "return_reads 0 a done_at pr = Inr pr"
| "return_reads (Suc n) a done_at pr =
     (case List.find (\<lambda>e. fst e = a) (fst pr) of
        None \<Rightarrow> Inl OutOfBounds
      | Some e \<Rightarrow> return_reads n a done_at
          (erase_first (\<lambda>e. fst e = a) (fst pr), snd pr @ [(snd e)\<lparr>complete_cycle := done_at\<rparr>]))"

definition issue_pending :: "Config \<Rightarrow> Controller \<Rightarrow> Command \<Rightarrow> Controller result" where
  "issue_pending c ctl cmd =
     (if IsRead cmd then
        let num_reads = count_key (pending_rd_q ctl) (hex_addr cmd)
        in if num_reads = 0 then Inl (Exit 1)
           else bindR (return_reads num_reads (hex_addr cmd) (ctl_clk ctl + of_int (read_delay c))
                    (pending_rd_q ctl, return_queue ctl)) (\<lambda>(rd, ret).
                  Inr (ctl\<lparr>pending_rd_q := rd, return_queue := ret\<rparr>))
      else if IsWrite cmd then
        case List.find (\<lambda>e. fst e = hex_addr cmd) (pending_wr_q ctl) of
          None \<Rightarrow> Inl (Exit 1)
        | Some e \<Rightarrow>
            let wr_lat = ctl_clk ctl - added_cycle (snd e) + of_int (write_delay c)
            in Inr (ctl\<lparr>ctl_stats := AddValue (ctl_stats ctl) ''write_latency'' (to_int32 wr_lat),
                 pending_wr_q := erase_first (\<lambda>e. fst e = hex_addr cmd) (pending_wr_q ctl)\<rparr>)
      else Inr ctl)"

definition IssueCommand :: "Config \<Rightarrow> Controller \<Rightarrow> Command \<Rightarrow> Controller result" where
  "IssueCommand c ctl cmd =
     bindR (issue_pending c (ctl\<lparr>cmd_trace := cmd_trace ctl @ [(ctl_clk ctl, cmd)]\<rparr>) cmd) (\<lambda>d.
     bindR (UpdateCommandStats (ctl_channel d) (ctl_stats d) cmd) (\<lambda>st.
     bindR (UpdateTimingAndStates c (mk_Timing c) (ctl_channel d) cmd (ctl_clk d)) (\<lambda>s.
       Inr (d\<lparr>ctl_stats := st, ctl_channel := s\<rparr>))))"

section \<open>One cycle\<close>

definition tick_command :: "Config \<Rightarrow> Controller \<Rightarrow> (Command \<times> Controller) result" where
  "tick_command c ctl =
     bindR (if IsRefreshWaiting (ctl_channel ctl)
            then FinishRefresh c (ctl_channel ctl) (ctl_cmd_queue ctl)
            else Inr (Command0, ctl_cmd_queue ctl)) (\<lambda>(cmd, cq).
       if IsValid cmd then Inr (cmd, ctl\<lparr>ctl_cmd_queue := cq\<rparr>)
       else
         bindR (GetCommandToIssue c (ctl_channel ctl) cq (ctl_stats ctl)) (\<lambda>(cmd1, cq1, st).
           Inr (cmd1, ctl\<lparr>ctl_cmd_queue := cq1, ctl_stats := st\<rparr>)))"

definition tick_issue :: "Config \<Rightarrow> Controller \<Rightarrow> Command \<Rightarrow> Controller result" where
  "tick_issue c ctl cmd =
     (if \<not> IsValid cmd then Inr ctl
      else
        bindR (IssueCommand c ctl cmd) (\<lambda>d.
          if enable_hbm_dual_cmd c then
            bindR (GetCommandToIssue c (ctl_channel d) (ctl_cmd_queue d) (ctl_stats d)) (\<lambda>(second, cq, st).
              let e = d\<lparr>ctl_cmd_queue := cq, ctl_stats := st\<rparr>
              in if IsValid second \<and> IsReadWrite second \<noteq> IsReadWrite cmd then
                   bindR (IssueCommand c e second) (\<lambda>f.
                     Inr (f\<lparr>ctl_stats := Increment (ctl_stats f) ''hbm_dual_cmds''\<rparr>))
                 else Inr e)
          else Inr d))"

definition power_rank :: "Config \<Rightarrow> int \<Rightarrow> Controller \<Rightarrow> Controller result" where
  "power_rank c i ctl =
     bindR (IsRankSelfRefreshing (ctl_channel ctl) i) (\<lambda>sref.
       if sref then
         bindR (IncrementVec (ctl_stats ctl) ''sref_cycles'' i) (\<lambda>st. Inr (ctl\<lparr>ctl_stats := st\<rparr>))
       else
         bindR (IsAllBankIdleInRank c (ctl_channel ctl) i) (\<lambda>all_idle.
         bindR (vec_at (rank_idle_cycles (ctl_channel ctl)) i) (\<lambda>n.
         bindR (IncrementVec (ctl_stats ctl)
                  (if all_idle then ''all_bank_idle_cycles'' else ''rank_active_cycles'') i) (\<lambda>st.
         bindR (vec_set (rank_idle_cycles (ctl_channel ctl)) i (if all_idle then n + 1 else 0)) (\<lambda>v.
           Inr (ctl\<lparr>ctl_stats := st, ctl_channel := (ctl_channel ctl)\<lparr>rank_idle_cycles := v\<rparr>\<rparr>))))))"

text \<open>The loop that moves ranks into and out of self refresh; it ends at the first command issued.\<close>

fun sref_loop :: "Config \<Rightarrow> int list \<Rightarrow> Controller \<Rightarrow> Controller result" where
  "sref_loop c [] ctl = Inr ctl"
| "sref_loop c (i # is) ctl =
     bindR (IsRankSelfRefreshing (ctl_channel ctl) i) (\<lambda>sref.
     bindR (vec_at (rank_q_empty (ctl_cmd_queue ctl)) i) (\<lambda>q_empty.
     bindR (vec_at (rank_idle_cycles (ctl_channel ctl)) i) (\<lambda>idle.
       if (if sref then \<not> q_empty else q_empty \<and> sref_threshold c \<le> idle) then
         bindR (chan_GetReadyCommand c (ctl_channel ctl)
                  (mk_Command (if sref then SREF_EXIT else SREF_ENTER) (Address0\<lparr>rank := i\<rparr>) (-1))
                  (ctl_clk ctl)) (\<lambda>cmd.
           if IsValid cmd then IssueCommand c ctl cmd else sref_loop c is ctl)
       else sref_loop c is ctl)))"

definition ctl_ClockTick :: "Config \<Rightarrow> Controller \<Rightarrow> Controller result" where
  "ctl_ClockTick c ctl =
     bindR (ref_ClockTick c (ctl_refresh ctl) (ctl_channel ctl)) (\<lambda>(rf, s).
     bindR (tick_command c (ctl\<lparr>ctl_refresh := rf, ctl_channel := s\<rparr>)) (\<lambda>(cmd, c1).
     bindR (tick_issue c c1 cmd) (\<lambda>c2.
     bindR (foldR (power_rank c) [0 .. ranks c - 1] c2) (\<lambda>c3.
     bindR (if enable_self_refresh c \<and> \<not> IsValid cmd then sref_loop c [0 .. ranks c - 1] c3 else Inr c3) (\<lambda>c4.
     bindR (ScheduleTransaction c c4) (\<lambda>c5.
       Inr (c5\<lparr>ctl_clk := ctl_clk c5 + 1, ctl_cmd_queue := cq_ClockTick (ctl_cmd_queue c5),
               ctl_stats := Increment (ctl_stats c5) ''num_cycles''\<rparr>)))))))"

section \<open>Statistics\<close>

definition ctl_QueueUsage :: "Controller \<Rightarrow> int" where
  "ctl_QueueUsage ctl = QueueUsage (ctl_cmd_queue ctl)"

definition ctl_PrintEpochStats :: "Controller \<Rightarrow> Controller result" where
  "ctl_PrintEpochStats ctl =
     bindR (UpdateEpochStats (Increment (ctl_stats ctl) ''epoch_num'')) (\<lambda>st. Inr (ctl\<lparr>ctl_stats := st\<rparr>))"

definition ctl_PrintFinalStats :: "Controller \<Rightarrow> Controller result" where
  "ctl_PrintFinalStats ctl =
     bindR (UpdateFinalStats (ctl_stats ctl)) (\<lambda>st. Inr (ctl\<lparr>ctl_stats := st\<rparr>))"

definition ctl_ResetStats :: "Controller \<Rightarrow> Controller" where
  "ctl_ResetStats ctl = ctl\<lparr>ctl_stats := stats_Reset (ctl_stats ctl)\<rparr>"

section \<open>Invariant\<close>

text \<open>Every physical address decodes to a bank of the channel.\<close>

definition decodes :: "Config \<Rightarrow> bool" where
  "decodes c \<longleftrightarrow> (\<forall>a. \<exists>ad. AddressMapping c a = Inr ad \<and> bank_index c (rank ad) (bankgroup ad) (bank ad))"

text \<open>
  The parts are consistent: the channel with no rank in self refresh, the command queue,
  whose clock is the controller's, the suspended queues, the statistics, the generator.
\<close>

definition dev_inv :: "Config \<Rightarrow> Controller \<Rightarrow> bool" where
  "dev_inv c ctl \<longleftrightarrow> chan_inv c (ctl_channel ctl) \<and> True \<notin> set (rank_is_sref (ctl_channel ctl)) \<and>
     cq_inv c (ctl_cmd_queue ctl) \<and> ref_sync c (ctl_channel ctl) (ctl_cmd_queue ctl) \<and>
     cq_clk (ctl_cmd_queue ctl) = ctl_clk ctl \<and> stats_inv c (ctl_stats ctl) \<and>
     ref_inv c (ctl_refresh ctl)"

text \<open>
  The reads under way, one per address however many transactions wait for it, and the
  writes under way: in a transaction queue or as a command in the command queue.
\<close>

definition waiting_trans :: "Controller \<Rightarrow> Transaction multiset" where
  "waiting_trans ctl = mset (unified_q ctl) + mset (read_queue ctl) + mset (write_buffer ctl)"

definition rd_work :: "Controller \<Rightarrow> u64 multiset" where
  "rd_work ctl = image_mset trans_addr {#t \<in># waiting_trans ctl. \<not> is_write t#} +
     image_mset hex_addr {#cmd \<in># bag (ctl_cmd_queue ctl). IsRead cmd#}"

definition wr_work :: "Controller \<Rightarrow> u64 multiset" where
  "wr_work ctl = image_mset trans_addr {#t \<in># waiting_trans ctl. is_write t#} +
     image_mset hex_addr {#cmd \<in># bag (ctl_cmd_queue ctl). IsWrite cmd#}"

definition pend_inv :: "Controller \<Rightarrow> bool" where
  "pend_inv ctl \<longleftrightarrow>
     rd_work ctl = mset_set (fst ` set (pending_rd_q ctl)) \<and>
     wr_work ctl = mset (map fst (pending_wr_q ctl)) \<and> distinct (map fst (pending_wr_q ctl)) \<and>
     (\<forall>(a, t) \<in> set (pending_rd_q ctl). a = trans_addr t \<and> \<not> is_write t)"

definition ctl_inv :: "Config \<Rightarrow> Controller \<Rightarrow> bool" where
  "ctl_inv c ctl \<longleftrightarrow> dev_inv c ctl \<and> pend_inv ctl"

lemma queues_refresh_frame:
  assumes "queues_refresh c s s'"
  shows "rank_is_sref s' = rank_is_sref s" and "\<exists>Q. refresh_q s' = refresh_q s @ Q"
  using assms by (auto simp: queues_refresh_def RankNeedRefresh_def BankNeedRefresh_def)

lemma ref_sync_more: "ref_sync c s cq \<Longrightarrow> refresh_q s' = refresh_q s @ Q \<Longrightarrow> ref_sync c s' cq"
  by (auto simp: ref_sync_def split: if_splits)

lemma ref_sync_frame:
  assumes "cq_same cq cq'"
  shows "ref_sync c s cq' = ref_sync c s cq"
proof -
  have "ref_indices c cq' = ref_indices c cq"
    using assms by (auto simp: cq_same_def ref_indices_def GetQueueIndex_def fun_eq_iff)
  with assms show ?thesis by (simp add: cq_same_def ref_sync_def)
qed

section \<open>Choosing the command of a cycle\<close>

lemma chan_ready_refresh:
  assumes "chan_inv c s" and "geometry_ok c" and "ref_ok c req"
    and "chan_GetReadyCommand c s req clk = Inr cmd" and "IsValid cmd"
  shows "\<not> IsReadWrite cmd" and "cmd_type cmd \<noteq> SREF_ENTER"
proof -
  have ok: "cmd_ok c req" "IsRefresh req" using assms(3) by (auto simp: ref_ok_def)
  have "\<not> IsReadWrite cmd \<and> cmd_type cmd \<noteq> SREF_ENTER"
  proof (cases "IsRankCMD req")
    case True
    then obtain res where res: "rank_ready_loop s req clk (bank_loop c) Command0 0 = Inr res"
      and cmd: "(case res of Inl early \<Rightarrow> Inr early
          | Inr (ready_cmd, num_ready) \<Rightarrow> if num_ready = banks c then Inr ready_cmd else Inr Command0)
        = (Inr cmd :: Command result)"
      using assms(4) by (auto simp: chan_GetReadyCommand_def)
    show ?thesis
    proof (cases res)
      case (Inl e)
      then have "cmd_type cmd = PRECHARGE"
        using res cmd rank_ready_precharge [OF assms(1) ok(1) True] by auto
      then show ?thesis by simp
    next
      case (Inr p)
      have ne: "bank_loop c \<noteq> []"
        using length_bank_loop [OF assms(2)] assms(2) by (auto simp: geometry_ok_def)
      obtain rc n where p: "p = (rc, n)" by (cases p)
      have n: "n = banks c" "rc = cmd" using Inr p cmd assms(5) by (auto split: if_splits)
      have "IsValid req" using ok by auto
      then have "cmd_type cmd = cmd_type req"
        using rank_ready_loop_count [OF res [unfolded Inr p n]] ne length_bank_loop [OF assms(2)] by auto
      with ok(2) show ?thesis by auto
    qed
  next
    case False
    then have bi: "bank_index c (Rank req) (Bankgroup req) (Bank req)"
      using ok by (simp add: cmd_ok_def)
    have "bank_GetReadyCommand (at_bank (bank_states s) (Rank req, Bankgroup req, Bank req)) req clk = Inr cmd"
      using assms(4,5) False unfolding chan_GetReadyCommand_def get3_bank [OF chan_invD(2) [OF assms(1)] bi]
      by (auto split: if_splits elim!: bindR_InrE)
    from bank_ready_cases(1) [OF this assms(5)]
    have "required_type (at_bank (bank_states s) (Rank req, Bankgroup req, Bank req)) req = Inr (cmd_type cmd)" .
    from required_type_cases(5,6) [OF this] ok(2) show ?thesis by auto
  qed
  then show "\<not> IsReadWrite cmd" and "cmd_type cmd \<noteq> SREF_ENTER" by auto
qed

text \<open>
  The command of a cycle: \<open>chosen c s clk cmd\<close> says that the channel answered some request
  with it.
\<close>

definition chosen :: "Config \<Rightarrow> ChannelState \<Rightarrow> u64 \<Rightarrow> Command \<Rightarrow> bool" where
  "chosen c s clk cmd \<longleftrightarrow> IsValid cmd \<and> (\<exists>req. cmd_ok c req \<and> chan_GetReadyCommand c s req clk = Inr cmd)"

lemma nosref_answers:
  assumes "chan_inv c s" and "True \<notin> set (rank_is_sref s)" and "ref_ok c q"
  shows "chan_answers s q"
proof -
  have "length (rank_is_sref s) = nat (ranks c)"
    using chan_invD(1) [OF assms(1)] unfolding chan_shape_def by blast
  moreover have q: "0 \<le> Rank q" "Rank q < ranks c" "IsRefresh q"
    using assms(3) unfolding ref_ok_def cmd_ok_def by blast+
  ultimately have "nat (Rank q) < length (rank_is_sref s)" by simp
  then have "\<not> rank_is_sref s ! nat (Rank q)" using assms(2) nth_mem by (metis (full_types))
  with q(3) show ?thesis by (auto simp: chan_answers_def)
qed

lemma GetCommandToIssue_chosen:
  assumes "chan_inv c s" and "geometry_ok c" and "cq_inv c cq" and "stats_inv c st"
  shows "\<exists>cmd cq' st'. GetCommandToIssue c s cq st = Inr (cmd, cq', st') \<and> cq_inv c cq' \<and> stats_inv c st' \<and>
    cq_same cq cq' \<and> bag cq = bag cq' + (if IsReadWrite cmd then {#cmd#} else {#}) \<and>
    (IsValid cmd \<longrightarrow> chosen c s (cq_clk cq) cmd) \<and> \<not> IsRefresh cmd \<and> cmd_type cmd \<noteq> SREF_ENTER"
proof -
  obtain cmd cq' st' where g: "GetCommandToIssue c s cq st = Inr (cmd, cq', st')" "cq_inv c cq'"
      "stats_inv c st'" "cq_same cq cq'" and p: "picked c s (nat (num_queues cq)) cq cmd cq'"
    using GetCommandToIssue_spec [OF assms] by blast
  have b: "bag cq = bag cq' + (if IsReadWrite cmd then {#cmd#} else {#})"
    using p unfolding picked_def by blast
  have "chosen c s (cq_clk cq) cmd \<and> \<not> IsRefresh cmd \<and> cmd_type cmd \<noteq> SREF_ENTER" if v: "IsValid cmd"
  proof -
    obtain i req where r: "chan_GetReadyCommand c s req (cq_clk cq) = Inr cmd" "queued_ok c cq i req"
      using picked_request [OF p v assms(3,1)] by blast
    then have rq: "cmd_ok c req" "IsReadWrite req" unfolding queued_ok_def by blast+
    from chan_ready_rw(3) [OF rq assms(1) r(1) v] rq(2) have "\<not> IsRefresh cmd \<and> cmd_type cmd \<noteq> SREF_ENTER"
      by auto
    with r rq v show ?thesis unfolding chosen_def by blast
  qed
  moreover have "\<not> IsRefresh cmd \<and> cmd_type cmd \<noteq> SREF_ENTER" if "\<not> IsValid cmd" using that by simp
  ultimately show ?thesis using g b by blast
qed

lemma tick_command_spec:
  assumes "dev_inv c ctl" and "geometry_ok c"
  shows "\<exists>cmd cq st. tick_command c ctl = Inr (cmd, ctl\<lparr>ctl_cmd_queue := cq, ctl_stats := st\<rparr>) \<and>
    cq_inv c cq \<and> stats_inv c st \<and> ref_sync c (ctl_channel ctl) cq \<and> cq_clk cq = ctl_clk ctl \<and>
    (IsRefresh cmd \<longrightarrow> \<not> is_in_ref cq) \<and>
    bag (ctl_cmd_queue ctl) = bag cq + (if IsReadWrite cmd then {#cmd#} else {#}) \<and>
    (IsValid cmd \<longrightarrow> chosen c (ctl_channel ctl) (ctl_clk ctl) cmd) \<and> cmd_type cmd \<noteq> SREF_ENTER"
proof -
  let ?s = "ctl_channel ctl" and ?cq = "ctl_cmd_queue ctl"
  have d: "chan_inv c ?s" "True \<notin> set (rank_is_sref ?s)" "cq_inv c ?cq" "ref_sync c ?s ?cq"
      "cq_clk ?cq = ctl_clk ctl" "stats_inv c (ctl_stats ctl)"
    using assms(1) by (auto simp: dev_inv_def)
  obtain cmd0 cq0 where first: "(if IsRefreshWaiting ?s then FinishRefresh c ?s ?cq
      else Inr (Command0, ?cq)) = Inr (cmd0, cq0)" "cq_inv c cq0" "ref_sync c ?s cq0" "bag cq0 = bag ?cq"
      "cq_clk cq0 = ctl_clk ctl" "IsRefresh cmd0 \<longrightarrow> \<not> is_in_ref cq0" "\<not> IsReadWrite cmd0"
      "cmd_type cmd0 \<noteq> SREF_ENTER" "IsValid cmd0 \<longrightarrow> chosen c ?s (ctl_clk ctl) cmd0"
  proof (cases "refresh_q ?s = []")
    case True
    with d that [of Command0 ?cq] show ?thesis by (simp add: IsRefreshWaiting_def)
  next
    case False
    let ?q = "hd (refresh_q ?s)"
    have q: "ref_ok c ?q" using chan_invD(5) [OF d(1)] False by simp
    obtain cmd cq' where f: "FinishRefresh c ?s ?cq = Inr (cmd, cq')" "cq_inv c cq'" "queues cq' = queues ?cq"
        "cq_clk cq' = cq_clk ?cq" "chan_GetReadyCommand c ?s ?q (cq_clk ?cq) = Inr cmd"
        "is_in_ref cq' = (\<not> IsRefresh cmd)" "ref_sync c ?s cq'"
      using FinishRefresh_spec [OF d(1) assms(2) d(3,4) False nosref_answers [OF d(1,2) q]] by blast
    have "\<not> IsReadWrite cmd \<and> cmd_type cmd \<noteq> SREF_ENTER"
      using chan_ready_refresh [OF d(1) assms(2) q f(5)] by (cases "IsValid cmd") auto
    moreover have "chosen c ?s (ctl_clk ctl) cmd" if "IsValid cmd"
      using f(5) q that d(5) unfolding chosen_def ref_ok_def by metis
    ultimately show ?thesis
      using that [of cmd cq'] f False d(5) by (simp add: IsRefreshWaiting_def bag_def)
  qed
  show ?thesis
  proof (cases "IsValid cmd0")
    case True
    then have "tick_command c ctl = Inr (cmd0, ctl\<lparr>ctl_cmd_queue := cq0, ctl_stats := ctl_stats ctl\<rparr>)"
      unfolding tick_command_def first(1) by simp
    moreover have "bag ?cq = bag cq0 + (if IsReadWrite cmd0 then {#cmd0#} else {#})"
      using first(4,7) by (simp only: if_False add_0_right)
    ultimately show ?thesis using first True d(6) by blast
  next
    case False
    obtain cmd cq' st' where g: "GetCommandToIssue c ?s cq0 (ctl_stats ctl) = Inr (cmd, cq', st')"
        "cq_inv c cq'" "stats_inv c st'" "cq_same cq0 cq'"
        "bag cq0 = bag cq' + (if IsReadWrite cmd then {#cmd#} else {#})"
        "IsValid cmd \<longrightarrow> chosen c ?s (cq_clk cq0) cmd" "\<not> IsRefresh cmd" "cmd_type cmd \<noteq> SREF_ENTER"
      using GetCommandToIssue_chosen [OF d(1) assms(2) first(2) d(6)] by blast
    have "tick_command c ctl = Inr (cmd, ctl\<lparr>ctl_cmd_queue := cq', ctl_stats := st'\<rparr>)"
      unfolding tick_command_def first(1) using False g(1) by simp
    moreover have "ref_sync c ?s cq'" using ref_sync_frame [OF g(4)] first(3) by simp
    moreover have "cq_clk cq' = ctl_clk ctl" using g(4) first(5) by (simp add: cq_same_def)
    moreover have "bag ?cq = bag cq' + (if IsReadWrite cmd then {#cmd#} else {#})" using g(5) first(4) by simp
    ultimately show ?thesis using g(2,3,6-8) first(5) by metis
  qed
qed

section \<open>Issuing a command\<close>

lemma find_filter: "List.find p xs = (case filter p xs of [] \<Rightarrow> None | x # _ \<Rightarrow> Some x)"
  by (induction xs) auto

lemma filter_erase_first:
  assumes "filter p xs = y # ys"
  shows "filter p (erase_first p xs) = ys" and "filter (\<lambda>x. \<not> p x) (erase_first p xs) = filter (\<lambda>x. \<not> p x) xs"
  using assms by (induction xs) (auto split: if_splits)

lemma return_reads_all:
  "n = count_key m a \<Longrightarrow> return_reads n a d (m, r) =
     Inr (filter (\<lambda>e. fst e \<noteq> a) m, r @ map (\<lambda>e. (snd e)\<lparr>complete_cycle := d\<rparr>) (filter (\<lambda>e. fst e = a) m))"
proof (induction n arbitrary: m r)
  case 0
  then have "filter (\<lambda>e. fst e = a) m = []" by (simp add: count_key_def)
  then show ?case by (auto simp: filter_empty_conv filter_id_conv)
next
  case (Suc n)
  let ?p = "\<lambda>e. fst e = a"
  obtain e es where e: "filter ?p m = e # es" and n: "n = length es"
    using Suc.prems by (auto simp: count_key_def Suc_length_conv)
  note f = filter_erase_first [OF e]
  have "n = count_key (erase_first ?p m) a" using n f(1) by (simp add: count_key_def)
  from Suc.IH [OF this] show ?case by (simp add: find_filter e f)
qed

lemma count_key_zero: "count_key m a = 0 \<longleftrightarrow> a \<notin> fst ` set m"
  by (auto simp: count_key_def filter_empty_conv)

lemma UpdateCommandStats_total:
  assumes "chan_inv c s" and "stats_inv c st" and "cmd_ok c cmd"
  shows "\<exists>st'. UpdateCommandStats s st cmd = Inr st' \<and> stats_inv c st'"
proof -
  have "\<exists>n. chan_RowHitCount s (Rank cmd) (Bankgroup cmd) (Bank cmd) = Inr n" if "\<not> IsRankCMD cmd"
  proof -
    have "bank_index c (Rank cmd) (Bankgroup cmd) (Bank cmd)"
      using assms(3) that unfolding cmd_ok_def by blast
    then show ?thesis using get3_bank [OF chan_invD(2) [OF assms(1)]] by (simp add: chan_RowHitCount_def)
  qed
  moreover have "IsValid cmd" using assms(3) unfolding cmd_ok_def by blast
  ultimately show ?thesis
    using assms(2) by (cases "cmd_type cmd") (auto simp: UpdateCommandStats_def Let_def)
qed

lemma rw_cases:
  obtains (r) "IsRead cmd" "\<not> IsWrite cmd" | (w) "IsWrite cmd" "\<not> IsRead cmd"
    | (o) "\<not> IsRead cmd" "\<not> IsWrite cmd"
  by (cases "cmd_type cmd") auto

text \<open>The controller after a command was issued, up to statistics and channel.\<close>

definition paid :: "Config \<Rightarrow> Controller \<Rightarrow> Command \<Rightarrow> Controller" where
  "paid c ctl cmd =
     ctl\<lparr>pending_rd_q := (if IsRead cmd then filter (\<lambda>e. fst e \<noteq> hex_addr cmd) (pending_rd_q ctl)
                        else pending_rd_q ctl),
       pending_wr_q := (if IsWrite cmd then erase_first (\<lambda>e. fst e = hex_addr cmd) (pending_wr_q ctl)
                        else pending_wr_q ctl),
       return_queue := (if IsRead cmd
          then return_queue ctl @ map (\<lambda>e. (snd e)\<lparr>complete_cycle := ctl_clk ctl + of_int (read_delay c)\<rparr>)
                 (filter (\<lambda>e. fst e = hex_addr cmd) (pending_rd_q ctl))
          else return_queue ctl)\<rparr>"

definition issue_result :: "Config \<Rightarrow> Controller \<Rightarrow> Command \<Rightarrow> SimpleStats \<Rightarrow> ChannelState \<Rightarrow> Controller" where
  "issue_result c ctl cmd st s =
     (paid c (ctl\<lparr>cmd_trace := cmd_trace ctl @ [(ctl_clk ctl, cmd)]\<rparr>) cmd)\<lparr>ctl_stats := st, ctl_channel := s\<rparr>"

lemma issue_result_simps [simp]:
  "ctl_stats (issue_result c ctl cmd st s) = st" "ctl_channel (issue_result c ctl cmd st s) = s"
  "ctl_clk (issue_result c ctl cmd st s) = ctl_clk ctl"
  "ctl_cmd_queue (issue_result c ctl cmd st s) = ctl_cmd_queue ctl"
  "ctl_refresh (issue_result c ctl cmd st s) = ctl_refresh ctl"
  "unified_q (issue_result c ctl cmd st s) = unified_q ctl"
  "read_queue (issue_result c ctl cmd st s) = read_queue ctl"
  "write_buffer (issue_result c ctl cmd st s) = write_buffer ctl"
  "cmd_trace (issue_result c ctl cmd st s) = cmd_trace ctl @ [(ctl_clk ctl, cmd)]"
  by (simp_all add: issue_result_def paid_def)

lemma issue_pending_spec:
  assumes "stats_inv c (ctl_stats ctl)"
    and "IsRead cmd \<Longrightarrow> hex_addr cmd \<in> fst ` set (pending_rd_q ctl)"
    and "IsWrite cmd \<Longrightarrow> hex_addr cmd \<in> fst ` set (pending_wr_q ctl)"
  shows "\<exists>st. issue_pending c ctl cmd = Inr (paid c ctl cmd\<lparr>ctl_stats := st\<rparr>) \<and> stats_inv c st"
proof (cases rule: rw_cases [of cmd])
  case r
  have "count_key (pending_rd_q ctl) (hex_addr cmd) \<noteq> 0" using assms(2) [OF r(1)] count_key_zero by blast
  then have "issue_pending c ctl cmd = Inr (paid c ctl cmd)"
    unfolding issue_pending_def paid_def Let_def return_reads_all [OF refl]
    by (simp only: r if_True if_False bindR_Inr case_prod_conv) simp
  moreover have "paid c ctl cmd\<lparr>ctl_stats := ctl_stats ctl\<rparr> = paid c ctl cmd" by (simp add: paid_def)
  ultimately show ?thesis using assms(1) by metis
next
  case w
  let ?p = "\<lambda>e. fst e = hex_addr cmd"
  have "filter ?p (pending_wr_q ctl) \<noteq> []" using assms(3) [OF w(1)] by (force simp: filter_empty_conv)
  then obtain e es where e: "filter ?p (pending_wr_q ctl) = e # es" by (cases "filter ?p (pending_wr_q ctl)") auto
  let ?st = "AddValue (ctl_stats ctl) ''write_latency''
    (to_int32 (ctl_clk ctl - added_cycle (snd e) + of_int (write_delay c)))"
  have "stats_inv c ?st" by (rule AddValue_inv [OF assms(1)]) (simp add: histo_names_def)
  moreover have "issue_pending c ctl cmd = Inr (paid c ctl cmd\<lparr>ctl_stats := ?st\<rparr>)"
    unfolding issue_pending_def paid_def Let_def find_filter e
    by (simp only: w if_True if_False list.case option.case) simp
  ultimately show ?thesis by blast
next
  case o
  then have "issue_pending c ctl cmd = Inr (paid c ctl cmd\<lparr>ctl_stats := ctl_stats ctl\<rparr>)"
    unfolding issue_pending_def paid_def by (simp only: if_False) simp
  then show ?thesis using assms(1) by blast
qed

lemma IssueCommand_spec:
  assumes "chan_inv c (ctl_channel ctl)" and "geometry_ok c" and "stats_inv c (ctl_stats ctl)"
    and "chosen c (ctl_channel ctl) (ctl_clk ctl) cmd"
    and "IsRead cmd \<Longrightarrow> hex_addr cmd \<in> fst ` set (pending_rd_q ctl)"
    and "IsWrite cmd \<Longrightarrow> hex_addr cmd \<in> fst ` set (pending_wr_q ctl)"
  shows "\<exists>st s. IssueCommand c ctl cmd = Inr (issue_result c ctl cmd st s) \<and> stats_inv c st \<and>
    UpdateTimingAndStates c (mk_Timing c) (ctl_channel ctl) cmd (ctl_clk ctl) = Inr s \<and>
    chan_inv c s \<and> issued c (ctl_channel ctl) cmd (ctl_clk ctl) s"
proof -
  obtain req where req: "cmd_ok c req" "chan_GetReadyCommand c (ctl_channel ctl) req (ctl_clk ctl) = Inr cmd"
      "IsValid cmd" using assms(4) unfolding chosen_def by blast
  have al: "allowed c (ctl_channel ctl) cmd (ctl_clk ctl)"
    using chan_ready_allowed [OF assms(1,2) req] .
  then have ok: "cmd_ok c cmd" unfolding allowed_def by blast
  obtain s where s: "UpdateTimingAndStates c (mk_Timing c) (ctl_channel ctl) cmd (ctl_clk ctl) = Inr s"
      "chan_inv c s" "issued c (ctl_channel ctl) cmd (ctl_clk ctl) s"
    using allowed_issue [OF assms(1) al] by blast
  let ?t = "ctl\<lparr>cmd_trace := cmd_trace ctl @ [(ctl_clk ctl, cmd)]\<rparr>"
  obtain st0 where p: "issue_pending c ?t cmd = Inr (paid c ?t cmd\<lparr>ctl_stats := st0\<rparr>)" "stats_inv c st0"
    using issue_pending_spec [of c ?t cmd] assms(3,5,6) by auto
  obtain st where st: "UpdateCommandStats (ctl_channel ctl) st0 cmd = Inr st" "stats_inv c st"
    using UpdateCommandStats_total [OF assms(1) p(2) ok] by blast
  have f: "ctl_channel (paid c ?t cmd) = ctl_channel ctl" "ctl_clk (paid c ?t cmd) = ctl_clk ctl"
    by (simp_all add: paid_def)
  have "IssueCommand c ctl cmd = Inr (issue_result c ctl cmd st s)"
    unfolding IssueCommand_def p(1) using st(1) s(1) f by (simp add: issue_result_def)
  then show ?thesis using st(2) s by blast
qed

text \<open>Issuing the command just taken from the queue keeps the account of reads and writes.\<close>

lemma mset_set_remove:
  "mset_set (fst ` set (filter (\<lambda>e. fst e \<noteq> a) m)) = mset_set (fst ` set m) - {#a#}"
proof -
  have "fst ` set (filter (\<lambda>e. fst e \<noteq> a) m) = fst ` set m - {a}" by auto
  then show ?thesis by (cases "a \<in> fst ` set m") (simp_all add: mset_set_Diff)
qed

lemma map_fst_erase_first:
  "map fst (erase_first (\<lambda>e. fst e = a) m) = erase_first (\<lambda>x. x = a) (map fst m)"
  by (induction m) auto

lemma distinct_erase_first: "distinct xs \<Longrightarrow> distinct (erase_first p xs)"
  using set_erase_first by (induction xs) (auto, fastforce)

definition taken_inv :: "Controller \<Rightarrow> Command \<Rightarrow> bool" where
  "taken_inv ctl cmd \<longleftrightarrow>
     rd_work ctl + (if IsRead cmd then {#hex_addr cmd#} else {#}) = mset_set (fst ` set (pending_rd_q ctl)) \<and>
     wr_work ctl + (if IsWrite cmd then {#hex_addr cmd#} else {#}) = mset (map fst (pending_wr_q ctl)) \<and>
     distinct (map fst (pending_wr_q ctl)) \<and>
     (\<forall>(a, t) \<in> set (pending_rd_q ctl). a = trans_addr t \<and> \<not> is_write t)"

lemma taken_invD:
  assumes "taken_inv ctl cmd"
  shows "rd_work ctl + (if IsRead cmd then {#hex_addr cmd#} else {#}) = mset_set (fst ` set (pending_rd_q ctl))"
    and "wr_work ctl + (if IsWrite cmd then {#hex_addr cmd#} else {#}) = mset (map fst (pending_wr_q ctl))"
    and "distinct (map fst (pending_wr_q ctl))"
    and "\<forall>(a, t) \<in> set (pending_rd_q ctl). a = trans_addr t \<and> \<not> is_write t"
  using assms unfolding taken_inv_def by blast+

lemma taken_inv_mem:
  assumes "taken_inv ctl cmd"
  shows "IsRead cmd \<Longrightarrow> hex_addr cmd \<in> fst ` set (pending_rd_q ctl)"
    and "IsWrite cmd \<Longrightarrow> hex_addr cmd \<in> fst ` set (pending_wr_q ctl)"
proof -
  assume "IsRead cmd"
  then have e: "rd_work ctl + {#hex_addr cmd#} = mset_set (fst ` set (pending_rd_q ctl))"
    using taken_invD(1) [OF assms] by (simp only: if_True)
  have "hex_addr cmd \<in># rd_work ctl + {#hex_addr cmd#}" by simp
  then show "hex_addr cmd \<in> fst ` set (pending_rd_q ctl)" unfolding e by simp
next
  assume "IsWrite cmd"
  then have e: "wr_work ctl + {#hex_addr cmd#} = mset (map fst (pending_wr_q ctl))"
    using taken_invD(2) [OF assms] by (simp only: if_True)
  have "hex_addr cmd \<in># wr_work ctl + {#hex_addr cmd#}" by simp
  then show "hex_addr cmd \<in> fst ` set (pending_wr_q ctl)" unfolding e by simp
qed

lemma work_frame:
  assumes "unified_q ctl' = unified_q ctl" "read_queue ctl' = read_queue ctl" "write_buffer ctl' = write_buffer ctl"
    and "bag (ctl_cmd_queue ctl') = bag (ctl_cmd_queue ctl)"
  shows "rd_work ctl' = rd_work ctl" and "wr_work ctl' = wr_work ctl"
  using assms by (simp_all add: rd_work_def wr_work_def waiting_trans_def)

lemma issue_result_pend:
  assumes "taken_inv ctl cmd"
  shows "pend_inv (issue_result c ctl cmd st s)"
proof -
  note t = taken_invD [OF assms]
  have w: "rd_work (issue_result c ctl cmd st s) = rd_work ctl" "wr_work (issue_result c ctl cmd st s) = wr_work ctl"
    by (intro work_frame; simp)+
  let ?rd = "pending_rd_q (issue_result c ctl cmd st s)" and ?wr = "pending_wr_q (issue_result c ctl cmd st s)"
  have rd: "?rd = (if IsRead cmd then filter (\<lambda>e. fst e \<noteq> hex_addr cmd) (pending_rd_q ctl) else pending_rd_q ctl)"
    and wr: "?wr = (if IsWrite cmd then erase_first (\<lambda>e. fst e = hex_addr cmd) (pending_wr_q ctl) else pending_wr_q ctl)"
    by (simp_all add: issue_result_def paid_def)
  have "rd_work ctl = mset_set (fst ` set ?rd)"
  proof (cases "IsRead cmd")
    case True
    then have "rd_work ctl + {#hex_addr cmd#} = mset_set (fst ` set (pending_rd_q ctl))"
      using t(1) by (simp only: if_True)
    then show ?thesis unfolding rd if_P [OF True] mset_set_remove by (metis add_diff_cancel_right')
  next
    case False
    then show ?thesis using t(1) unfolding rd by (simp only: if_False add_0_right)
  qed
  moreover have "wr_work ctl = mset (map fst ?wr)"
  proof (cases "IsWrite cmd")
    case True
    then have "wr_work ctl + {#hex_addr cmd#} = mset (map fst (pending_wr_q ctl))"
      using t(2) by (simp only: if_True)
    moreover have "mset (erase_first (\<lambda>x. x = hex_addr cmd) (map fst (pending_wr_q ctl))) =
        mset (map fst (pending_wr_q ctl)) - {#hex_addr cmd#}"
      using taken_inv_mem(2) [OF assms True] by (intro mset_erase_first) auto
    ultimately show ?thesis
      unfolding wr if_P [OF True] map_fst_erase_first by (metis add_diff_cancel_right')
  next
    case False
    then show ?thesis using t(2) unfolding wr by (simp only: if_False add_0_right)
  qed
  moreover have "distinct (map fst ?wr)"
    unfolding wr using t(3) by (simp add: map_fst_erase_first distinct_erase_first)
  moreover have "\<forall>(a, t) \<in> set ?rd. a = trans_addr t \<and> \<not> is_write t"
    unfolding rd using t(4) by auto
  ultimately show ?thesis unfolding pend_inv_def w by blast
qed

section \<open>The rest of a cycle\<close>

lemma all_idle_loop_total:
  assumes "chan_inv c s" and "\<forall>(j, k) \<in> set ps. bank_index c r j k"
  shows "\<exists>b. all_idle_loop s r ps = Inr b"
  using assms(2)
proof (induction ps)
  case (Cons p ps)
  obtain j k where p: "p = (j, k)" by (cases p)
  with Cons.prems have "bank_index c r j k" by simp
  with Cons show ?case
    by (cases "IsRowOpen (at_bank (bank_states s) (r, j, k))")
      (auto simp: p get3_bank [OF chan_invD(2) [OF assms(1)]])
next
  case Nil
  show ?case by (rule exI [of _ True]) simp
qed

lemma power_rank_spec:
  assumes "chan_inv c (ctl_channel ctl)" and "stats_inv c (ctl_stats ctl)" and "0 \<le> i" and "i < ranks c"
  shows "\<exists>st v. power_rank c i ctl =
      Inr (ctl\<lparr>ctl_stats := st, ctl_channel := (ctl_channel ctl)\<lparr>rank_idle_cycles := v\<rparr>\<rparr>) \<and>
    stats_inv c st \<and> length v = length (rank_idle_cycles (ctl_channel ctl))"
proof -
  let ?s = "ctl_channel ctl"
  have sh: "chan_shape c ?s" using chan_invD(1) [OF assms(1)] .
  then have l: "length (rank_idle_cycles ?s) = nat (ranks c)" unfolding chan_shape_def by blast
  have sr: "IsRankSelfRefreshing ?s i = Inr (rank_is_sref ?s ! nat i)"
    using IsRankSelfRefreshing_eq [OF sh assms(3,4)] .
  show ?thesis
  proof (cases "rank_is_sref ?s ! nat i")
    case True
    obtain st where st: "IncrementVec (ctl_stats ctl) ''sref_cycles'' i = Inr st" "stats_inv c st"
      using IncrementVec_total [OF assms(2) _ assms(3,4)] by (auto simp: vec_names_def)
    have "power_rank c i ctl = Inr (ctl\<lparr>ctl_stats := st, ctl_channel := ?s\<lparr>rank_idle_cycles := rank_idle_cycles ?s\<rparr>\<rparr>)"
      using True sr st(1) by (simp add: power_rank_def)
    then show ?thesis using st(2) by blast
  next
    case False
    have "\<forall>(j, k) \<in> set (bank_loop c). bank_index c i j k"
      using assms(3,4) by (auto simp: bank_loop_set bank_index_def)
    then obtain b where b: "IsAllBankIdleInRank c ?s i = Inr b"
      unfolding IsAllBankIdleInRank_def using all_idle_loop_total [OF assms(1)] by blast
    have "(if b then ''all_bank_idle_cycles'' else ''rank_active_cycles'') \<in> set vec_names"
      by (cases b) (simp_all add: vec_names_def)
    then obtain st where st: "IncrementVec (ctl_stats ctl)
        (if b then ''all_bank_idle_cycles'' else ''rank_active_cycles'') i = Inr st" "stats_inv c st"
      using IncrementVec_total [OF assms(2) _ assms(3,4)] by blast
    let ?v = "(rank_idle_cycles ?s)[nat i := if b then rank_idle_cycles ?s ! nat i + 1 else 0]"
    have at: "vec_at (rank_idle_cycles ?s) i = Inr (rank_idle_cycles ?s ! nat i)"
      "\<And>x. vec_set (rank_idle_cycles ?s) i x = Inr ((rank_idle_cycles ?s)[nat i := x])"
      using assms(3,4) l by (simp_all add: vec_at_Inr vec_set_Inr)
    have "power_rank c i ctl = Inr (ctl\<lparr>ctl_stats := st, ctl_channel := ?s\<lparr>rank_idle_cycles := ?v\<rparr>\<rparr>)"
      unfolding power_rank_def sr bindR_Inr b at st(1) using False by (simp only: if_False bindR_Inr at st(1))
    then show ?thesis using st(2) by (metis length_list_update)
  qed
qed

definition idled :: "Config \<Rightarrow> Controller \<Rightarrow> Controller \<Rightarrow> bool" where
  "idled c ctl d \<longleftrightarrow> (\<exists>st v. d = ctl\<lparr>ctl_stats := st, ctl_channel := (ctl_channel ctl)\<lparr>rank_idle_cycles := v\<rparr>\<rparr> \<and>
     stats_inv c st \<and> length v = length (rank_idle_cycles (ctl_channel ctl)))"

lemma power_loop_total:
  assumes "chan_inv c (ctl_channel ctl)" and "stats_inv c (ctl_stats ctl)"
  shows "\<exists>d. foldR (power_rank c) [0 .. ranks c - 1] ctl = Inr d \<and> idled c ctl d"
proof (rule foldR_total)
  have "ctl = ctl\<lparr>ctl_stats := ctl_stats ctl,
      ctl_channel := (ctl_channel ctl)\<lparr>rank_idle_cycles := rank_idle_cycles (ctl_channel ctl)\<rparr>\<rparr>" by simp
  then show "idled c ctl ctl" unfolding idled_def using assms(2) by blast
  fix i d assume i: "i \<in> set [0 .. ranks c - 1]" and d: "idled c ctl d"
  from d obtain st v where dd: "d = ctl\<lparr>ctl_stats := st, ctl_channel := (ctl_channel ctl)\<lparr>rank_idle_cycles := v\<rparr>\<rparr>"
    "stats_inv c st" "length v = length (rank_idle_cycles (ctl_channel ctl))" unfolding idled_def by blast
  have "chan_inv c (ctl_channel d)" using chan_inv_idle [OF assms(1) dd(3)] dd(1) by simp
  moreover have "stats_inv c (ctl_stats d)" using dd by simp
  ultimately obtain st' v' where "power_rank c i d =
      Inr (d\<lparr>ctl_stats := st', ctl_channel := (ctl_channel d)\<lparr>rank_idle_cycles := v'\<rparr>\<rparr>)"
    "stats_inv c st'" "length v' = length (rank_idle_cycles (ctl_channel d))"
    using power_rank_spec [of c d i] i by auto
  moreover from this(3) dd have "length v' = length (rank_idle_cycles (ctl_channel ctl))" by simp
  moreover have "d\<lparr>ctl_stats := st', ctl_channel := (ctl_channel d)\<lparr>rank_idle_cycles := v'\<rparr>\<rparr> =
      ctl\<lparr>ctl_stats := st', ctl_channel := (ctl_channel ctl)\<lparr>rank_idle_cycles := v'\<rparr>\<rparr>" using dd(1) by simp
  ultimately show "\<exists>d'. power_rank c i d = Inr d' \<and> idled c ctl d'" unfolding idled_def by auto
qed

lemma TransToCommand_spec:
  assumes "decodes c"
  shows "\<exists>cmd. TransToCommand c ctl t = Inr cmd \<and> routed c cmd \<and> hex_addr cmd = trans_addr t \<and>
    IsRead cmd = (\<not> is_write t) \<and> IsWrite cmd = is_write t"
proof -
  obtain ad where "AddressMapping c (trans_addr t) = Inr ad" "bank_index c (rank ad) (bankgroup ad) (bank ad)"
    using assms unfolding decodes_def by blast
  then show ?thesis by (auto simp: TransToCommand_def routed_def cmd_ok_def bank_index_def)
qed

text \<open>
  What the scheduling loop did to the queue: nothing, or it moved one transaction, as a
  command, into the command queue.
\<close>

definition moved :: "Config \<Rightarrow> Controller \<Rightarrow> Transaction list \<Rightarrow> Controller \<Rightarrow> Transaction list \<Rightarrow> bool" where
  "moved c ctl q ctl' q' \<longleftrightarrow> (\<exists>w cq. ctl' = ctl\<lparr>write_draining := w, ctl_cmd_queue := cq\<rparr> \<and>
     cq_inv c cq \<and> cq_same (ctl_cmd_queue ctl) cq \<and>
     (q' = q \<and> bag cq = bag (ctl_cmd_queue ctl) \<or>
      (\<exists>t cmd. mset q = add_mset t (mset q') \<and> bag cq = add_mset cmd (bag (ctl_cmd_queue ctl)) \<and>
         hex_addr cmd = trans_addr t \<and> IsRead cmd = (\<not> is_write t) \<and> IsWrite cmd = is_write t)))"

lemma schedule_loop_spec:
  assumes "cq_inv c (ctl_cmd_queue ctl)" and "geometry_ok c" and "decodes c"
  shows "\<exists>ctl' q'. schedule_loop c ctl prev rest = Inr (ctl', q') \<and> moved c ctl (prev @ rest) ctl' q'"
proof (induction rest arbitrary: prev)
  case Nil
  have "ctl = ctl\<lparr>write_draining := write_draining ctl, ctl_cmd_queue := ctl_cmd_queue ctl\<rparr>" by simp
  then have "moved c ctl prev ctl prev"
    unfolding moved_def using assms(1) by (metis cq_same_def)
  then show ?case by simp
next
  case (Cons t rest)
  obtain cmd where cmd: "TransToCommand c ctl t = Inr cmd" "routed c cmd" "hex_addr cmd = trans_addr t"
      "IsRead cmd = (\<not> is_write t)" "IsWrite cmd = is_write t"
    using TransToCommand_spec [OF assms(3)] by blast
  obtain b cq where a: "AddCommand c (ctl_cmd_queue ctl) cmd = Inr (b, cq)"
      "WillAcceptCommand c (ctl_cmd_queue ctl) (Rank cmd) (Bankgroup cmd) (Bank cmd) = Inr b"
      "cq_inv c cq" "cq_same (ctl_cmd_queue ctl) cq"
      "bag cq = (if b then bag (ctl_cmd_queue ctl) + {#cmd#} else bag (ctl_cmd_queue ctl))"
    using AddCommand_spec [OF assms(1,2) cmd(2)] by blast
  note unf = schedule_loop.simps(2) cmd(1) bindR_Inr a(2)
  show ?case
  proof (cases b)
    case False
    from Cons.IH [of "prev @ [t]"] False show ?thesis unfolding unf by simp
  next
    case True
    show ?thesis
    proof (cases "\<not> is_unified_queue ctl \<and> IsWrite cmd \<and> count_key (pending_rd_q ctl) (trans_addr t) > 0")
      case stop: True
      have "ctl\<lparr>write_draining := 0\<rparr> = ctl\<lparr>write_draining := 0, ctl_cmd_queue := ctl_cmd_queue ctl\<rparr>" by simp
      then have "moved c ctl (prev @ t # rest) (ctl\<lparr>write_draining := 0\<rparr>) (prev @ t # rest)"
        unfolding moved_def using assms(1) by (metis cq_same_def)
      then show ?thesis unfolding unf using True stop by (simp only: if_True if_False simp_thms) blast
    next
      case go: False
      let ?w = "if \<not> is_unified_queue ctl \<and> IsWrite cmd then write_draining ctl - 1 else write_draining ctl"
      let ?d = "ctl\<lparr>write_draining := ?w, ctl_cmd_queue := cq\<rparr>"
      have "(if \<not> is_unified_queue ctl \<and> IsWrite cmd then ctl\<lparr>write_draining := write_draining ctl - 1\<rparr> else ctl) =
          ctl\<lparr>write_draining := ?w\<rparr>" by simp
      then have "schedule_loop c ctl prev (t # rest) = Inr (?d, prev @ rest)"
        unfolding unf Let_def using True go a(1) by (simp only: if_True if_False simp_thms bindR_Inr) simp
      moreover have "moved c ctl (prev @ t # rest) ?d (prev @ rest)"
        unfolding moved_def using a(3,4,5) True cmd(3-5)
        by (intro exI [of _ ?w] exI [of _ cq] conjI refl disjI2 exI [of _ t] exI [of _ cmd]) simp_all
      ultimately show ?thesis by blast
    qed
  qed
qed

lemma moved_inv:
  assumes "moved c ctl q f q'" and "dev_inv c ctl" and "pend_inv ctl"
    and same: "ctl_channel d = ctl_channel ctl" "ctl_clk d = ctl_clk ctl" "ctl_stats d = ctl_stats ctl"
      "ctl_refresh d = ctl_refresh ctl" "pending_rd_q d = pending_rd_q ctl" "pending_wr_q d = pending_wr_q ctl"
      "ctl_cmd_queue d = ctl_cmd_queue f"
    and R: "waiting_trans ctl = mset q + R" "waiting_trans d = mset q' + R"
  shows "dev_inv c d" and "pend_inv d"
proof -
  obtain w cq where f: "f = ctl\<lparr>write_draining := w, ctl_cmd_queue := cq\<rparr>" and cq: "cq_inv c cq"
      "cq_same (ctl_cmd_queue ctl) cq"
    and m: "q' = q \<and> bag cq = bag (ctl_cmd_queue ctl) \<or>
      (\<exists>t cmd. mset q = add_mset t (mset q') \<and> bag cq = add_mset cmd (bag (ctl_cmd_queue ctl)) \<and>
         hex_addr cmd = trans_addr t \<and> IsRead cmd = (\<not> is_write t) \<and> IsWrite cmd = is_write t)"
    using assms(1) unfolding moved_def by blast
  have dq: "ctl_cmd_queue d = cq" using same(7) f by simp
  have "cq_clk cq = cq_clk (ctl_cmd_queue ctl)" using cq(2) unfolding cq_same_def by blast
  with assms(2) cq(1) ref_sync_frame [OF cq(2)] show "dev_inv c d"
    unfolding dev_inv_def same(1-4) dq by simp
  have "rd_work d = rd_work ctl \<and> wr_work d = wr_work ctl"
    using m
  proof
    assume "q' = q \<and> bag cq = bag (ctl_cmd_queue ctl)"
    with R show ?thesis by (simp add: rd_work_def wr_work_def dq)
  next
    assume "\<exists>t cmd. mset q = add_mset t (mset q') \<and> bag cq = add_mset cmd (bag (ctl_cmd_queue ctl)) \<and>
         hex_addr cmd = trans_addr t \<and> IsRead cmd = (\<not> is_write t) \<and> IsWrite cmd = is_write t"
    then obtain t cmd where t: "mset q = add_mset t (mset q')" "bag cq = add_mset cmd (bag (ctl_cmd_queue ctl))"
      "hex_addr cmd = trans_addr t" "IsRead cmd = (\<not> is_write t)" "IsWrite cmd = is_write t" by blast
    show ?thesis
      unfolding rd_work_def wr_work_def dq R t(1,2) filter_mset_add_mset union_mset_add_mset_left t(4,5)
      by (simp add: t(3))
  qed
  then show "pend_inv d" using assms(3) unfolding pend_inv_def same(5,6) by simp
qed

lemma choose_draining_eq: "\<exists>w. choose_draining ctl = ctl\<lparr>write_draining := w\<rparr>"
proof (cases "write_draining ctl = 0 \<and> \<not> is_unified_queue ctl \<and>
    (write_cap ctl \<le> length (write_buffer ctl) \<or> 8 < length (write_buffer ctl) \<and> QueueEmpty (ctl_cmd_queue ctl))")
  case True
  then show ?thesis unfolding choose_draining_def by (metis (no_types) if_P)
next
  case False
  have "ctl = ctl\<lparr>write_draining := write_draining ctl\<rparr>" by simp
  with False show ?thesis unfolding choose_draining_def by (metis (no_types) if_not_P)
qed

text \<open>The queues keep their capacity and do not grow.\<close>

definition shrunk :: "Controller \<Rightarrow> Controller \<Rightarrow> bool" where
  "shrunk ctl d \<longleftrightarrow> is_unified_queue d = is_unified_queue ctl \<and> unified_cap d = unified_cap ctl \<and>
     read_cap d = read_cap ctl \<and> write_cap d = write_cap ctl \<and>
     length (unified_q d) \<le> length (unified_q ctl) \<and> length (read_queue d) \<le> length (read_queue ctl) \<and>
     length (write_buffer d) \<le> length (write_buffer ctl)"

lemma moved_length:
  assumes "moved c ctl q f q'"
  shows "length q' \<le> length q"
proof -
  have "q' = q \<or> (\<exists>t. mset q = add_mset t (mset q'))" using assms unfolding moved_def by blast
  then show ?thesis by (metis le_SucI order_refl size_add_mset size_mset)
qed

lemma ScheduleTransaction_spec:
  assumes "dev_inv c ctl" and "pend_inv ctl" and "geometry_ok c" and "decodes c"
  shows "\<exists>d. ScheduleTransaction c ctl = Inr d \<and> dev_inv c d \<and> pend_inv d \<and> ctl_clk d = ctl_clk ctl \<and>
    return_queue d = return_queue ctl \<and> pending_rd_q d = pending_rd_q ctl \<and> cmd_trace d = cmd_trace ctl \<and>
    ctl_channel d = ctl_channel ctl \<and> shrunk ctl d"
proof -
  obtain w0 where w0: "choose_draining ctl = ctl\<lparr>write_draining := w0\<rparr>" using choose_draining_eq by blast
  let ?e = "ctl\<lparr>write_draining := w0\<rparr>"
  have e: "dev_inv c ?e" "pend_inv ?e"
    using assms(1,2) by (simp_all add: dev_inv_def pend_inv_def rd_work_def wr_work_def waiting_trans_def)
  then have cq: "cq_inv c (ctl_cmd_queue ?e)" unfolding dev_inv_def by blast
  have loop: "\<exists>f q'. schedule_loop c ?e [] q = Inr (f, q') \<and> moved c ?e q f q'" for q
    using schedule_loop_spec [OF cq assms(3,4), of "[]" q] by simp
  have fr: "\<exists>w cq. f = ?e\<lparr>write_draining := w, ctl_cmd_queue := cq\<rparr>" if "moved c ?e q f q'" for q f q'
    using that unfolding moved_def by blast
  show ?thesis
  proof (cases "is_unified_queue ctl")
    case True
    obtain f q' where f: "schedule_loop c ?e [] (unified_q ?e) = Inr (f, q')" "moved c ?e (unified_q ?e) f q'"
      using loop by blast
    moreover obtain w cq where ff: "f = ?e\<lparr>write_draining := w, ctl_cmd_queue := cq\<rparr>" using fr [OF f(2)] by blast
    moreover have "ScheduleTransaction c ctl = Inr (f\<lparr>unified_q := q'\<rparr>)"
      unfolding ScheduleTransaction_def w0 Let_def using True f(1) by simp
    moreover have "shrunk ctl (f\<lparr>unified_q := q'\<rparr>)" using moved_length [OF f(2)] by (simp add: ff shrunk_def)
    moreover have "dev_inv c (f\<lparr>unified_q := q'\<rparr>)" "pend_inv (f\<lparr>unified_q := q'\<rparr>)"
      by (rule moved_inv [OF f(2) e, where R = "mset (read_queue ctl) + mset (write_buffer ctl)"];
          simp add: ff waiting_trans_def ac_simps)+
    ultimately show ?thesis by auto
  next
    case nu: False
    show ?thesis
    proof (cases "w0 > 0")
      case True
      obtain f q' where f: "schedule_loop c ?e [] (write_buffer ?e) = Inr (f, q')" "moved c ?e (write_buffer ?e) f q'"
        using loop by blast
      moreover obtain w cq where ff: "f = ?e\<lparr>write_draining := w, ctl_cmd_queue := cq\<rparr>" using fr [OF f(2)] by blast
      moreover have "ScheduleTransaction c ctl = Inr (f\<lparr>write_buffer := q'\<rparr>)"
        unfolding ScheduleTransaction_def w0 Let_def using nu True f(1) by simp
      moreover have "shrunk ctl (f\<lparr>write_buffer := q'\<rparr>)" using moved_length [OF f(2)] by (simp add: ff shrunk_def)
    moreover have "dev_inv c (f\<lparr>write_buffer := q'\<rparr>)" "pend_inv (f\<lparr>write_buffer := q'\<rparr>)"
        by (rule moved_inv [OF f(2) e, where R = "mset (unified_q ctl) + mset (read_queue ctl)"];
            simp add: ff waiting_trans_def ac_simps)+
      ultimately show ?thesis by auto
    next
      case False
      obtain f q' where f: "schedule_loop c ?e [] (read_queue ?e) = Inr (f, q')" "moved c ?e (read_queue ?e) f q'"
        using loop by blast
      moreover obtain w cq where ff: "f = ?e\<lparr>write_draining := w, ctl_cmd_queue := cq\<rparr>" using fr [OF f(2)] by blast
      moreover have "ScheduleTransaction c ctl = Inr (f\<lparr>read_queue := q'\<rparr>)"
        unfolding ScheduleTransaction_def w0 Let_def using nu False f(1) by simp
      moreover have "shrunk ctl (f\<lparr>read_queue := q'\<rparr>)" using moved_length [OF f(2)] by (simp add: ff shrunk_def)
    moreover have "dev_inv c (f\<lparr>read_queue := q'\<rparr>)" "pend_inv (f\<lparr>read_queue := q'\<rparr>)"
        by (rule moved_inv [OF f(2) e, where R = "mset (unified_q ctl) + mset (write_buffer ctl)"];
            simp add: ff waiting_trans_def ac_simps)+
      ultimately show ?thesis by auto
    qed
  qed
qed

section \<open>One cycle\<close>

text \<open>
  The transactions the controller owes an answer: those finished but not yet collected, and
  the reads still pending. A write is answered as soon as it is accepted.
\<close>

abbreviation trans_tag :: "Transaction \<Rightarrow> u64 \<times> bool" where
  "trans_tag t \<equiv> (trans_addr t, is_write t)"

definition owed :: "Controller \<Rightarrow> (u64 \<times> bool) multiset" where
  "owed ctl = image_mset trans_tag (mset (return_queue ctl) + mset (map snd (pending_rd_q ctl)))"

lemma issue_result_owed: "owed (issue_result c ctl cmd st s) = owed ctl"
proof -
  have split: "mset (map snd m) = mset (map snd (filter p m)) + mset (map snd (filter (\<lambda>e. \<not> p e) m))"
    for m :: pending and p by (induction m) auto
  have "image_mset trans_tag (mset (map (\<lambda>e. (snd e)\<lparr>complete_cycle := t\<rparr>) m)) = image_mset trans_tag (mset (map snd m))"
    for m :: pending and t by (induction m) auto
  with split [of "pending_rd_q ctl" "\<lambda>e. fst e = hex_addr cmd"] show ?thesis
    by (simp add: owed_def issue_result_def paid_def del: mset_map)
qed

definition traced :: "Config \<Rightarrow> Controller \<Rightarrow> bool" where
  "traced c ctl \<longleftrightarrow> chan_trace c (cmd_trace ctl) (ctl_channel ctl)"

lemma traced_issue:
  assumes "traced c ctl" and "chosen c (ctl_channel ctl) (ctl_clk ctl) cmd"
    and "\<forall>e \<in> set (cmd_trace ctl). fst e \<le> ctl_clk ctl"
    and "UpdateTimingAndStates c (mk_Timing c) (ctl_channel ctl) cmd (ctl_clk ctl) = Inr s"
  shows "traced c (issue_result c ctl cmd st s)"
  using assms unfolding traced_def chosen_def by (auto intro: chan_trace.issue simp del: command_simps)

lemma issued_dev_inv:
  assumes "dev_inv c ctl" and "cmd_type cmd \<noteq> SREF_ENTER" and "IsRefresh cmd \<longrightarrow> \<not> is_in_ref (ctl_cmd_queue ctl)"
    and "chan_inv c s" and "issued c (ctl_channel ctl) cmd (ctl_clk ctl) s" and "stats_inv c st"
  shows "dev_inv c (issue_result c ctl cmd st s)"
proof -
  have d: "cq_inv c (ctl_cmd_queue ctl)" "ref_sync c (ctl_channel ctl) (ctl_cmd_queue ctl)"
      "cq_clk (ctl_cmd_queue ctl) = ctl_clk ctl" "ref_inv c (ctl_refresh ctl)"
      "True \<notin> set (rank_is_sref (ctl_channel ctl))"
    using assms(1) unfolding dev_inv_def by blast+
  have i: "\<not> IsRefresh cmd \<longrightarrow> refresh_q s = refresh_q (ctl_channel ctl)"
      "rank_is_sref s = (if cmd_type cmd = SREF_ENTER then (rank_is_sref (ctl_channel ctl))[nat (Rank cmd) := True]
        else if cmd_type cmd = SREF_EXIT then (rank_is_sref (ctl_channel ctl))[nat (Rank cmd) := False]
        else rank_is_sref (ctl_channel ctl))"
    using assms(5) unfolding issued_def by blast+
  have "ref_sync c s (ctl_cmd_queue ctl)"
  proof (cases "IsRefresh cmd")
    case True
    with assms(3) d(2) show ?thesis unfolding ref_sync_def by (simp only: if_False simp_thms)
  next
    case False
    with i(1) d(2) show ?thesis unfolding ref_sync_def by (simp only: simp_thms)
  qed
  moreover have "True \<notin> set (rank_is_sref s)"
  proof (cases "cmd_type cmd = SREF_EXIT")
    case True
    then have "rank_is_sref s = (rank_is_sref (ctl_channel ctl))[nat (Rank cmd) := False]" using i(2) by simp
    then show ?thesis using d(5) set_update_subset_insert [of "rank_is_sref (ctl_channel ctl)"] by (metis insertE subsetD)
  next
    case False
    with assms(2) i(2) d(5) show ?thesis by simp
  qed
  ultimately show ?thesis using assms(4,6) d unfolding dev_inv_def issue_result_simps by blast
qed

lemma tick_issue_spec:
  assumes "dev_inv c ctl" and "geometry_ok c" and "taken_inv ctl cmd" and "\<not> enable_hbm_dual_cmd c"
    and "IsValid cmd \<longrightarrow> chosen c (ctl_channel ctl) (ctl_clk ctl) cmd"
    and "cmd_type cmd \<noteq> SREF_ENTER" and "IsRefresh cmd \<longrightarrow> \<not> is_in_ref (ctl_cmd_queue ctl)"
  shows "\<exists>d. tick_issue c ctl cmd = Inr d \<and> dev_inv c d \<and> pend_inv d \<and> owed d = owed ctl \<and>
    ctl_clk d = ctl_clk ctl \<and> shrunk ctl d \<and>
    (traced c ctl \<longrightarrow> (\<forall>e \<in> set (cmd_trace ctl). fst e \<le> ctl_clk ctl) \<longrightarrow>
       traced c d \<and> (\<forall>e \<in> set (cmd_trace d). fst e \<le> ctl_clk ctl))"
proof (cases "IsValid cmd")
  case False
  then have "\<not> IsRead cmd" "\<not> IsWrite cmd" by auto
  then have "pend_inv ctl" using assms(3) unfolding taken_inv_def pend_inv_def by (simp only: if_False add_0_right) blast
  moreover have "shrunk ctl ctl" by (simp add: shrunk_def)
  ultimately show ?thesis using False assms(1) unfolding tick_issue_def by (simp only: if_True simp_thms) blast
next
  case True
  then have ch: "chosen c (ctl_channel ctl) (ctl_clk ctl) cmd" using assms(5) by blast
  have d: "chan_inv c (ctl_channel ctl)" "stats_inv c (ctl_stats ctl)" using assms(1) unfolding dev_inv_def by blast+
  obtain st s where i: "IssueCommand c ctl cmd = Inr (issue_result c ctl cmd st s)" "stats_inv c st"
      "UpdateTimingAndStates c (mk_Timing c) (ctl_channel ctl) cmd (ctl_clk ctl) = Inr s"
      "chan_inv c s" "issued c (ctl_channel ctl) cmd (ctl_clk ctl) s"
    using IssueCommand_spec [OF d(1) assms(2) d(2) ch taken_inv_mem [OF assms(3)]] by blast
  have "tick_issue c ctl cmd = Inr (issue_result c ctl cmd st s)"
    unfolding tick_issue_def i(1) using True assms(4) by (simp only: if_False simp_thms bindR_Inr)
  moreover have "shrunk ctl (issue_result c ctl cmd st s)" by (simp add: shrunk_def issue_result_def paid_def)
  ultimately show ?thesis
    using issued_dev_inv [OF assms(1,6,7) i(4,5,2)] issue_result_pend [OF assms(3)] issue_result_owed
      traced_issue [OF _ ch _ i(3)] by auto
qed

lemma taken_from_pend:
  assumes "pend_inv ctl" and "bag (ctl_cmd_queue ctl) = bag cq + (if IsReadWrite cmd then {#cmd#} else {#})"
  shows "taken_inv (ctl\<lparr>ctl_cmd_queue := cq, ctl_stats := st\<rparr>) cmd"
proof -
  let ?d = "ctl\<lparr>ctl_cmd_queue := cq, ctl_stats := st\<rparr>"
  have b: "bag (ctl_cmd_queue ctl) = bag cq + (if IsRead cmd then {#cmd#} else {#}) + (if IsWrite cmd then {#cmd#} else {#})"
    using assms(2) by (cases rule: rw_cases [of cmd]) (simp_all del: IsRead_def IsWrite_def add: IsReadWrite_def)
  have "rd_work ctl = rd_work ?d + (if IsRead cmd then {#hex_addr cmd#} else {#})"
    "wr_work ctl = wr_work ?d + (if IsWrite cmd then {#hex_addr cmd#} else {#})"
    unfolding rd_work_def wr_work_def b by (cases rule: rw_cases [of cmd]; simp add: waiting_trans_def)+
  with assms(1) show ?thesis unfolding taken_inv_def pend_inv_def by simp
qed

lemma ctl_ClockTick_spec:
  assumes "ctl_inv c ctl" and "geometry_ok c" and "decodes c"
    and "\<not> enable_self_refresh c" and "\<not> enable_hbm_dual_cmd c"
  shows "\<exists>d. ctl_ClockTick c ctl = Inr d \<and> ctl_inv c d \<and> owed d = owed ctl \<and> ctl_clk d = ctl_clk ctl + 1 \<and>
    shrunk ctl d \<and>
    (traced c ctl \<longrightarrow> (\<forall>e \<in> set (cmd_trace ctl). fst e \<le> ctl_clk ctl) \<longrightarrow>
       traced c d \<and> (\<forall>e \<in> set (cmd_trace d). fst e \<le> ctl_clk ctl))"
proof -
  have inv: "dev_inv c ctl" "pend_inv ctl" using assms(1) unfolding ctl_inv_def by blast+
  then have ri: "ref_inv c (ctl_refresh ctl)" "chan_inv c (ctl_channel ctl)" unfolding dev_inv_def by blast+
  obtain rf s where rt: "ref_ClockTick c (ctl_refresh ctl) (ctl_channel ctl) = Inr (rf, s)"
      "queues_refresh c (ctl_channel ctl) s" "ref_inv c rf"
    using ref_ClockTick_total [OF assms(2) ri(1) chan_invD(1) [OF ri(2)]] by blast
  let ?c0 = "ctl\<lparr>ctl_refresh := rf, ctl_channel := s\<rparr>"
  have c0: "dev_inv c ?c0" "pend_inv ?c0" "owed ?c0 = owed ctl" "traced c ctl \<longrightarrow> traced c ?c0"
  proof -
    obtain Q where "refresh_q s = refresh_q (ctl_channel ctl) @ Q" "rank_is_sref s = rank_is_sref (ctl_channel ctl)"
      using queues_refresh_frame [OF rt(2)] by blast
    then show "dev_inv c ?c0"
      using inv(1) queues_refresh_inv [OF rt(2)] rt(3) ref_sync_more [of c "ctl_channel ctl"]
      unfolding dev_inv_def by simp
    show "pend_inv ?c0" using inv(2) by (simp add: pend_inv_def rd_work_def wr_work_def waiting_trans_def)
    show "owed ?c0 = owed ctl" by (simp add: owed_def)
    show "traced c ctl \<longrightarrow> traced c ?c0" using queues_refresh_trace [OF rt(2)] by (simp add: traced_def)
  qed
  obtain cmd cq st where tc: "tick_command c ?c0 = Inr (cmd, ?c0\<lparr>ctl_cmd_queue := cq, ctl_stats := st\<rparr>)"
      "cq_inv c cq" "stats_inv c st" "ref_sync c (ctl_channel ?c0) cq" "cq_clk cq = ctl_clk ?c0"
      "IsRefresh cmd \<longrightarrow> \<not> is_in_ref cq"
      "bag (ctl_cmd_queue ?c0) = bag cq + (if IsReadWrite cmd then {#cmd#} else {#})"
      "IsValid cmd \<longrightarrow> chosen c (ctl_channel ?c0) (ctl_clk ?c0) cmd" "cmd_type cmd \<noteq> SREF_ENTER"
    using tick_command_spec [OF c0(1) assms(2)] by blast
  let ?c1 = "?c0\<lparr>ctl_cmd_queue := cq, ctl_stats := st\<rparr>"
  have c1: "dev_inv c ?c1" "taken_inv ?c1 cmd"
    using c0(1) tc(2-5) taken_from_pend [OF c0(2) tc(7)] unfolding dev_inv_def by simp_all
  have ch1: "IsValid cmd \<longrightarrow> chosen c (ctl_channel ?c1) (ctl_clk ?c1) cmd"
    "IsRefresh cmd \<longrightarrow> \<not> is_in_ref (ctl_cmd_queue ?c1)" using tc(6,8) by simp_all
  obtain c2 where c2: "tick_issue c ?c1 cmd = Inr c2" "dev_inv c c2" "pend_inv c2" "owed c2 = owed ?c1"
      "ctl_clk c2 = ctl_clk ?c1" "shrunk ?c1 c2"
      "traced c ?c1 \<longrightarrow> (\<forall>e \<in> set (cmd_trace ?c1). fst e \<le> ctl_clk ?c1) \<longrightarrow>
         traced c c2 \<and> (\<forall>e \<in> set (cmd_trace c2). fst e \<le> ctl_clk ?c1)"
    using tick_issue_spec [OF c1(1) assms(2) c1(2) assms(5) ch1(1) tc(9) ch1(2)] by blast
  have d2: "chan_inv c (ctl_channel c2)" "stats_inv c (ctl_stats c2)" using c2(2) unfolding dev_inv_def by blast+
  obtain c3 where c3: "foldR (power_rank c) [0 .. ranks c - 1] c2 = Inr c3" "idled c c2 c3"
    using power_loop_total [OF d2] by blast
  obtain st3 v where v: "c3 = c2\<lparr>ctl_stats := st3, ctl_channel := (ctl_channel c2)\<lparr>rank_idle_cycles := v\<rparr>\<rparr>"
      "stats_inv c st3" "length v = length (rank_idle_cycles (ctl_channel c2))" using c3(2) unfolding idled_def by blast
  have i3: "dev_inv c c3" "pend_inv c3" "traced c c2 \<longrightarrow> traced c c3"
  proof -
    show "dev_inv c c3"
      using c2(2) v(2) chan_inv_idle [OF d2(1) v(3)] ref_sync_more [of c "ctl_channel c2" _ _ "[]"]
      unfolding dev_inv_def v(1) by simp
    show "pend_inv c3" using c2(3) by (simp add: v(1) pend_inv_def rd_work_def wr_work_def waiting_trans_def)
    show "traced c c2 \<longrightarrow> traced c c3" using v(1,3) chan_trace.idle by (simp add: traced_def)
  qed
  obtain c5 where c5: "ScheduleTransaction c c3 = Inr c5" "dev_inv c c5" "pend_inv c5" "ctl_clk c5 = ctl_clk c3"
      "return_queue c5 = return_queue c3" "pending_rd_q c5 = pending_rd_q c3" "cmd_trace c5 = cmd_trace c3"
      "ctl_channel c5 = ctl_channel c3" "shrunk c3 c5"
    using ScheduleTransaction_spec [OF i3(1,2) assms(2,3)] by blast
  let ?d = "c5\<lparr>ctl_clk := ctl_clk c5 + 1, ctl_cmd_queue := cq_ClockTick (ctl_cmd_queue c5),
      ctl_stats := Increment (ctl_stats c5) ''num_cycles''\<rparr>"
  have tick: "ctl_ClockTick c ctl = Inr ?d"
    unfolding ctl_ClockTick_def rt(1) bindR_Inr case_prod_conv tc(1) c2(1) c3(1) using assms(4) c5(1) by simp
  have "ctl_inv c ?d"
  proof -
    have "dev_inv c ?d"
      using c5(2) ref_sync_frame [of "ctl_cmd_queue c5"] unfolding dev_inv_def
      by (simp add: cq_ClockTick_def) (simp add: ref_sync_def ref_indices_def GetQueueIndex_def)
    moreover have "pend_inv ?d"
      using c5(3) by (simp add: pend_inv_def rd_work_def wr_work_def waiting_trans_def cq_ClockTick_def bag_def)
    ultimately show ?thesis unfolding ctl_inv_def by blast
  qed
  moreover have "owed ?d = owed ctl" using c5(5,6) c2(4) c0(3) v(1) by (simp add: owed_def)
  moreover have "ctl_clk ?d = ctl_clk ctl + 1" using c5(4) v(1) c2(5) by simp
  moreover have "traced c ctl \<longrightarrow> (\<forall>e \<in> set (cmd_trace ctl). fst e \<le> ctl_clk ctl) \<longrightarrow>
      traced c ?d \<and> (\<forall>e \<in> set (cmd_trace ?d). fst e \<le> ctl_clk ctl)"
  proof (intro impI)
    assume t: "traced c ctl" "\<forall>e \<in> set (cmd_trace ctl). fst e \<le> ctl_clk ctl"
    then have "traced c ?c1" using c0(4) by (simp add: traced_def)
    then have "traced c c2 \<and> (\<forall>e \<in> set (cmd_trace c2). fst e \<le> ctl_clk ctl)" using c2(7) t(2) by simp
    then show "traced c ?d \<and> (\<forall>e \<in> set (cmd_trace ?d). fst e \<le> ctl_clk ctl)"
      using i3(3) c5(7,8) v(1) by (simp add: traced_def)
  qed
  moreover have "shrunk ctl ?d" using c5(9) c2(6) v(1) by (simp add: shrunk_def)
  ultimately show ?thesis using tick by blast
qed

section \<open>Arrivals and completions\<close>

lemma push_frame [simp]:
  "ctl_stats (push_unified x t) = ctl_stats x" "ctl_channel (push_unified x t) = ctl_channel x"
  "ctl_cmd_queue (push_unified x t) = ctl_cmd_queue x" "ctl_clk (push_unified x t) = ctl_clk x"
  "ctl_refresh (push_unified x t) = ctl_refresh x" "cmd_trace (push_unified x t) = cmd_trace x"
  "pending_rd_q (push_unified x t) = pending_rd_q x" "pending_wr_q (push_unified x t) = pending_wr_q x"
  "return_queue (push_unified x t) = return_queue x"
  "ctl_stats (push_read x t) = ctl_stats x" "ctl_channel (push_read x t) = ctl_channel x"
  "ctl_cmd_queue (push_read x t) = ctl_cmd_queue x" "ctl_clk (push_read x t) = ctl_clk x"
  "ctl_refresh (push_read x t) = ctl_refresh x" "cmd_trace (push_read x t) = cmd_trace x"
  "pending_rd_q (push_read x t) = pending_rd_q x" "pending_wr_q (push_read x t) = pending_wr_q x"
  "return_queue (push_read x t) = return_queue x"
  "ctl_stats (push_write x t) = ctl_stats x" "ctl_channel (push_write x t) = ctl_channel x"
  "ctl_cmd_queue (push_write x t) = ctl_cmd_queue x" "ctl_clk (push_write x t) = ctl_clk x"
  "ctl_refresh (push_write x t) = ctl_refresh x" "cmd_trace (push_write x t) = cmd_trace x"
  "pending_rd_q (push_write x t) = pending_rd_q x" "pending_wr_q (push_write x t) = pending_wr_q x"
  "return_queue (push_write x t) = return_queue x"
  by (simp_all add: push_unified_def push_read_def push_write_def)

lemma push_waiting [simp]:
  "waiting_trans (push_unified x t) = add_mset t (waiting_trans x)"
  "waiting_trans (push_read x t) = add_mset t (waiting_trans x)"
  "waiting_trans (push_write x t) = add_mset t (waiting_trans x)"
  by (simp_all add: waiting_trans_def push_unified_def push_read_def push_write_def)

lemma waiting_frame [simp]:
  "waiting_trans (x\<lparr>pending_wr_q := p\<rparr>) = waiting_trans x"
  "waiting_trans (x\<lparr>pending_rd_q := p\<rparr>) = waiting_trans x"
  "waiting_trans (x\<lparr>return_queue := q\<rparr>) = waiting_trans x"
  by (simp_all add: waiting_trans_def)

text \<open>
  The controller after an arrival, by cases: a write is merged with a pending one or queued,
  and finished at once; a read is answered from a pending write, joins a pending read of
  the address, or is queued.
\<close>

definition enqueue :: "Controller \<Rightarrow> Transaction \<Rightarrow> Controller" where
  "enqueue ctl t = (if is_unified_queue ctl then push_unified ctl t
     else if is_write t then push_write ctl t else push_read ctl t)"

lemma enqueue_frame [simp]:
  "ctl_stats (enqueue x t) = ctl_stats x" "ctl_channel (enqueue x t) = ctl_channel x"
  "ctl_cmd_queue (enqueue x t) = ctl_cmd_queue x" "ctl_clk (enqueue x t) = ctl_clk x"
  "ctl_refresh (enqueue x t) = ctl_refresh x" "cmd_trace (enqueue x t) = cmd_trace x"
  "pending_rd_q (enqueue x t) = pending_rd_q x" "pending_wr_q (enqueue x t) = pending_wr_q x"
  "return_queue (enqueue x t) = return_queue x"
  "waiting_trans (enqueue x t) = add_mset t (waiting_trans x)"
  by (simp_all add: enqueue_def)

definition arrived :: "Controller \<Rightarrow> Controller" where
  "arrived ctl = ctl\<lparr>ctl_stats := AddValue (ctl_stats ctl) ''interarrival_latency''
     (to_int32 (ctl_clk ctl - last_trans_clk ctl)), last_trans_clk := ctl_clk ctl\<rparr>"

lemma arrived_frame [simp]:
  "ctl_channel (arrived x) = ctl_channel x" "ctl_cmd_queue (arrived x) = ctl_cmd_queue x"
  "ctl_clk (arrived x) = ctl_clk x" "ctl_refresh (arrived x) = ctl_refresh x" "cmd_trace (arrived x) = cmd_trace x"
  "pending_rd_q (arrived x) = pending_rd_q x" "pending_wr_q (arrived x) = pending_wr_q x"
  "return_queue (arrived x) = return_queue x" "waiting_trans (arrived x) = waiting_trans x"
  "is_unified_queue (arrived x) = is_unified_queue x"
  by (simp_all add: arrived_def waiting_trans_def)

lemma AddTransaction_cases:
  fixes ctl t0
  defines "t \<equiv> t0\<lparr>added_cycle := ctl_clk ctl\<rparr>"
  defines "a \<equiv> trans_addr t0" and "x \<equiv> arrived ctl"
  shows "AddTransaction ctl t0 = (True,
    if is_write t0 then
      (let y = (if a \<in> fst ` set (pending_wr_q ctl) then x
                else enqueue (x\<lparr>pending_wr_q := pending_wr_q x @ [(a, t)]\<rparr>) t)
       in y\<lparr>return_queue := return_queue y @ [t\<lparr>complete_cycle := ctl_clk ctl + 1\<rparr>]\<rparr>)
    else if a \<in> fst ` set (pending_wr_q ctl)
    then x\<lparr>return_queue := return_queue x @ [t\<lparr>complete_cycle := ctl_clk ctl + 1\<rparr>]\<rparr>
    else
      (let y = x\<lparr>pending_rd_q := pending_rd_q x @ [(a, t)]\<rparr>
       in if a \<in> fst ` set (pending_rd_q ctl) then y else enqueue y t))"
proof -
  have c0: "count_key (pending_wr_q ctl) a = 0 \<longleftrightarrow> a \<notin> fst ` set (pending_wr_q ctl)"
    "0 < count_key (pending_wr_q ctl) a \<longleftrightarrow> a \<in> fst ` set (pending_wr_q ctl)"
    using count_key_zero [of "pending_wr_q ctl" a] by auto
  have c1: "count_key (pending_rd_q ctl @ [(a, t)]) a = 1 \<longleftrightarrow> a \<notin> fst ` set (pending_rd_q ctl)"
    using count_key_zero [of "pending_rd_q ctl" a] by (simp add: count_key_def)
  show ?thesis
    using c0 c1
    by (simp add: AddTransaction_def Let_def enqueue_def arrived_def t_def a_def x_def)
qed

lemma dev_inv_frame:
  assumes "dev_inv c ctl" and "ctl_channel d = ctl_channel ctl" "ctl_cmd_queue d = ctl_cmd_queue ctl"
    "ctl_clk d = ctl_clk ctl" "ctl_refresh d = ctl_refresh ctl" "stats_inv c (ctl_stats d)"
  shows "dev_inv c d"
  using assms unfolding dev_inv_def by simp

lemma pend_inv_frame:
  assumes "pend_inv ctl" and "pending_rd_q d = pending_rd_q ctl" "pending_wr_q d = pending_wr_q ctl"
    "ctl_cmd_queue d = ctl_cmd_queue ctl" "waiting_trans d = waiting_trans ctl"
  shows "pend_inv d"
  using assms by (simp add: pend_inv_def rd_work_def wr_work_def)

lemma AddTransaction_spec:
  assumes "ctl_inv c ctl"
  shows "\<exists>d. AddTransaction ctl t0 = (True, d) \<and> ctl_inv c d \<and> owed d = add_mset (trans_tag t0) (owed ctl) \<and>
    ctl_clk d = ctl_clk ctl \<and> cmd_trace d = cmd_trace ctl \<and> ctl_channel d = ctl_channel ctl"
proof -
  let ?t = "t0\<lparr>added_cycle := ctl_clk ctl\<rparr>" and ?a = "trans_addr t0" and ?x = "arrived ctl"
  obtain d where d: "AddTransaction ctl t0 = (True, d)" unfolding AddTransaction_cases by blast
  have inv: "dev_inv c ctl" "pend_inv ctl" using assms unfolding ctl_inv_def by blast+
  have "stats_inv c (ctl_stats ctl)" using inv(1) unfolding dev_inv_def by blast
  then have sx: "stats_inv c (ctl_stats ?x)"
    unfolding arrived_def by (simp add: AddValue_inv histo_names_def)
  have "ctl_channel d = ctl_channel ctl \<and> ctl_cmd_queue d = ctl_cmd_queue ctl \<and> ctl_clk d = ctl_clk ctl \<and>
      ctl_refresh d = ctl_refresh ctl \<and> ctl_stats d = ctl_stats ?x \<and> cmd_trace d = cmd_trace ctl"
    using d unfolding AddTransaction_cases Let_def by auto
  note fr = this
  have dev: "dev_inv c d" using dev_inv_frame [OF inv(1)] fr sx by simp
  note p = inv(2) [unfolded pend_inv_def]
  have "pend_inv d \<and> owed d = add_mset (trans_tag t0) (owed ctl)"
  proof (cases "?a \<in> fst ` set (pending_wr_q ctl)")
    case hit: True
    have dd: "d = ?x\<lparr>return_queue := return_queue ?x @ [?t\<lparr>complete_cycle := ctl_clk ctl + 1\<rparr>]\<rparr>"
      using d hit unfolding AddTransaction_cases Let_def by (cases "is_write t0") simp_all
    have "pend_inv d" by (rule pend_inv_frame [OF inv(2)]) (simp_all add: dd waiting_trans_def arrived_def)
    then show ?thesis by (simp add: dd owed_def)
  next
    case miss: False
    show ?thesis
    proof (cases "is_write t0")
      case True
      let ?y = "enqueue (?x\<lparr>pending_wr_q := pending_wr_q ?x @ [(?a, ?t)]\<rparr>) ?t"
      have dd: "d = ?y\<lparr>return_queue := return_queue ?y @ [?t\<lparr>complete_cycle := ctl_clk ctl + 1\<rparr>]\<rparr>"
        using d miss True unfolding AddTransaction_cases Let_def by simp
      have w: "waiting_trans d = add_mset ?t (waiting_trans ctl)"
        by (simp add: dd)
      have f: "ctl_cmd_queue d = ctl_cmd_queue ctl" "pending_rd_q d = pending_rd_q ctl"
        "pending_wr_q d = pending_wr_q ctl @ [(?a, ?t)]" by (simp_all add: dd)
      have "rd_work d = rd_work ctl" "wr_work d = add_mset ?a (wr_work ctl)"
        using True by (simp_all add: rd_work_def wr_work_def w f)
      then have "pend_inv d" using p miss unfolding pend_inv_def f by auto
      then show ?thesis by (simp add: dd owed_def)
    next
      case False
      let ?y = "?x\<lparr>pending_rd_q := pending_rd_q ?x @ [(?a, ?t)]\<rparr>"
      have dd: "d = (if ?a \<in> fst ` set (pending_rd_q ctl) then ?y else enqueue ?y ?t)"
        using d miss False unfolding AddTransaction_cases Let_def by simp
      have f: "ctl_cmd_queue d = ctl_cmd_queue ctl" "pending_rd_q d = pending_rd_q ctl @ [(?a, ?t)]"
        "pending_wr_q d = pending_wr_q ctl" "return_queue d = return_queue ctl"
        "waiting_trans d = (if ?a \<in> fst ` set (pending_rd_q ctl) then waiting_trans ctl
           else add_mset ?t (waiting_trans ctl))"
        by (simp_all add: dd)
      have "wr_work d = wr_work ctl" using False by (simp add: wr_work_def f)
      moreover have "rd_work d = mset_set (fst ` set (pending_rd_q d))"
      proof (cases "?a \<in> fst ` set (pending_rd_q ctl)")
        case True
        then show ?thesis using p by (simp add: rd_work_def f insert_absorb)
      next
        case new: False
        then have "rd_work d = add_mset ?a (rd_work ctl)" using False by (simp add: rd_work_def f)
        then show ?thesis using p new by (simp add: f)
      qed
      ultimately have "pend_inv d" using p False unfolding pend_inv_def f by auto
      then show ?thesis using False by (simp add: owed_def f)
    qed
  qed
  with d dev fr show ?thesis unfolding ctl_inv_def by blast
qed

lemma mset_erase_find:
  "List.find P xs = Some x \<Longrightarrow> mset xs = add_mset x (mset (erase_first P xs))"
  by (induction xs) (auto split: if_splits)

lemma ReturnDoneTrans_spec:
  assumes "ctl_inv c ctl"
  shows "\<exists>r d. ReturnDoneTrans ctl clk = (r, d) \<and> ctl_inv c d \<and> ctl_clk d = ctl_clk ctl \<and>
    cmd_trace d = cmd_trace ctl \<and> ctl_channel d = ctl_channel ctl \<and>
    (if snd r = -1 then d = ctl \<and> (\<forall>t \<in> set (return_queue ctl). clk < complete_cycle t)
     else owed ctl = add_mset (fst r, snd r = 1) (owed d) \<and> snd r \<in> {0, 1})"
proof (cases "List.find (\<lambda>t. complete_cycle t \<le> clk) (return_queue ctl)")
  case None
  then have "\<forall>t \<in> set (return_queue ctl). clk < complete_cycle t"
    by (auto simp: find_None_iff not_le)
  with None assms show ?thesis by (simp add: ReturnDoneTrans_def)
next
  case (Some t)
  let ?st = "if is_write t then Increment (ctl_stats ctl) ''num_writes_done''
     else AddValue (Increment (ctl_stats ctl) ''num_reads_done'') ''read_latency''
       (to_int32 (ctl_clk ctl - added_cycle t))"
  let ?d = "ctl\<lparr>ctl_stats := ?st,
     return_queue := erase_first (\<lambda>t. complete_cycle t \<le> clk) (return_queue ctl)\<rparr>"
  have inv: "dev_inv c ctl" "pend_inv ctl" using assms unfolding ctl_inv_def by blast+
  have "stats_inv c (ctl_stats ctl)" using inv(1) unfolding dev_inv_def by blast
  then have "stats_inv c ?st" by (simp add: AddValue_inv histo_names_def)
  then have "ctl_inv c ?d"
    unfolding ctl_inv_def using dev_inv_frame [OF inv(1), of ?d] pend_inv_frame [OF inv(2), of ?d]
    by (simp add: waiting_trans_def)
  moreover have "owed ctl = add_mset (trans_tag t) (owed ?d)"
    using mset_erase_find [OF Some] by (simp add: owed_def)
  moreover have "ReturnDoneTrans ctl clk = ((trans_addr t, if is_write t then 1 else 0), ?d)"
    unfolding ReturnDoneTrans_def Some by (simp add: Let_def)
  ultimately show ?thesis by (auto split: if_splits)
qed

lemma ctl_inv_mk_Controller:
  assumes "mk_Controller c ch = Inr ctl" and "geometry_ok c" and "mk_Refresh c = Inr rf"
    and "0 < refresh_interval rf" and "refresh_interval rf < 2 ^ 64" and "refresh_policy c \<noteq> SIZE_POLICY"
  shows "ctl_inv c ctl" and "owed ctl = {#}" and "traced c ctl" and "cmd_trace ctl = []" and "ctl_clk ctl = 0"
proof -
  obtain cq where cq: "mk_CommandQueue c = Inr cq"
    using assms(1) by (auto simp: mk_Controller_def elim!: bindR_InrE)
  then have ctl: "ctl_channel ctl = mk_ChannelState c" "ctl_cmd_queue ctl = cq" "ctl_refresh ctl = rf"
      "ctl_stats ctl = mk_SimpleStats c" "ctl_clk ctl = 0" "pending_rd_q ctl = []" "pending_wr_q ctl = []"
      "return_queue ctl = []" "cmd_trace ctl = []" "unified_q ctl = []" "read_queue ctl = []" "write_buffer ctl = []"
    using assms(1,3) by (auto simp: mk_Controller_def Let_def split: if_splits)
  note q = cq_inv_mk_CommandQueue [OF assms(2) cq]
  have "dev_inv c ctl"
    unfolding dev_inv_def ctl using q ref_sync_mk_CommandQueue [OF cq] chan_inv_mk_ChannelState
      stats_inv_mk_SimpleStats ref_inv_mk_Refresh(1) [OF assms(3-6)]
    by (simp add: mk_ChannelState_def)
  moreover have "pend_inv ctl" by (simp add: pend_inv_def rd_work_def wr_work_def waiting_trans_def ctl q(2))
  ultimately show "ctl_inv c ctl" unfolding ctl_inv_def by blast
  show "owed ctl = {#}" "traced c ctl" "cmd_trace ctl = []" "ctl_clk ctl = 0"
    by (simp_all add: owed_def ctl traced_def chan_trace.start)
qed

section \<open>Answers keep their place\<close>

text \<open>A cycle only appends to the queue of finished transactions.\<close>

definition grown :: "Controller \<Rightarrow> Controller \<Rightarrow> bool" where
  "grown ctl d \<longleftrightarrow> (\<exists>new. return_queue d = return_queue ctl @ new)"

lemma grown_same: "return_queue d = return_queue ctl \<Longrightarrow> grown ctl d"
  by (simp add: grown_def)

lemma grown_trans: "grown a b \<Longrightarrow> grown b d \<Longrightarrow> grown a d"
  by (auto simp: grown_def)

lemma return_reads_grows: "return_reads n a t pr = Inr pr' \<Longrightarrow> \<exists>new. snd pr' = snd pr @ new"
proof (induction n arbitrary: pr)
  case (Suc n)
  from Suc.prems obtain e where "return_reads n a t (erase_first (\<lambda>e. fst e = a) (fst pr), snd pr @ [(snd e)\<lparr>complete_cycle := t\<rparr>]) = Inr pr'"
    by (auto split: option.splits)
  from Suc.IH [OF this] show ?case by auto
qed simp

lemma issue_pending_grows: "issue_pending c ctl cmd = Inr d \<Longrightarrow> grown ctl d"
  by (auto simp: issue_pending_def Let_def grown_def dest!: return_reads_grows elim!: bindR_InrE
      split: if_splits option.splits prod.splits)

lemma IssueCommand_grows: "IssueCommand c ctl cmd = Inr d \<Longrightarrow> grown ctl d"
  by (auto simp: IssueCommand_def grown_def dest!: issue_pending_grows elim!: bindR_InrE)

lemma tick_command_frame: "tick_command c ctl = Inr (cmd, d) \<Longrightarrow> return_queue d = return_queue ctl"
  by (auto simp: tick_command_def elim!: bindR_InrE split: if_splits prod.splits)

lemma tick_issue_grows: "tick_issue c ctl cmd = Inr d \<Longrightarrow> grown ctl d"
  by (auto simp: tick_issue_def Let_def grown_def dest!: IssueCommand_grows elim!: bindR_InrE split: if_splits prod.splits)

lemma power_rank_frame: "power_rank c i ctl = Inr d \<Longrightarrow> return_queue d = return_queue ctl"
  by (auto simp: power_rank_def elim!: bindR_InrE split: if_splits)

lemma sref_loop_grows: "sref_loop c is ctl = Inr d \<Longrightarrow> grown ctl d"
proof (induction "is")
  case (Cons i "is")
  then show ?case by (auto simp: IssueCommand_grows elim!: bindR_InrE split: if_splits)
qed (simp add: grown_def)

lemma schedule_loop_frame: "schedule_loop c ctl prev rest = Inr (d, q) \<Longrightarrow> return_queue d = return_queue ctl"
proof (induction rest arbitrary: prev)
  case (Cons t rest)
  then show ?case by (auto simp: Let_def elim!: bindR_InrE split: if_splits prod.splits)
qed simp

lemma ScheduleTransaction_frame: "ScheduleTransaction c ctl = Inr d \<Longrightarrow> return_queue d = return_queue ctl"
  by (auto simp: ScheduleTransaction_def Let_def choose_draining_def dest!: schedule_loop_frame
      elim!: bindR_InrE split: if_splits prod.splits)

lemma ctl_ClockTick_grows:
  assumes "ctl_ClockTick c ctl = Inr d"
  shows "grown ctl d"
proof -
  obtain rf s cmd c1 c2 c3 c4 c5 where t:
      "tick_command c (ctl\<lparr>ctl_refresh := rf, ctl_channel := s\<rparr>) = Inr (cmd, c1)"
      "tick_issue c c1 cmd = Inr c2" "foldR (power_rank c) [0 .. ranks c - 1] c2 = Inr c3"
      "(if enable_self_refresh c \<and> \<not> IsValid cmd then sref_loop c [0 .. ranks c - 1] c3 else Inr c3) = Inr c4"
      "ScheduleTransaction c c4 = Inr c5" "return_queue d = return_queue c5"
    using assms unfolding ctl_ClockTick_def by (auto elim!: bindR_InrE)
  have "return_queue c3 = return_queue c2"
    using foldR_invariant [OF t(3), of "\<lambda>x. return_queue x = return_queue c2"] power_rank_frame by metis
  moreover have "grown c3 c4" using t(4) sref_loop_grows grown_same by (auto split: if_splits)
  moreover have "return_queue c1 = return_queue ctl" using tick_command_frame [OF t(1)] by simp
  ultimately show ?thesis
    using tick_issue_grows [OF t(2)] ScheduleTransaction_frame [OF t(5)] t(6) by (auto simp: grown_def)
qed

section \<open>Waking a rank\<close>

lemma issue_loop_rank_empty:
  "issue_loop c s n cq st = Inr (cmd, cq', st') \<Longrightarrow> rank_q_empty cq' = rank_q_empty cq"
proof (induction c s n cq st rule: issue_loop.induct)
  case (2 c s n cq st)
  show ?case
    using 2 by (fastforce simp: GetNextQueue_def EraseRWCommand_def Let_def elim!: bindR_InrE split: if_splits)
qed simp

text \<open>A read or write for a bank in self refresh gets no command before the exit is allowed.\<close>

lemma chan_ready_asleep:
  assumes "chan_inv c s" and "cmd_ok c req" and "IsReadWrite req" and "rank_is_sref s ! nat (Rank req)"
    and "clk < cmd_timing (at_bank (bank_states s) (Rank req, Bankgroup req, Bank req)) SREF_EXIT"
  shows "chan_GetReadyCommand c s req clk = Inr Command0"
proof -
  have bi: "bank_index c (Rank req) (Bankgroup req) (Bank req)" and rk: "\<not> IsRankCMD req"
    using assms(2,3) by (auto simp: cmd_ok_def)
  have "bank_state (at_bank (bank_states s) (Rank req, Bankgroup req, Bank req)) = SREF"
    using chan_invD(4) [OF assms(1) bi] assms(4) by simp
  then have "bank_GetReadyCommand (at_bank (bank_states s) (Rank req, Bankgroup req, Bank req)) req clk = Inr Command0"
    using assms(3,5) by (auto simp: bank_GetReadyCommand_def required_type_def)
  with rk show ?thesis
    unfolding chan_GetReadyCommand_def get3_bank [OF chan_invD(2) [OF assms(1)] bi] by simp
qed

lemma chan_ready_exit:
  assumes "chan_inv c s" and "geometry_ok c" and "0 \<le> i" and "i < ranks c" and "rank_is_sref s ! nat i"
  shows "chan_GetReadyCommand c s (mk_Command SREF_EXIT (Address0\<lparr>rank := i\<rparr>) h) clk =
    Inl (AbruptExit ''bankstate.cc'' 77)"
proof -
  let ?req = "mk_Command SREF_EXIT (Address0\<lparr>rank := i\<rparr>) h"
  have b0: "bank_index c i 0 0" using assms(2-4) by (simp add: bank_index_def geometry_ok_def)
  have "bank_state (at_bank (bank_states s) (i, 0, 0)) = SREF"
    using chan_invD(4) [OF assms(1) b0] assms(5) by simp
  then have ab: "bank_GetReadyCommand (at_bank (bank_states s) (i, 0, 0)) ?req clk = Inl (AbruptExit ''bankstate.cc'' 77)"
    by (simp add: bank_GetReadyCommand_def required_type_def)
  have "[0 .. bankgroups c - 1] = 0 # [1 .. bankgroups c - 1]"
    "[0 .. banks_per_group c - 1] = 0 # [1 .. banks_per_group c - 1]"
    using assms(2) by (simp_all add: upto_rec1 geometry_ok_def)
  then have "\<exists>ps. bank_loop c = (0, 0) # ps" by (simp add: bank_loop_def)
  then have "rank_ready_loop s ?req clk (bank_loop c) Command0 0 = Inl (AbruptExit ''bankstate.cc'' 77)"
    using get3_bank [OF chan_invD(2) [OF assms(1)] b0] ab by auto
  then show ?thesis by (simp add: chan_GetReadyCommand_def)
qed

lemma sref_loop_aborts:
  assumes "chan_inv c (ctl_channel ctl)" and "geometry_ok c" and "cq_inv c (ctl_cmd_queue ctl)"
    and "0 \<le> i" and "i < ranks c" and "rank_is_sref (ctl_channel ctl) ! nat i"
    and "\<not> rank_q_empty (ctl_cmd_queue ctl) ! nat i"
    and "\<And>j. j \<in> set js \<Longrightarrow> 0 \<le> j \<and> j < ranks c \<and>
      (rank_is_sref (ctl_channel ctl) ! nat j \<or> \<not> rank_q_empty (ctl_cmd_queue ctl) ! nat j)"
  shows "sref_loop c (js @ i # is) ctl = Inl (AbruptExit ''bankstate.cc'' 77)"
proof -
  have sh: "chan_shape c (ctl_channel ctl)" using chan_invD(1) [OF assms(1)] .
  have at: "IsRankSelfRefreshing (ctl_channel ctl) j = Inr (rank_is_sref (ctl_channel ctl) ! nat j)"
      "vec_at (rank_q_empty (ctl_cmd_queue ctl)) j = Inr (rank_q_empty (ctl_cmd_queue ctl) ! nat j)"
      "vec_at (rank_idle_cycles (ctl_channel ctl)) j = Inr (rank_idle_cycles (ctl_channel ctl) ! nat j)"
    if "0 \<le> j" "j < ranks c" for j
    using that sh IsRankSelfRefreshing_eq [OF sh that] cq_invD(2) [OF assms(3)]
    by (simp_all add: vec_at_Inr chan_shape_def)
  show ?thesis using assms(8)
  proof (induction js)
    case Nil
    show ?case using at [OF assms(4,5)] assms(6,7) chan_ready_exit [OF assms(1,2,4-6)] by simp
  next
    case (Cons j js)
    then have j: "0 \<le> j" "j < ranks c"
      "rank_is_sref (ctl_channel ctl) ! nat j \<or> \<not> rank_q_empty (ctl_cmd_queue ctl) ! nat j" by simp_all
    show ?case using at [OF j(1,2)] j(3) Cons chan_ready_exit [OF assms(1,2) j(1,2)] by auto
  qed
qed

lemma no_command_asleep:
  assumes "chan_inv c s" and "geometry_ok c" and "cq_inv c cq" and "stats_inv c st"
    and "\<And>cmd. cmd \<in># bag cq \<Longrightarrow> rank_is_sref s ! nat (Rank cmd) \<and>
      cq_clk cq < cmd_timing (at_bank (bank_states s) (Rank cmd, Bankgroup cmd, Bank cmd)) SREF_EXIT"
  shows "\<exists>cmd cq' st'. GetCommandToIssue c s cq st = Inr (cmd, cq', st') \<and> \<not> IsValid cmd \<and> cq_inv c cq' \<and>
    stats_inv c st' \<and> rank_q_empty cq' = rank_q_empty cq"
proof -
  obtain cmd cq' st' where g: "GetCommandToIssue c s cq st = Inr (cmd, cq', st')" "cq_inv c cq'"
      "stats_inv c st'" and p: "picked c s (nat (num_queues cq)) cq cmd cq'"
    using GetCommandToIssue_spec [OF assms(1-4)] by blast
  have "\<not> IsValid cmd"
  proof
    assume v: "IsValid cmd"
    obtain i req where r: "i < length (queues cq)" "req \<in> set (queues cq ! i)"
        "chan_GetReadyCommand c s req (cq_clk cq) = Inr cmd" "queued_ok c cq i req"
      using picked_request [OF p v assms(3,1)] by blast
    have "req \<in># bag cq" using r(1,2) nth_mem by (fastforce simp: bag_def)
    then have "chan_GetReadyCommand c s req (cq_clk cq) = Inr Command0"
      using chan_ready_asleep [OF assms(1)] assms(5) r(4) unfolding queued_ok_def by blast
    with r(3) v show False by simp
  qed
  moreover have "rank_q_empty cq' = rank_q_empty cq"
    using g(1) unfolding GetCommandToIssue_def by (rule issue_loop_rank_empty)
  ultimately show ?thesis using g by blast
qed

section \<open>Contract of the controller\<close>

datatype ctl_op = Arrive u64 bool | Cycle | Collect u64

fun ctl_step :: "Config \<Rightarrow> ctl_op \<Rightarrow> Controller \<Rightarrow> (Controller \<times> answers \<times> answers) result" where
  "ctl_step c (Arrive a w) ctl = Inr (snd (AddTransaction ctl (mk_Transaction a w)), [(a, w)], [])"
| "ctl_step c Cycle ctl = bindR (ctl_ClockTick c ctl) (\<lambda>d. Inr (d, [], []))"
| "ctl_step c (Collect clk) ctl =
     (case ReturnDoneTrans ctl clk of (r, d) \<Rightarrow> Inr (d, [], if snd r = -1 then [] else [(fst r, snd r = 1)]))"

fun ctl_submits :: "ctl_op \<Rightarrow> answers" where
  "ctl_submits (Arrive a w) = [(a, w)]"
| "ctl_submits Cycle = []"
| "ctl_submits (Collect clk) = []"

text \<open>The configurations covered: no self refresh, no dual command issue.\<close>

definition ctl_config :: "Config \<Rightarrow> bool" where
  "ctl_config c \<longleftrightarrow> geometry_ok c \<and> decodes c \<and> \<not> enable_self_refresh c \<and> \<not> enable_hbm_dual_cmd c"

lemma trans_tag_mk [simp]: "trans_addr (mk_Transaction a w) = a" "is_write (mk_Transaction a w) = w"
  by (simp_all add: mk_Transaction_def)

lemma ctl_step_spec:
  assumes "ctl_config c" and "ctl_inv c ctl"
  shows "\<exists>d out. ctl_step c x ctl = Inr (d, ctl_submits x, out) \<and> ctl_inv c d \<and>
    owed ctl + mset (ctl_submits x) = owed d + mset out \<and>
    ctl_clk d = (if x = Cycle then ctl_clk ctl + 1 else ctl_clk ctl) \<and>
    (traced c ctl \<longrightarrow> (\<forall>e \<in> set (cmd_trace ctl). fst e \<le> ctl_clk ctl) \<longrightarrow>
       traced c d \<and> (\<forall>e \<in> set (cmd_trace d). fst e \<le> ctl_clk ctl))"
proof (cases x)
  case (Arrive a w)
  obtain d where "AddTransaction ctl (mk_Transaction a w) = (True, d)" "ctl_inv c d"
      "owed d = add_mset (a, w) (owed ctl)" "ctl_clk d = ctl_clk ctl" "cmd_trace d = cmd_trace ctl"
      "ctl_channel d = ctl_channel ctl"
    using AddTransaction_spec [OF assms(2), of "mk_Transaction a w"] by auto
  then show ?thesis by (simp add: Arrive traced_def)
next
  case Cycle
  obtain d where "ctl_ClockTick c ctl = Inr d" "ctl_inv c d" "owed d = owed ctl" "ctl_clk d = ctl_clk ctl + 1"
      "traced c ctl \<longrightarrow> (\<forall>e \<in> set (cmd_trace ctl). fst e \<le> ctl_clk ctl) \<longrightarrow>
         traced c d \<and> (\<forall>e \<in> set (cmd_trace d). fst e \<le> ctl_clk ctl)"
    using ctl_ClockTick_spec [OF assms(2)] assms(1) unfolding ctl_config_def by blast
  then show ?thesis by (simp add: Cycle)
next
  case (Collect clk)
  obtain r d where r: "ReturnDoneTrans ctl clk = (r, d)" "ctl_inv c d" "ctl_clk d = ctl_clk ctl"
      "cmd_trace d = cmd_trace ctl" "ctl_channel d = ctl_channel ctl"
      "if snd r = -1 then d = ctl \<and> (\<forall>t \<in> set (return_queue ctl). clk < complete_cycle t)
       else owed ctl = add_mset (fst r, snd r = 1) (owed d) \<and> snd r \<in> {0, 1}"
    using ReturnDoneTrans_spec [OF assms(2)] by blast
  then have "owed ctl = owed d + mset (if snd r = -1 then [] else [(fst r, snd r = 1)])"
    by (cases "snd r = -1") simp_all
  with r show ?thesis by (simp add: Collect traced_def)
qed

interpretation ctl_port: open_port "\<lambda>ctl. ctl_config c \<and> ctl_inv c ctl" owed "ctl_step c" ctl_submits for c
proof
  fix ctl x assume "ctl_config c \<and> ctl_inv c ctl"
  then show "\<exists>s' acc out. ctl_step c x ctl = Inr (s', acc, out) \<and> (ctl_config c \<and> ctl_inv c s') \<and>
      owed ctl + mset acc = owed s' + mset out"
    using ctl_step_spec [of c ctl x] by blast
next
  fix x ctl s' acc out assume "ctl_step c x ctl = Inr (s', acc, out)"
  then show "acc = ctl_submits x" by (cases x) (auto elim!: bindR_InrE split: prod.splits)
qed

text \<open>A run that starts in a fresh controller, of fewer than \<open>2 ^ 64\<close> cycles.\<close>

definition cycles :: "ctl_op list \<Rightarrow> nat" where
  "cycles xs = length (filter (\<lambda>x. x = Cycle) xs)"

lemma word_le_succ: "a \<le> b \<Longrightarrow> uint b + 1 < 2 ^ 64 \<Longrightarrow> a \<le> b + (1 :: u64)"
  using uint_add_of_int [of 1 b] by (simp add: word_le_def)

lemma ctl_run_traced:
  assumes "ctl_config c" and "ctl_inv c ctl" and "traced c ctl" and "\<forall>e \<in> set (cmd_trace ctl). fst e \<le> ctl_clk ctl"
    and "uint (ctl_clk ctl) + int (cycles xs) < 2 ^ 64" and "port_run (ctl_step c) xs ctl = Inr (d, acc, out)"
  shows "traced c d"
  using assms(2-6)
proof (induction xs arbitrary: ctl acc out)
  case Nil
  then show ?case by simp
next
  case (Cons x xs)
  obtain d1 out1 where s: "ctl_step c x ctl = Inr (d1, ctl_submits x, out1)" "ctl_inv c d1"
      "ctl_clk d1 = (if x = Cycle then ctl_clk ctl + 1 else ctl_clk ctl)" "traced c d1"
      "\<forall>e \<in> set (cmd_trace d1). fst e \<le> ctl_clk ctl"
    using ctl_step_spec [OF assms(1) Cons.prems(1), of x] Cons.prems(2,3) by blast
  obtain acc2 out2 where r: "port_run (ctl_step c) xs d1 = Inr (d, acc2, out2)"
    using Cons.prems(5) s(1) by (auto elim!: bindR_InrE)
  have cyc: "cycles (x # xs) = (if x = Cycle then 1 else 0) + cycles xs" by (simp add: cycles_def)
  have "(\<forall>e \<in> set (cmd_trace d1). fst e \<le> ctl_clk d1) \<and> uint (ctl_clk d1) + int (cycles xs) < 2 ^ 64"
  proof (cases "x = Cycle")
    case True
    have b: "uint (ctl_clk ctl) + 1 < 2 ^ 64" using Cons.prems(4) cyc True by simp
    then have "uint (ctl_clk ctl + 1) = uint (ctl_clk ctl) + 1"
      using uint_add_of_int [of 1 "ctl_clk ctl"] by simp
    with True s(3,5) Cons.prems(4) cyc word_le_succ [OF _ b] show ?thesis by auto
  next
    case False
    with s(3,5) Cons.prems(4) cyc show ?thesis by simp
  qed
  with Cons.IH [OF s(2,4) _ _ r] show ?case by blast
qed

section \<open>A sample controller\<close>

definition sample_ctl :: Controller where
  "sample_ctl = projr (mk_Controller ddr4_config 0)"

definition sample_refresh :: Refresh where
  "sample_refresh = \<lparr>ref_clk = 0, refresh_interval = 6240, ref_policy = RANK_LEVEL_STAGGERED,
     next_rank = 0, next_bg = 0, next_bank = 0\<rparr>"

lemma sample_ctl_mk: "mk_Controller ddr4_config 0 = Inr sample_ctl"
proof -
  have "mk_Refresh ddr4_config = Inr sample_refresh" by code_simp
  moreover have "\<not> trans_queue_size ddr4_config < 0" by (simp add: ddr4_config_def)
  ultimately have "\<exists>ctl. mk_Controller ddr4_config 0 = Inr ctl"
    using sample_queue0_mk by (simp add: mk_Controller_def Let_def)
  then show ?thesis by (auto simp: sample_ctl_def)
qed

lemma sample_refresh_mk:
  "mk_Refresh ddr4_config = Inr sample_refresh" "0 < refresh_interval sample_refresh"
  "refresh_interval sample_refresh < 2 ^ 64" "refresh_policy ddr4_config \<noteq> SIZE_POLICY"
  by code_simp+

lemma ddr4_decodes: "decodes ddr4_config"
  unfolding decodes_def
proof
  fix a
  have h: "shift_bits ddr4_config < 64" "total_width ddr4_config < 64" "1 \<le> channels ddr4_config"
    "1 \<le> ranks ddr4_config" "1 \<le> bankgroups ddr4_config" "1 \<le> banks_per_group ddr4_config"
    "1 \<le> rows ddr4_config"
    by code_simp+
  obtain ad where ad: "AddressMapping ddr4_config a = Inr ad"
    using AddressMapping_total [OF ddr4_config_mapping SetAddressMapping_shift [OF ddr4_config_mapping] h(1,2)]
    by blast
  with AddressMapping_range [OF ddr4_config_mapping ad h(3-7)]
  show "\<exists>ad. AddressMapping ddr4_config a = Inr ad \<and> bank_index ddr4_config (rank ad) (bankgroup ad) (bank ad)"
    by (auto simp: bank_index_def)
qed

lemma ddr4_ctl_config: "ctl_config ddr4_config"
  unfolding ctl_config_def using ddr4_geometry ddr4_decodes by (simp add: ddr4_config_def)

lemmas sample_ctl_start = sample_ctl_mk ddr4_ctl_config sample_refresh_mk

section \<open>Properties\<close>

lemma ctl_run_from_start:
  assumes "mk_Controller c ch = Inr ctl" and "ctl_config c" and "mk_Refresh c = Inr rf"
    and "0 < refresh_interval rf" and "refresh_interval rf < 2 ^ 64" and "refresh_policy c \<noteq> SIZE_POLICY"
  shows "\<exists>d acc out. port_run (ctl_step c) xs ctl = Inr (d, acc, out) \<and> ctl_inv c d \<and>
    mset (concat (map ctl_submits xs)) = owed d + mset out \<and> (cycles xs < 2 ^ 64 \<longrightarrow> traced c d)"
proof -
  have geo: "geometry_ok c" using assms(2) unfolding ctl_config_def by blast
  note st = ctl_inv_mk_Controller [OF assms(1) geo assms(3-6)]
  have i: "ctl_config c \<and> ctl_inv c ctl" using assms(2) st(1) by blast
  from ctl_port.run_answers_all [OF i, of xs] obtain d acc out where
    d: "port_run (ctl_step c) xs ctl = Inr (d, acc, out)" "ctl_inv c d"
      "owed ctl + mset (concat (map ctl_submits xs)) = owed d + mset out" by blast
  moreover have "traced c d" if "cycles xs < 2 ^ 64"
    using ctl_run_traced [OF assms(2) st(1,3) _ _ d(1)] st(4,5) that by simp
  ultimately show ?thesis using st(2) by auto
qed

text \<open>
  C2: No transaction is lost, answered twice or made up. A fresh controller performs any sequence of
  arrivals, clock cycles and collections without reaching an \<open>exit\<close>, an abort or an index
  outside a vector, in particular never \<open>not in read queue\<close>, \<open>not in write queue\<close> or
  \<open>cannot find cmd\<close>; the transactions that arrived are those answered plus those still owed,
  with their multiplicities. Self refresh and dual commands are off; that an owed transaction
  is answered in the end is not part of the statement.
\<close>

theorem controller_answers_once:
  assumes "mk_Controller c ch = Inr ctl" and "ctl_config c" and "mk_Refresh c = Inr rf"
    and "0 < refresh_interval rf" and "refresh_interval rf < 2 ^ 64" and "refresh_policy c \<noteq> SIZE_POLICY"
  shows "\<exists>d acc out. port_run (ctl_step c) xs ctl = Inr (d, acc, out) \<and> ctl_inv c d \<and>
    mset (concat (map ctl_submits xs)) = owed d + mset out"
  using ctl_run_from_start [OF assms, of xs] by blast

theorem controller_answers_once_witness:
  "\<exists>d acc out. port_run (ctl_step ddr4_config) [Arrive 64 False, Arrive 64 True, Cycle, Collect 1] sample_ctl = Inr (d, acc, out) \<and>
     {#(64, False), (64, True)#} = owed d + mset out"
proof -
  let ?xs = "[Arrive 64 False, Arrive 64 True, Cycle, Collect 1]"
  obtain d acc out where r: "port_run (ctl_step ddr4_config) ?xs sample_ctl = Inr (d, acc, out)"
      "mset (concat (map ctl_submits ?xs)) = owed d + mset out"
    using controller_answers_once [OF sample_ctl_start, of ?xs] by blast
  have "mset (concat (map ctl_submits ?xs)) = {#(64, False), (64, True)#}" by (simp add: add_mset_commute)
  with r show ?thesis by metis
qed

text \<open>
  C3: The controller keeps the DRAM protocol. In every run of fewer than \<open>2 ^ 64\<close> cycles the
  sequence of commands the controller issues, with their cycles, respects every delay of
  the timing tables, reaches only banks in the state the command needs, and exceeds no
  activation window.
\<close>

theorem controller_commands_legal:
  assumes "mk_Controller c ch = Inr ctl" and "ctl_config c" and "mk_Refresh c = Inr rf"
    and "0 < refresh_interval rf" and "refresh_interval rf < 2 ^ 64" and "refresh_policy c \<noteq> SIZE_POLICY"
    and "cycles xs < 2 ^ 64" and "port_run (ctl_step c) xs ctl = Inr (d, acc, out)"
  shows "timing_respected c (cmd_trace d) \<and> protocol_respected c (cmd_trace d) \<and>
    (\<forall>r. 0 \<le> r \<longrightarrow> r < ranks c \<longrightarrow> windows_inv c r (cmd_trace d) (ctl_channel d))"
proof -
  have "traced c d" using ctl_run_from_start [OF assms(1-6), of xs] assms(7,8) by auto
  then have "chan_trace c (cmd_trace d) (ctl_channel d)" by (simp add: traced_def)
  moreover have "geometry_ok c" using assms(2) unfolding ctl_config_def by blast
  ultimately show ?thesis
    using chan_trace_timing_respected chan_trace_protocol_respected chan_trace_windows by blast
qed

theorem controller_commands_legal_witness:
  "\<exists>d acc out. port_run (ctl_step ddr4_config) [Arrive 64 False, Cycle, Cycle] sample_ctl = Inr (d, acc, out) \<and>
     timing_respected ddr4_config (cmd_trace d) \<and> protocol_respected ddr4_config (cmd_trace d)"
proof -
  let ?xs = "[Arrive 64 False, Cycle, Cycle]"
  obtain d acc out where r: "port_run (ctl_step ddr4_config) ?xs sample_ctl = Inr (d, acc, out)"
    using ctl_run_from_start [OF sample_ctl_start, of ?xs] by blast
  have "cycles ?xs < 2 ^ 64" by (simp add: cycles_def)
  with r controller_commands_legal [OF sample_ctl_start _ r] show ?thesis by blast
qed

text \<open>
  C22: Accesses to one address are merged. In every reachable state there is, for each
  address, exactly one DRAM read under way if reads of it are pending and none otherwise,
  and exactly one DRAM write under way if a write of it is pending and none otherwise,
  however many transactions wait for them.
\<close>

theorem controller_merges_accesses:
  assumes "mk_Controller c ch = Inr ctl" and "ctl_config c" and "mk_Refresh c = Inr rf"
    and "0 < refresh_interval rf" and "refresh_interval rf < 2 ^ 64" and "refresh_policy c \<noteq> SIZE_POLICY"
    and "port_run (ctl_step c) xs ctl = Inr (d, acc, out)"
  shows "count (rd_work d) a = (if a \<in> fst ` set (pending_rd_q d) then 1 else 0) \<and>
    count (wr_work d) a = (if a \<in> fst ` set (pending_wr_q d) then 1 else 0)"
proof -
  have "pend_inv d" using ctl_run_from_start [OF assms(1-6), of xs] assms(7) by (auto simp: ctl_inv_def)
  then have r: "rd_work d = mset_set (fst ` set (pending_rd_q d))"
    and w: "wr_work d = mset (map fst (pending_wr_q d))" "distinct (map fst (pending_wr_q d))"
    unfolding pend_inv_def by blast+
  have "count (rd_work d) a = (if a \<in> fst ` set (pending_rd_q d) then 1 else 0)"
    unfolding r by (simp add: count_mset_set')
  moreover have "count (wr_work d) a = (if a \<in> fst ` set (pending_wr_q d) then 1 else 0)"
    using distinct_count_atmost_1 [of "map fst (pending_wr_q d)"] w(2) unfolding w(1) by simp
  ultimately show ?thesis by blast
qed

theorem controller_merges_accesses_witness:
  "\<exists>d acc out. port_run (ctl_step ddr4_config) [Arrive 64 False, Arrive 64 False, Cycle] sample_ctl = Inr (d, acc, out) \<and>
     count (rd_work d) 64 \<le> 1"
proof -
  let ?xs = "[Arrive 64 False, Arrive 64 False, Cycle]"
  obtain d acc out where r: "port_run (ctl_step ddr4_config) ?xs sample_ctl = Inr (d, acc, out)"
    using ctl_run_from_start [OF sample_ctl_start, of ?xs] by blast
  from controller_merges_accesses [OF sample_ctl_start r, of 64] r show ?thesis by auto
qed

text \<open>
  C24: Bounded buffers. If transactions are submitted only when \<open>WillAcceptTransaction\<close> says so,
  the transaction queues never exceed the configured size and their vectors never grow.
\<close>

definition sized :: "Config \<Rightarrow> Controller \<Rightarrow> bool" where
  "sized c ctl \<longleftrightarrow> is_unified_queue ctl = unified_queue c \<and>
     (if is_unified_queue ctl
      then unified_cap ctl = nat (trans_queue_size c) \<and> length (unified_q ctl) \<le> unified_cap ctl
      else read_cap ctl = nat (trans_queue_size c) \<and> length (read_queue ctl) \<le> read_cap ctl \<and>
           write_cap ctl = nat (trans_queue_size c) \<and> length (write_buffer ctl) \<le> write_cap ctl)"

theorem controller_buffers_bounded:
  assumes "ctl_config c" and "ctl_inv c ctl" and "sized c ctl"
    and "\<forall>a w. x = Arrive a w \<longrightarrow> WillAcceptTransaction ctl a w"
  shows "\<exists>d acc out. ctl_step c x ctl = Inr (d, acc, out) \<and> ctl_inv c d \<and> sized c d"
proof (cases x)
  case (Arrive a w)
  obtain d where d: "AddTransaction ctl (mk_Transaction a w) = (True, d)" "ctl_inv c d"
    using AddTransaction_spec [OF assms(2)] by blast
  have "sized c d"
    using d(1) assms(3,4) Arrive unfolding AddTransaction_cases
    by (auto simp: sized_def WillAcceptTransaction_def enqueue_def arrived_def push_unified_def push_read_def
        push_write_def push_cap_def Let_def split: if_splits)
  with d show ?thesis by (simp add: Arrive)
next
  case Cycle
  obtain d where "ctl_ClockTick c ctl = Inr d" "ctl_inv c d" "shrunk ctl d"
    using ctl_ClockTick_spec [OF assms(2)] assms(1) unfolding ctl_config_def by blast
  with assms(3) show ?thesis by (auto simp: Cycle sized_def shrunk_def)
next
  case (Collect clk)
  obtain r d where r: "ReturnDoneTrans ctl clk = (r, d)" "ctl_inv c d"
    using ReturnDoneTrans_spec [OF assms(2)] by blast
  have "sized c d"
    using r(1) assms(3) by (auto simp: ReturnDoneTrans_def Let_def sized_def split: option.splits)
  with r show ?thesis by (simp add: Collect)
qed

theorem controller_buffers_bounded_witness:
  "\<exists>d acc out. ctl_step ddr4_config (Arrive 64 True) sample_ctl = Inr (d, acc, out) \<and> sized ddr4_config d"
proof -
  have i: "ctl_inv ddr4_config sample_ctl"
    by (rule ctl_inv_mk_Controller [OF sample_ctl_mk ddr4_geometry sample_refresh_mk])
  have s: "sized ddr4_config sample_ctl" "WillAcceptTransaction sample_ctl 64 True" by code_simp+
  then have "\<forall>a w. Arrive 64 True = Arrive a w \<longrightarrow> WillAcceptTransaction sample_ctl a w" by simp
  from controller_buffers_bounded [OF ddr4_ctl_config i s(1) this] show ?thesis by blast
qed

definition sref_config :: Config where
  "sref_config = ddr4_config\<lparr>ranks := 1, bankgroups := 1, banks_per_group := 1, banks := 1,
     enable_self_refresh := True, sref_threshold := 1\<rparr>"

lemma sref_run_aborts: "map_sum id (\<lambda>_. ()) (bindR (mk_Controller sref_config 0)
    (port_run (ctl_step sref_config) [Cycle, Arrive 0 False, Cycle, Cycle])) =
   Inl (AbruptExit ''bankstate.cc'' 77)"
  by code_simp

lemma cq_inv_sref [simp]: "cq_inv (c\<lparr>enable_self_refresh := b\<rparr>) cq = cq_inv c cq"
proof -
  have "AddressMapping (c\<lparr>enable_self_refresh := b\<rparr>) a = AddressMapping c a" for a
    by (simp add: AddressMapping_def)
  then have "queued_ok (c\<lparr>enable_self_refresh := b\<rparr>) cq = queued_ok c cq"
    by (intro ext) (simp add: queued_ok_def cmd_ok_def bank_index_def GetQueueIndex_def)
  then show ?thesis by (simp add: cq_inv_def)
qed

text \<open>Both ranks sleep until cycle 100, and the sample queue holds a read and a write.\<close>

definition sleeping_config :: Config where
  "sleeping_config = ddr4_config\<lparr>enable_self_refresh := True\<rparr>"

definition sleeping_ctl :: Controller where
  "sleeping_ctl = sample_ctl\<lparr>ctl_channel := uniform_channel ddr4_config
       (BankState0\<lparr>bank_state := SREF, cmd_timing := (\<lambda>_. 0)(SREF_EXIT := 100)\<rparr>),
     ctl_cmd_queue := sample_queue\<rparr>"

text \<open>
  C29: A request for a sleeping rank aborts the simulator when it comes too early. Self
  refresh is on, no refresh is waiting or falls due, every queued command is for a rank in
  self refresh that may not leave it yet, and the flag of such a rank says that it has
  commands queued (the ranks before it are asleep or flagged too): then \<open>ClockTick\<close> finds no
  command to issue, asks the rank for \<open>SREF_EXIT\<close>, which \<open>BankState::GetReadyCommand\<close> does not
  know as a request in that state, and ends in \<open>AbruptExit\<close>. The witness also runs into it from a new controller: a cycle of idling
  puts the rank to sleep, a read arrives, and the second cycle after it aborts.
\<close>

theorem self_refresh_wakeup_aborts:
  assumes "chan_inv c (ctl_channel ctl)" and "geometry_ok c" and "cq_inv c (ctl_cmd_queue ctl)"
    and "stats_inv c (ctl_stats ctl)" and "enable_self_refresh c"
    and "ref_ClockTick c (ctl_refresh ctl) (ctl_channel ctl) = Inr (rf, ctl_channel ctl)"
    and "refresh_q (ctl_channel ctl) = []"
    and "\<forall>cmd. cmd \<in># bag (ctl_cmd_queue ctl) \<longrightarrow> rank_is_sref (ctl_channel ctl) ! nat (Rank cmd) \<and>
      cq_clk (ctl_cmd_queue ctl) <
        cmd_timing (at_bank (bank_states (ctl_channel ctl)) (Rank cmd, Bankgroup cmd, Bank cmd)) SREF_EXIT"
    and "0 \<le> i" and "i < ranks c" and "rank_is_sref (ctl_channel ctl) ! nat i"
    and "\<not> rank_q_empty (ctl_cmd_queue ctl) ! nat i"
    and "\<forall>j. 0 \<le> j \<longrightarrow> j < i \<longrightarrow>
      rank_is_sref (ctl_channel ctl) ! nat j \<or> \<not> rank_q_empty (ctl_cmd_queue ctl) ! nat j"
  shows "ctl_ClockTick c ctl = Inl (AbruptExit ''bankstate.cc'' 77)"
proof -
  obtain cmd cq st where g: "GetCommandToIssue c (ctl_channel ctl) (ctl_cmd_queue ctl) (ctl_stats ctl) =
      Inr (cmd, cq, st)" "\<not> IsValid cmd" "cq_inv c cq" "stats_inv c st"
      "rank_q_empty cq = rank_q_empty (ctl_cmd_queue ctl)"
    using no_command_asleep [OF assms(1-4)] assms(8) by blast
  define d where "d = ctl\<lparr>ctl_refresh := rf, ctl_cmd_queue := cq, ctl_stats := st\<rparr>"
  have t: "tick_command c (ctl\<lparr>ctl_refresh := rf, ctl_channel := ctl_channel ctl\<rparr>) = Inr (cmd, d)"
    using assms(7) g(1) by (simp add: tick_command_def IsRefreshWaiting_def d_def)
  obtain e where e: "foldR (power_rank c) [0 .. ranks c - 1] d = Inr e" "idled c d e"
    using power_loop_total [of c d] assms(1) g(4) by (auto simp: d_def)
  then obtain st' v where ee: "e = d\<lparr>ctl_stats := st', ctl_channel := (ctl_channel d)\<lparr>rank_idle_cycles := v\<rparr>\<rparr>"
      "length v = length (rank_idle_cycles (ctl_channel d))" unfolding idled_def by blast
  have "sref_loop c ([0 .. i - 1] @ i # [i + 1 .. ranks c - 1]) e = Inl (AbruptExit ''bankstate.cc'' 77)"
  proof (rule sref_loop_aborts [OF _ assms(2)])
    show "chan_inv c (ctl_channel e)" using chan_inv_idle [OF assms(1), of v] ee by (simp add: d_def)
  qed (use assms(9-13) g(3,5) ee in \<open>auto simp: d_def\<close>)
  then have "sref_loop c [0 .. ranks c - 1] e = Inl (AbruptExit ''bankstate.cc'' 77)"
    using upto_split3 [of 0 i "ranks c - 1"] assms(9,10) by simp
  with assms(5,6) t g(2) e(1) show ?thesis by (simp add: ctl_ClockTick_def tick_issue_def)
qed

theorem self_refresh_wakeup_aborts_witness:
  "ctl_ClockTick sleeping_config sleeping_ctl = Inl (AbruptExit ''bankstate.cc'' 77) \<and>
   map_sum id (\<lambda>_. ()) (bindR (mk_Controller sref_config 0)
     (port_run (ctl_step sref_config) [Cycle, Arrive 0 False, Cycle, Cycle])) = Inl (AbruptExit ''bankstate.cc'' 77)"
proof
  let ?b = "BankState0\<lparr>bank_state := SREF, cmd_timing := (\<lambda>_. 0)(SREF_EXIT := 100)\<rparr>"
  let ?s = "ctl_channel sleeping_ctl" and ?cq = "ctl_cmd_queue sleeping_ctl"
  have s: "?s = uniform_channel sleeping_config ?b"
    by (simp add: sleeping_ctl_def uniform_channel_def sleeping_config_def mk_ChannelState_def)
  have "bank_inv ?b" by (simp add: bank_inv_def BankState0_def)
  then have i: "chan_inv sleeping_config ?s" unfolding s by (rule chan_inv_uniform)
  have g: "geometry_ok sleeping_config" using ddr4_geometry by (simp add: geometry_ok_def sleeping_config_def)
  have q: "cq_inv sleeping_config ?cq"
    using sample_queue_inv(3) by (simp add: sleeping_ctl_def sleeping_config_def)
  have st: "stats_inv sleeping_config (ctl_stats sleeping_ctl)"
    using ctl_inv_mk_Controller [OF sample_ctl_mk ddr4_geometry sample_refresh_mk]
    by (simp add: ctl_inv_def dev_inv_def sleeping_ctl_def sleeping_config_def stats_inv_def vec_ok_def)
  have r: "ref_ClockTick sleeping_config (ctl_refresh sleeping_ctl) ?s =
      Inr ((ctl_refresh sleeping_ctl)\<lparr>ref_clk := 1\<rparr>, ?s)" "refresh_q ?s = []"
  proof -
    have "(of_int (refresh_interval (ctl_refresh sleeping_ctl)) :: u64) \<noteq> 0" "ref_clk (ctl_refresh sleeping_ctl) = 0"
      by code_simp+
    then show "ref_ClockTick sleeping_config (ctl_refresh sleeping_ctl) ?s =
      Inr ((ctl_refresh sleeping_ctl)\<lparr>ref_clk := 1\<rparr>, ?s)" by (simp add: ref_ClockTick_def)
  qed (simp add: s uniform_channel_def mk_ChannelState_def)
  have b: "list_all (\<lambda>cmd. rank_is_sref ?s ! nat (Rank cmd) \<and>
      cq_clk ?cq < cmd_timing (at_bank (bank_states ?s) (Rank cmd, Bankgroup cmd, Bank cmd)) SREF_EXIT)
      (concat (queues ?cq))" by code_simp
  have h: "enable_self_refresh sleeping_config" "0 < ranks sleeping_config" "rank_is_sref ?s ! nat 0"
    "\<not> rank_q_empty ?cq ! nat 0" by code_simp+
  show "ctl_ClockTick sleeping_config sleeping_ctl = Inl (AbruptExit ''bankstate.cc'' 77)"
    by (rule self_refresh_wakeup_aborts [OF i g q st h(1) r _ order_refl h(2-4)])
      (use b in \<open>auto simp: bag_def list_all_iff\<close>)
qed (rule sref_run_aborts)

end
