(* ===== verification/Dram_System.thy ===== *)
theory Dram_System
  imports Controller
begin

text \<open>
  \<open>DRAMSIM3/src/dram_system.h\<close> and \<open>dram_system.cc\<close>: the memory behind the controllers. The
  JEDEC system has one controller per channel; the ideal system answers after a fixed
  latency. Callbacks do not touch the memory: an operation returns the calls it makes, in
  order, as pairs of address and direction.
\<close>

section \<open>JEDEC memory\<close>

record JedecDRAMSystem =
  js_clk :: u64
  last_req_clk :: u64
  ctrls :: "Controller list"

fun mapR :: "('a \<Rightarrow> 'b result) \<Rightarrow> 'a list \<Rightarrow> 'b list result" where
  "mapR f [] = Inr []"
| "mapR f (x # xs) = bindR (f x) (\<lambda>y. bindR (mapR f xs) (\<lambda>ys. Inr (y # ys)))"

definition GetChannel :: "Config \<Rightarrow> u64 \<Rightarrow> int result" where
  "GetChannel c hex = bindR (shr64 hex (shift_bits c)) (\<lambda>a. map_field a (ch_pos c) (ch_mask c))"

definition mk_JedecDRAMSystem :: "Config \<Rightarrow> JedecDRAMSystem result" where
  "mk_JedecDRAMSystem c =
     (if IsHMC c then Inl (AbruptExit ''dram_system.cc'' 103)
      else if channels c < 0 then Inl LengthError
      else bindR (mapR (mk_Controller c) [0 .. channels c - 1]) (\<lambda>cs.
        Inr \<lparr>js_clk = 0, last_req_clk = 0, ctrls = cs\<rparr>))"

definition js_WillAcceptTransaction :: "Config \<Rightarrow> JedecDRAMSystem \<Rightarrow> u64 \<Rightarrow> bool \<Rightarrow> bool result" where
  "js_WillAcceptTransaction c js hex w =
     bindR (GetChannel c hex) (\<lambda>ch.
     bindR (vec_at (ctrls js) ch) (\<lambda>ctl. Inr (WillAcceptTransaction ctl hex w)))"

text \<open>
  \<open>AddTransaction\<close> as in the default build of DRAMSim3, \<open>Release\<close>, which leaves \<open>assert(ok)\<close>
  out: a transaction the controller has no room for is refused.
\<close>

definition js_AddTransaction ::
  "Config \<Rightarrow> JedecDRAMSystem \<Rightarrow> u64 \<Rightarrow> bool \<Rightarrow> (bool \<times> JedecDRAMSystem) result" where
  "js_AddTransaction c js hex w =
     bindR (GetChannel c hex) (\<lambda>ch.
     bindR (vec_at (ctrls js) ch) (\<lambda>ctl.
       let ok = WillAcceptTransaction ctl hex w
       in bindR (if ok then vec_set (ctrls js) ch (snd (AddTransaction ctl (mk_Transaction hex w)))
                 else Inr (ctrls js)) (\<lambda>cs.
            Inr (ok, js\<lparr>ctrls := cs, last_req_clk := js_clk js\<rparr>))))"

lemma ReturnDoneTrans_shrinks:
  assumes "ReturnDoneTrans ctl clk = (p, d)" and "snd p \<noteq> -1"
  shows "length (return_queue d) < length (return_queue ctl)"
proof (cases "List.find (\<lambda>t. complete_cycle t \<le> clk) (return_queue ctl)")
  case None
  with assms show ?thesis unfolding ReturnDoneTrans_def by auto
next
  case (Some t)
  with assms(1) have "return_queue d = erase_first (\<lambda>t. complete_cycle t \<le> clk) (return_queue ctl)"
    unfolding ReturnDoneTrans_def by (auto simp: Let_def)
  then have "mset (return_queue ctl) = add_mset t (mset (return_queue d))"
    using mset_erase_find [OF Some] by simp
  then have "size (mset (return_queue ctl)) = Suc (size (mset (return_queue d)))" by simp
  then show ?thesis by simp
qed

text \<open>The loop that collects from one controller every transaction that is due.\<close>

function drain_loop :: "Controller \<Rightarrow> u64 \<Rightarrow> Controller \<times> answers" where
  "drain_loop ctl clk =
     (case ReturnDoneTrans ctl clk of (p, d) \<Rightarrow>
        if snd p = 1 then (case drain_loop d clk of (e, out) \<Rightarrow> (e, (fst p, True) # out))
        else if snd p = 0 then (case drain_loop d clk of (e, out) \<Rightarrow> (e, (fst p, False) # out))
        else (d, []))"
  by pat_completeness auto
termination
proof (relation "measure (\<lambda>(ctl, clk). length (return_queue ctl))", goal_cases)
  case (2 ctl clk p d)
  then show ?case using ReturnDoneTrans_shrinks [of ctl clk p d] by simp
next
  case (3 ctl clk p d)
  then show ?case using ReturnDoneTrans_shrinks [of ctl clk p d] by simp
qed simp

declare drain_loop.simps [simp del]

definition base_PrintEpochStats :: "Controller list \<Rightarrow> Controller list result" where
  "base_PrintEpochStats cs = mapR ctl_PrintEpochStats cs"

definition base_PrintStats :: "Controller list \<Rightarrow> Controller list result" where
  "base_PrintStats cs = mapR ctl_PrintFinalStats cs"

definition base_ResetStats :: "Controller list \<Rightarrow> Controller list" where
  "base_ResetStats cs = map ctl_ResetStats cs"

definition js_ClockTick :: "Config \<Rightarrow> JedecDRAMSystem \<Rightarrow> (JedecDRAMSystem \<times> answers) result" where
  "js_ClockTick c js =
     (let drained = map (\<lambda>ctl. drain_loop ctl (js_clk js)) (ctrls js)
      in bindR (mapR (ctl_ClockTick c) (map fst drained)) (\<lambda>cs.
           let clk = js_clk js + 1;
               period = (of_int (epoch_period c) :: u64)
           in if period = 0 then Inl DivByZero
              else bindR (if clk mod period = 0 then base_PrintEpochStats cs else Inr cs) (\<lambda>cs1.
                Inr (js\<lparr>js_clk := clk, ctrls := cs1\<rparr>, concat (map snd drained)))))"

section \<open>Ideal memory\<close>

record IdealDRAMSystem =
  ideal_clk :: u64
  latency :: int
  infinite_buffer_q :: "Transaction list"

definition mk_IdealDRAMSystem :: "Config \<Rightarrow> IdealDRAMSystem" where
  "mk_IdealDRAMSystem c = \<lparr>ideal_clk = 0, latency = ideal_memory_latency c, infinite_buffer_q = []\<rparr>"

definition ideal_AddTransaction :: "IdealDRAMSystem \<Rightarrow> u64 \<Rightarrow> bool \<Rightarrow> bool \<times> IdealDRAMSystem" where
  "ideal_AddTransaction im hex w =
     (True, im\<lparr>infinite_buffer_q := infinite_buffer_q im @
        [(mk_Transaction hex w)\<lparr>added_cycle := ideal_clk im\<rparr>]\<rparr>)"

text \<open>
  The loop over the buffer: \<open>erase\<close> returns the position after the erased element, and the
  loop then steps over the element there without looking at it.
\<close>

fun ideal_loop :: "u64 \<Rightarrow> u64 \<Rightarrow> Transaction list \<Rightarrow> Transaction list \<times> answers" where
  "ideal_loop clk lat [] = ([], [])"
| "ideal_loop clk lat (t # ts) =
     (if lat \<le> clk - added_cycle t then
        (case ts of
           [] \<Rightarrow> ([], [(trans_addr t, is_write t)])
         | u # us \<Rightarrow> (case ideal_loop clk lat us of (q, out) \<Rightarrow> (u # q, (trans_addr t, is_write t) # out)))
      else (case ideal_loop clk lat ts of (q, out) \<Rightarrow> (t # q, out)))"

definition ideal_ClockTick :: "IdealDRAMSystem \<Rightarrow> IdealDRAMSystem \<times> answers" where
  "ideal_ClockTick im =
     (case ideal_loop (ideal_clk im) (of_int (latency im)) (infinite_buffer_q im) of (q, out) \<Rightarrow>
        (im\<lparr>ideal_clk := ideal_clk im + 1, infinite_buffer_q := q\<rparr>, out))"

section \<open>Invariant\<close>

lemma mapR_total:
  assumes "\<forall>x \<in> set xs. \<exists>y. f x = Inr y \<and> R x y"
  shows "\<exists>ys. mapR f xs = Inr ys \<and> list_all2 R xs ys"
  using assms by (induction xs) fastforce+

lemma GetChannel_AddressMapping:
  assumes "AddressMapping c a = Inr ad"
  shows "GetChannel c a = Inr (channel ad)"
  using assms by (auto simp: AddressMapping_def GetChannel_def elim!: bindR_InrE)

text \<open>Every address belongs to a channel that has a controller.\<close>

definition channels_ok :: "Config \<Rightarrow> bool" where
  "channels_ok c \<longleftrightarrow> (\<forall>a. \<exists>ad. AddressMapping c a = Inr ad \<and> 0 \<le> channel ad \<and> channel ad < channels c)"

definition ctrls_inv :: "Config \<Rightarrow> Controller list \<Rightarrow> bool" where
  "ctrls_inv c cs \<longleftrightarrow> (\<forall>ctl \<in> set cs. ctl_inv c ctl) \<and> length cs = nat (channels c)"

definition all_owed :: "Controller list \<Rightarrow> (u64 \<times> bool) multiset" where
  "all_owed cs = (\<Sum>ctl\<leftarrow>cs. owed ctl)"

definition nothing_due :: "u64 \<Rightarrow> Controller \<Rightarrow> bool" where
  "nothing_due clk ctl \<longleftrightarrow> (\<forall>t \<in> set (return_queue ctl). clk < complete_cycle t)"

lemma drain_loop_spec:
  assumes "ctl_inv c ctl" and "drain_loop ctl clk = (d, out)"
  shows "ctl_inv c d \<and> owed ctl = owed d + mset out \<and> nothing_due clk d \<and> ctl_clk d = ctl_clk ctl"
  using assms
proof (induction ctl clk arbitrary: d out rule: drain_loop.induct)
  case (1 ctl clk)
  obtain r e where r: "ReturnDoneTrans ctl clk = (r, e)" "ctl_inv c e" "ctl_clk e = ctl_clk ctl"
      "if snd r = -1 then e = ctl \<and> nothing_due clk ctl
       else owed ctl = add_mset (fst r, snd r = 1) (owed e) \<and> snd r \<in> {0, 1}"
    using ReturnDoneTrans_spec [OF "1.prems"(1)] unfolding nothing_due_def by blast
  consider "snd r = -1" | "snd r = 1" | "snd r = 0" using r(4) by (cases "snd r = -1") auto
  then show ?case
  proof cases
    case 1
    with r "1.prems"(2) show ?thesis by (simp add: drain_loop.simps [of ctl clk])
  next
    case 2
    obtain d1 out1 where l: "drain_loop e clk = (d1, out1)" by (cases "drain_loop e clk")
    with "1.IH"(1) [OF r(1)[symmetric] 2 r(2)] 2 r "1.prems"(2) show ?thesis
      by (auto simp: drain_loop.simps [of ctl clk])
  next
    case 3
    obtain d1 out1 where l: "drain_loop e clk = (d1, out1)" by (cases "drain_loop e clk")
    with "1.IH"(2) [OF r(1)[symmetric] _ 3 r(2)] 3 r "1.prems"(2) show ?thesis
      by (auto simp: drain_loop.simps [of ctl clk])
  qed
qed

lemma drain_loop_filter:
  "\<exists>d. drain_loop ctl clk = (d, map trans_tag (filter (\<lambda>t. complete_cycle t \<le> clk) (return_queue ctl))) \<and>
     return_queue d = filter (\<lambda>t. \<not> complete_cycle t \<le> clk) (return_queue ctl)"
proof (induction ctl clk rule: drain_loop.induct)
  case (1 ctl clk)
  let ?P = "\<lambda>t. complete_cycle t \<le> clk"
  show ?case
  proof (cases "List.find ?P (return_queue ctl)")
    case None
    then have "ReturnDoneTrans ctl clk = ((-1, -1), ctl)" by (simp add: ReturnDoneTrans_def)
    moreover from None have "\<forall>t \<in> set (return_queue ctl). \<not> ?P t" unfolding find_None_iff by blast
    ultimately show ?thesis by (auto simp: drain_loop.simps [of ctl clk] filter_id_conv filter_empty_conv)
  next
    case (Some t)
    obtain d where d: "ReturnDoneTrans ctl clk = ((trans_addr t, if is_write t then 1 else 0), d)"
        "return_queue d = erase_first ?P (return_queue ctl)"
      unfolding ReturnDoneTrans_def Some by (simp add: Let_def)
    obtain ts where f: "filter ?P (return_queue ctl) = t # ts"
      using Some unfolding find_filter by (auto split: list.splits)
    have e: "filter ?P (return_queue d) = ts" "filter (\<lambda>t. \<not> ?P t) (return_queue d) = filter (\<lambda>t. \<not> ?P t) (return_queue ctl)"
      using f filter_erase_first [of ?P "return_queue ctl"] unfolding d(2) by simp_all
    have "\<exists>e. drain_loop d clk = (e, map trans_tag ts) \<and> return_queue e = filter (\<lambda>t. \<not> ?P t) (return_queue ctl)"
      using "1.IH" [OF d(1) [symmetric]] unfolding e by (cases "is_write t") simp_all
    with d(1) f show ?thesis by (cases "is_write t") (auto simp: drain_loop.simps [of ctl clk])
  qed
qed

lemma all_owed_Cons [simp]: "all_owed [] = {#}" "all_owed (ctl # cs) = owed ctl + all_owed cs"
  by (simp_all add: all_owed_def)

lemma all_owed_append [simp]: "all_owed (xs @ ys) = all_owed xs + all_owed ys"
  by (simp add: all_owed_def)

lemma all_owed_update:
  assumes "i < length cs" and "owed d + mset out = owed (cs ! i) + mset acc"
  shows "all_owed (cs[i := d]) + mset out = all_owed cs + mset acc"
proof -
  have "all_owed cs = all_owed (take i cs) + owed (cs ! i) + all_owed (drop (Suc i) cs)"
    using assms(1) by (metis all_owed_Cons(2) all_owed_append id_take_nth_drop add.assoc)
  moreover have "all_owed (cs[i := d]) = all_owed (take i cs) + owed d + all_owed (drop (Suc i) cs)"
    using assms(1) by (simp add: upd_conv_take_nth_drop add.assoc)
  ultimately show ?thesis using assms(2) by (simp add: ac_simps)
qed

lemma drain_all_spec:
  assumes "\<forall>ctl \<in> set cs. ctl_inv c ctl"
  shows "(\<forall>ctl \<in> set (map (\<lambda>ctl. fst (drain_loop ctl clk)) cs). ctl_inv c ctl \<and> nothing_due clk ctl) \<and>
    all_owed cs = all_owed (map (\<lambda>ctl. fst (drain_loop ctl clk)) cs) +
      mset (concat (map (\<lambda>ctl. snd (drain_loop ctl clk)) cs))"
  using assms
proof (induction cs)
  case (Cons ctl cs)
  have "ctl_inv c (fst (drain_loop ctl clk)) \<and>
      owed ctl = owed (fst (drain_loop ctl clk)) + mset (snd (drain_loop ctl clk)) \<and>
      nothing_due clk (fst (drain_loop ctl clk))"
    using drain_loop_spec [of c ctl clk] Cons.prems by (cases "drain_loop ctl clk") simp
  with Cons show ?case by (simp add: ac_simps)
qed simp

lemma ctl_PrintEpochStats_total:
  assumes "ctl_inv c ctl"
  shows "\<exists>d. ctl_PrintEpochStats ctl = Inr d \<and> ctl_inv c d \<and> owed d = owed ctl \<and> ctl_clk d = ctl_clk ctl \<and>
    return_queue d = return_queue ctl"
proof -
  have inv: "dev_inv c ctl" "pend_inv ctl" using assms unfolding ctl_inv_def by blast+
  then have "stats_inv c (ctl_stats ctl)" unfolding dev_inv_def by blast
  then obtain st where st: "UpdateEpochStats (Increment (ctl_stats ctl) ''epoch_num'') = Inr st" "stats_inv c st"
    using UpdateEpochStats_total [of c "Increment (ctl_stats ctl) ''epoch_num''"] by auto
  let ?d = "ctl\<lparr>ctl_stats := st\<rparr>"
  have "ctl_inv c ?d"
    unfolding ctl_inv_def using dev_inv_frame [OF inv(1), of ?d] pend_inv_frame [OF inv(2), of ?d] st(2)
    by (simp add: waiting_trans_def)
  with st(1) show ?thesis by (simp add: ctl_PrintEpochStats_def owed_def)
qed

lemma mk_ctrls:
  assumes "mapR (mk_Controller c) [0 .. channels c - 1] = Inr cs" and "0 \<le> channels c"
    and "geometry_ok c" and "mk_Refresh c = Inr rf"
    and "0 < refresh_interval rf" and "refresh_interval rf < 2 ^ 64" and "refresh_policy c \<noteq> SIZE_POLICY"
  shows "ctrls_inv c cs" and "all_owed cs = {#}"
proof -
  have m: "mapR (mk_Controller c) xs = Inr ys \<Longrightarrow>
      (\<forall>ctl \<in> set ys. ctl_inv c ctl) \<and> all_owed ys = {#} \<and> length ys = length xs" for xs ys
  proof (induction xs arbitrary: ys)
    case (Cons x xs)
    then obtain ctl zs where z: "mk_Controller c x = Inr ctl" "mapR (mk_Controller c) xs = Inr zs" "ys = ctl # zs"
      by (auto elim!: bindR_InrE)
    with Cons.IH [OF z(2)] ctl_inv_mk_Controller(1,2) [OF z(1) assms(3-7)] show ?case by simp
  qed simp
  show "ctrls_inv c cs" "all_owed cs = {#}" using m [OF assms(1)] assms(2) by (auto simp: ctrls_inv_def)
qed

lemma mk_JedecDRAMSystem_inv:
  assumes "mk_JedecDRAMSystem c = Inr js" and "geometry_ok c" and "mk_Refresh c = Inr rf"
    and "0 < refresh_interval rf" and "refresh_interval rf < 2 ^ 64" and "refresh_policy c \<noteq> SIZE_POLICY"
  shows "ctrls_inv c (ctrls js)" and "all_owed (ctrls js) = {#}" and "js_clk js = 0"
proof -
  obtain cs where cs: "mapR (mk_Controller c) [0 .. channels c - 1] = Inr cs" "ctrls js = cs" "js_clk js = 0" "0 \<le> channels c"
    using assms(1) by (auto simp: mk_JedecDRAMSystem_def elim!: bindR_InrE split: if_splits)
  show "ctrls_inv c (ctrls js)" "all_owed (ctrls js) = {#}" "js_clk js = 0"
    using mk_ctrls [OF cs(1,4) assms(2-6)] cs(2,3) by simp_all
qed

lemma channel_of:
  assumes "channels_ok c"
  obtains ch where "GetChannel c a = Inr ch" "0 \<le> ch" "ch < channels c"
  using assms GetChannel_AddressMapping unfolding channels_ok_def by metis

lemma js_WillAcceptTransaction_eq:
  assumes "length (ctrls js) = nat (channels c)" and "GetChannel c a = Inr ch" and "0 \<le> ch" and "ch < channels c"
  shows "js_WillAcceptTransaction c js a w = Inr (WillAcceptTransaction (ctrls js ! nat ch) a w)"
proof -
  have "vec_at (ctrls js) ch = Inr (ctrls js ! nat ch)" using assms by (simp add: vec_at_Inr)
  then show ?thesis by (simp add: js_WillAcceptTransaction_def assms(2))
qed

lemma js_AddTransaction_eq:
  assumes "length (ctrls js) = nat (channels c)" and "GetChannel c a = Inr ch" and "0 \<le> ch" and "ch < channels c"
  shows "js_AddTransaction c js a w =
    (if WillAcceptTransaction (ctrls js ! nat ch) a w
     then Inr (True, js\<lparr>ctrls := (ctrls js)[nat ch := snd (AddTransaction (ctrls js ! nat ch) (mk_Transaction a w))],
                        last_req_clk := js_clk js\<rparr>)
     else Inr (False, js\<lparr>last_req_clk := js_clk js\<rparr>))"
proof -
  have v: "vec_at (ctrls js) ch = Inr (ctrls js ! nat ch)" "\<And>x. vec_set (ctrls js) ch x = Inr ((ctrls js)[nat ch := x])"
    using assms by (simp_all add: vec_at_Inr vec_set_Inr)
  show ?thesis by (simp add: js_AddTransaction_def assms(2) v Let_def)
qed

lemma ctrls_add:
  fixes a :: u64 and w :: bool
  assumes "ctrls_inv c cs" and "0 \<le> ch" and "ch < channels c"
  defines "cs' \<equiv> cs[nat ch := snd (AddTransaction (cs ! nat ch) (mk_Transaction a w))]"
  shows "ctrls_inv c cs'" and "all_owed cs' = add_mset (a, w) (all_owed cs)"
proof -
  have i: "nat ch < length cs" using assms(1-3) unfolding ctrls_inv_def by simp
  then have "ctl_inv c (cs ! nat ch)" using assms(1) unfolding ctrls_inv_def by simp
  then obtain d where d: "AddTransaction (cs ! nat ch) (mk_Transaction a w) = (True, d)" "ctl_inv c d"
      "owed d = add_mset (a, w) (owed (cs ! nat ch))"
    using AddTransaction_spec [of c "cs ! nat ch" "mk_Transaction a w"] by auto
  show "ctrls_inv c cs'"
    using assms(1) d unfolding cs'_def ctrls_inv_def by (auto dest: set_update_subset_insert [THEN subsetD])
  show "all_owed cs' = add_mset (a, w) (all_owed cs)"
    using all_owed_update [OF i, of d "[]" "[(a, w)]"] d by (simp add: cs'_def)
qed

text \<open>An operation applied to every controller in turn.\<close>

lemma mapR_ctrls:
  assumes "ctrls_inv c cs"
    and f: "\<And>ctl. ctl_inv c ctl \<Longrightarrow> \<exists>d. f ctl = Inr d \<and> ctl_inv c d \<and> owed d = owed ctl"
  shows "\<exists>ds. mapR f cs = Inr ds \<and> ctrls_inv c ds \<and> all_owed ds = all_owed cs"
proof -
  have "\<exists>ds. mapR f xs = Inr ds \<and> (\<forall>ctl \<in> set ds. ctl_inv c ctl) \<and>
      all_owed ds = all_owed xs \<and> length ds = length xs" if "\<forall>ctl \<in> set xs. ctl_inv c ctl" for xs
    using that
  proof (induction xs)
    case (Cons x xs)
    obtain d where "f x = Inr d" "ctl_inv c d" "owed d = owed x" using f [of x] Cons.prems by auto
    moreover obtain ds where "mapR f xs = Inr ds" "\<forall>ctl \<in> set ds. ctl_inv c ctl"
        "all_owed ds = all_owed xs" "length ds = length xs" using Cons by auto
    ultimately show ?case by (intro exI [of _ "d # ds"]) simp
  qed simp
  then show ?thesis using assms(1) unfolding ctrls_inv_def by fastforce
qed

lemma ctrls_tick:
  assumes "ctrls_inv c cs" and "ctl_config c"
  shows "\<exists>ds. mapR (ctl_ClockTick c) cs = Inr ds \<and> ctrls_inv c ds \<and> all_owed ds = all_owed cs"
  using mapR_ctrls [OF assms(1), of "ctl_ClockTick c"] ctl_ClockTick_spec assms(2) unfolding ctl_config_def by blast

lemma ctrls_epoch:
  assumes "ctrls_inv c cs"
  shows "\<exists>ds. base_PrintEpochStats cs = Inr ds \<and> ctrls_inv c ds \<and> all_owed ds = all_owed cs"
  unfolding base_PrintEpochStats_def
  using mapR_ctrls [OF assms, of ctl_PrintEpochStats] ctl_PrintEpochStats_total by blast

lemma ctrls_drain:
  assumes "ctrls_inv c cs"
  shows "ctrls_inv c (map (\<lambda>ctl. fst (drain_loop ctl clk)) cs)"
    and "all_owed cs = all_owed (map (\<lambda>ctl. fst (drain_loop ctl clk)) cs) +
      mset (concat (map (\<lambda>ctl. snd (drain_loop ctl clk)) cs))"
  using drain_all_spec [of cs c clk] assms unfolding ctrls_inv_def by simp_all

definition epoch_ok :: "Config \<Rightarrow> bool" where
  "epoch_ok c \<longleftrightarrow> (of_int (epoch_period c) :: u64) \<noteq> 0"

lemma js_ClockTick_spec:
  assumes "ctrls_inv c (ctrls js)" and "ctl_config c" and "epoch_ok c"
  shows "\<exists>js' out. js_ClockTick c js = Inr (js', out) \<and> ctrls_inv c (ctrls js') \<and>
    all_owed (ctrls js) = all_owed (ctrls js') + mset out \<and> js_clk js' = js_clk js + 1 \<and>
    out = concat (map (\<lambda>ctl. snd (drain_loop ctl (js_clk js))) (ctrls js))"
proof -
  let ?cs = "map (\<lambda>ctl. fst (drain_loop ctl (js_clk js))) (ctrls js)"
  note dr = ctrls_drain [OF assms(1), of "js_clk js"]
  obtain ds where ds: "mapR (ctl_ClockTick c) ?cs = Inr ds" "ctrls_inv c ds" "all_owed ds = all_owed ?cs"
    using ctrls_tick [OF dr(1) assms(2)] by blast
  obtain es where es: "base_PrintEpochStats ds = Inr es" "ctrls_inv c es" "all_owed es = all_owed ds"
    using ctrls_epoch [OF ds(2)] by blast
  have m: "map fst (map (\<lambda>ctl. drain_loop ctl (js_clk js)) (ctrls js)) = ?cs"
    "map snd (map (\<lambda>ctl. drain_loop ctl (js_clk js)) (ctrls js)) = map (\<lambda>ctl. snd (drain_loop ctl (js_clk js))) (ctrls js)"
    by simp_all
  show ?thesis
    using ds es dr(2) assms(3) unfolding js_ClockTick_def epoch_ok_def Let_def m by auto
qed

section \<open>Contract of the JEDEC memory\<close>

datatype mem_op = Submit u64 bool | MemTick

text \<open>The processor asks before it submits, as the callers of the memory do.\<close>

fun js_step :: "Config \<Rightarrow> mem_op \<Rightarrow> JedecDRAMSystem \<Rightarrow> (JedecDRAMSystem \<times> answers \<times> answers) result" where
  "js_step c (Submit a w) js =
     bindR (js_WillAcceptTransaction c js a w) (\<lambda>ok.
       if ok then bindR (js_AddTransaction c js a w) (\<lambda>(_, js'). Inr (js', [(a, w)], []))
       else Inr (js, [], []))"
| "js_step c MemTick js = bindR (js_ClockTick c js) (\<lambda>(js', out). Inr (js', [], out))"

definition mem_config :: "Config \<Rightarrow> bool" where
  "mem_config c \<longleftrightarrow> ctl_config c \<and> channels_ok c \<and> epoch_ok c"

interpretation js_port: transaction_port
  "\<lambda>js. mem_config c \<and> ctrls_inv c (ctrls js)" "\<lambda>js. all_owed (ctrls js)" "js_step c" for c
proof
  fix js :: JedecDRAMSystem and x assume "mem_config c \<and> ctrls_inv c (ctrls js)"
  then have cfg: "ctl_config c" "channels_ok c" "epoch_ok c" "mem_config c" and inv: "ctrls_inv c (ctrls js)"
    unfolding mem_config_def by blast+
  show "\<exists>js' acc out. js_step c x js = Inr (js', acc, out) \<and> (mem_config c \<and> ctrls_inv c (ctrls js')) \<and>
      all_owed (ctrls js) + mset acc = all_owed (ctrls js') + mset out"
  proof (cases x)
    case (Submit a w)
    obtain ch where ch: "GetChannel c a = Inr ch" "0 \<le> ch" "ch < channels c" using channel_of [OF cfg(2)] .
    have len: "length (ctrls js) = nat (channels c)" using inv unfolding ctrls_inv_def by blast
    show ?thesis
      using ctrls_add [OF inv ch(2,3), of a w] inv cfg(4)
      by (simp add: Submit js_WillAcceptTransaction_eq [OF len ch] js_AddTransaction_eq [OF len ch])
  next
    case MemTick
    then show ?thesis using js_ClockTick_spec [OF inv cfg(1,3)] cfg(4) by auto
  qed
qed

section \<open>Routing\<close>

text \<open>The transactions of a channel: those whose address decodes to it.\<close>

definition belongs :: "Config \<Rightarrow> nat \<Rightarrow> u64 \<times> bool \<Rightarrow> bool" where
  "belongs c i p = (case AddressMapping c (fst p) of Inl e \<Rightarrow> False | Inr ad \<Rightarrow> channel ad = int i)"

definition routed_ctrls :: "Config \<Rightarrow> Controller list \<Rightarrow> bool" where
  "routed_ctrls c cs \<longleftrightarrow> (\<forall>i < length cs. \<forall>p \<in># owed (cs ! i). belongs c i p)"

lemma belongs_unique: "belongs c i p \<Longrightarrow> belongs c j p \<Longrightarrow> i = j"
  by (auto simp: belongs_def split: sum.splits)

lemma filter_belongs_none:
  assumes "\<forall>p \<in># M. belongs c j p" and "i \<noteq> j"
  shows "filter_mset (belongs c i) M = {#}"
  using assms by (induction M) (auto dest: belongs_unique)

lemma filter_mset_all: "\<forall>p \<in># M. Q p \<Longrightarrow> filter_mset Q M = M"
  by (induction M) auto

lemma all_owed_empty: "all_owed cs = {#} \<Longrightarrow> ctl \<in> set cs \<Longrightarrow> owed ctl = {#}"
  by (induction cs) auto

lemma filter_all_owed:
  assumes "\<forall>i < length cs. \<forall>p \<in># owed (cs ! i). belongs c (k + i) p"
  shows "filter_mset (belongs c j) (all_owed cs) = (if k \<le> j \<and> j < k + length cs then owed (cs ! (j - k)) else {#})"
  using assms
proof (induction cs arbitrary: k)
  case (Cons ctl cs)
  have ctl: "\<forall>p \<in># owed ctl. belongs c k p" using Cons.prems by (metis add_0_right length_Cons nth_Cons_0 zero_less_Suc)
  have "\<forall>i < length cs. \<forall>p \<in># owed (cs ! i). belongs c (Suc k + i) p"
  proof (intro allI impI)
    fix i assume "i < length cs"
    then show "\<forall>p \<in># owed (cs ! i). belongs c (Suc k + i) p" using Cons.prems [rule_format, of "Suc i"] by simp
  qed
  note ih = Cons.IH [OF this]
  show ?case
  proof (cases "j = k")
    case True
    have "filter_mset (belongs c j) (owed ctl) = owed ctl" using filter_mset_all [OF ctl] True by simp
    with ih True show ?thesis by simp
  next
    case False
    then have "filter_mset (belongs c j) (owed ctl) = {#}" using filter_belongs_none [OF ctl] by simp
    with ih False show ?thesis by (auto simp: nth_Cons' Suc_diff_le)
  qed
qed auto

lemma mapR_nth: "mapR f xs = Inr ys \<Longrightarrow> length ys = length xs \<and> (\<forall>i < length xs. f (xs ! i) = Inr (ys ! i))"
proof (induction xs arbitrary: ys)
  case (Cons x xs)
  then obtain y zs where "f x = Inr y" "mapR f xs = Inr zs" "ys = y # zs" by (auto elim!: bindR_InrE)
  with Cons.IH show ?case by (auto simp: nth_Cons split: nat.splits)
qed simp

lemma mapR_owed:
  assumes "mapR f cs = Inr ds" and "ctrls_inv c cs"
    and f: "\<And>ctl. ctl_inv c ctl \<Longrightarrow> \<exists>d. f ctl = Inr d \<and> owed d = owed ctl"
  shows "map owed ds = map owed cs"
proof (rule nth_equalityI)
  show l: "length (map owed ds) = length (map owed cs)" using mapR_nth [OF assms(1)] by simp
  fix i assume "i < length (map owed ds)"
  then have i: "i < length cs" using l by simp
  then have "f (cs ! i) = Inr (ds ! i)" "ctl_inv c (cs ! i)" using mapR_nth [OF assms(1)] assms(2) by (auto simp: ctrls_inv_def)
  then show "map owed ds ! i = map owed cs ! i" using f [of "cs ! i"] i l by auto
qed

lemma js_ClockTick_owed:
  assumes "js_ClockTick c js = Inr (js', out)" and "ctrls_inv c (ctrls js)" and "ctl_config c"
  shows "map owed (ctrls js') = map (\<lambda>ctl. owed (fst (drain_loop ctl (js_clk js)))) (ctrls js)"
proof -
  let ?cs = "map fst (map (\<lambda>ctl. drain_loop ctl (js_clk js)) (ctrls js))"
  obtain ds es where ds: "mapR (ctl_ClockTick c) ?cs = Inr ds"
      and es: "(if (js_clk js + 1) mod of_int (epoch_period c) = 0 then base_PrintEpochStats ds else Inr ds) = Inr es"
      and e: "ctrls js' = es"
    using assms(1) by (auto simp: js_ClockTick_def Let_def elim!: bindR_InrE split: if_splits)
  have cs: "ctrls_inv c ?cs" using ctrls_drain(1) [OF assms(2)] by (simp add: comp_def)
  have d: "map owed ds = map owed ?cs"
    using mapR_owed [OF ds cs] ctl_ClockTick_spec assms(3) unfolding ctl_config_def by blast
  have "ctrls_inv c ds" using ctrls_tick [OF cs assms(3)] ds by auto
  then have "map owed es = map owed ds"
    using es mapR_owed [of ctl_PrintEpochStats ds es c] ctl_PrintEpochStats_total
    unfolding base_PrintEpochStats_def by (auto split: if_splits)
  with d e show ?thesis by (simp add: comp_def)
qed

lemma js_step_routed:
  assumes "js_step c x js = Inr (js', acc, out)" and "mem_config c" and "ctrls_inv c (ctrls js)" and "routed_ctrls c (ctrls js)"
  shows "routed_ctrls c (ctrls js')"
proof (cases x)
  case (Submit a w)
  have cfg: "channels_ok c" using assms(2) by (simp add: mem_config_def)
  have len: "length (ctrls js) = nat (channels c)" using assms(3) by (simp add: ctrls_inv_def)
  obtain ad where ad: "AddressMapping c a = Inr ad" "0 \<le> channel ad" "channel ad < channels c"
    using cfg unfolding channels_ok_def by blast
  note ch = GetChannel_AddressMapping [OF ad(1)] ad(2,3)
  let ?i = "nat (channel ad)"
  show ?thesis
  proof (cases "WillAcceptTransaction (ctrls js ! ?i) a w")
    case True
    have i: "?i < length (ctrls js)" using ad len by simp
    then have "ctl_inv c (ctrls js ! ?i)" using assms(3) by (simp add: ctrls_inv_def)
    then obtain d where d: "AddTransaction (ctrls js ! ?i) (mk_Transaction a w) = (True, d)"
        "owed d = add_mset (a, w) (owed (ctrls js ! ?i))"
      using AddTransaction_spec [of c "ctrls js ! ?i" "mk_Transaction a w"] by auto
    have "ctrls js' = (ctrls js)[?i := d]"
      using assms(1) True d(1) by (auto simp: Submit js_WillAcceptTransaction_eq [OF len ch] js_AddTransaction_eq [OF len ch])
    moreover have "belongs c ?i (a, w)" using ad by (simp add: belongs_def)
    ultimately show ?thesis using assms(4) d(2) i by (auto simp: routed_ctrls_def nth_list_update)
  next
    case False
    then show ?thesis using assms(1,4) by (auto simp: Submit js_WillAcceptTransaction_eq [OF len ch])
  qed
next
  case MemTick
  then have t: "js_ClockTick c js = Inr (js', out)" using assms(1) by (auto elim!: bindR_InrE)
  have o: "map owed (ctrls js') = map (\<lambda>ctl. owed (fst (drain_loop ctl (js_clk js)))) (ctrls js)"
    using js_ClockTick_owed [OF t assms(3)] assms(2) by (simp add: mem_config_def)
  then have l: "length (ctrls js') = length (ctrls js)" by (metis length_map)
  have "owed (ctrls js' ! i) \<subseteq># owed (ctrls js ! i)" if i: "i < length (ctrls js)" for i
  proof -
    have "ctl_inv c (ctrls js ! i)" using assms(3) i by (simp add: ctrls_inv_def)
    then have "owed (fst (drain_loop (ctrls js ! i) (js_clk js))) \<subseteq># owed (ctrls js ! i)"
      using drain_loop_spec [of c "ctrls js ! i" "js_clk js"] by (cases "drain_loop (ctrls js ! i) (js_clk js)") auto
    moreover have "owed (ctrls js' ! i) = owed (fst (drain_loop (ctrls js ! i) (js_clk js)))"
      using arg_cong [OF o, of "\<lambda>xs. xs ! i"] i l by simp
    ultimately show ?thesis by simp
  qed
  then show ?thesis using assms(4) l unfolding routed_ctrls_def by (metis mset_subset_eqD)
qed

lemma js_run_routed:
  assumes "port_run (js_step c) xs js = Inr (js', acc, out)" and "mem_config c" and "ctrls_inv c (ctrls js)"
    and "routed_ctrls c (ctrls js)"
  shows "routed_ctrls c (ctrls js')"
proof -
  let ?P = "\<lambda>js. mem_config c \<and> ctrls_inv c (ctrls js) \<and> routed_ctrls c (ctrls js)"
  have "?P js'"
  proof (rule port_run_invariant [OF assms(1), of ?P])
    show "?P js" using assms(2-4) by blast
    fix x s s' acc out assume s: "?P s" "js_step c x s = Inr (s', acc, out)"
    then have "mem_config c \<and> ctrls_inv c (ctrls s')" using js_port.step_law [of c s x] by auto
    with s js_step_routed [OF s(2)] show "?P s'" by blast
  qed
  then show ?thesis by blast
qed

section \<open>Contract of the ideal memory\<close>

definition ideal_owed :: "IdealDRAMSystem \<Rightarrow> (u64 \<times> bool) multiset" where
  "ideal_owed im = image_mset trans_tag (mset (infinite_buffer_q im))"

fun ideal_step :: "mem_op \<Rightarrow> IdealDRAMSystem \<Rightarrow> (IdealDRAMSystem \<times> answers \<times> answers) result" where
  "ideal_step (Submit a w) im = Inr (snd (ideal_AddTransaction im a w), [(a, w)], [])"
| "ideal_step MemTick im = (case ideal_ClockTick im of (im', out) \<Rightarrow> Inr (im', [], out))"

fun mem_submits :: "mem_op \<Rightarrow> answers" where
  "mem_submits (Submit a w) = [(a, w)]"
| "mem_submits MemTick = []"

lemma ideal_loop_conserves:
  "ideal_loop clk lat ts = (q, out) \<Longrightarrow>
     image_mset trans_tag (mset ts) = image_mset trans_tag (mset q) + mset out"
  by (induction clk lat ts arbitrary: q out rule: ideal_loop.induct)
    (auto split: if_splits list.splits prod.splits)

interpretation ideal_port: open_port "\<lambda>im. True" ideal_owed ideal_step mem_submits
proof
  fix im :: IdealDRAMSystem and x
  show "\<exists>im' acc out. ideal_step x im = Inr (im', acc, out) \<and> True \<and>
      ideal_owed im + mset acc = ideal_owed im' + mset out"
    by (cases x) (auto simp: ideal_AddTransaction_def ideal_ClockTick_def ideal_owed_def ideal_loop_conserves
      split: prod.splits)
next
  fix x im s' acc out assume "ideal_step x im = Inr (s', acc, out)"
  then show "acc = mem_submits x" by (cases x) (auto split: prod.splits)
qed

section \<open>A sample memory\<close>

definition sample_jedec :: JedecDRAMSystem where
  "sample_jedec = \<lparr>js_clk = 0, last_req_clk = 0, ctrls = [sample_ctl]\<rparr>"

lemma sample_jedec_mk: "mk_JedecDRAMSystem ddr4_config = Inr sample_jedec"
proof -
  have "\<not> IsHMC ddr4_config" "channels ddr4_config = 1" by (simp_all add: ddr4_config_def IsHMC_def)
  then show ?thesis
    by (simp add: mk_JedecDRAMSystem_def sample_jedec_def sample_ctl_mk)
qed

lemma ddr4_mem_config: "mem_config ddr4_config"
  unfolding mem_config_def channels_ok_def
proof (intro conjI allI)
  show "ctl_config ddr4_config" by (rule ddr4_ctl_config)
  show "epoch_ok ddr4_config" by (simp add: epoch_ok_def ddr4_config_def)
  fix a
  have h: "1 \<le> channels ddr4_config"
    "1 \<le> ranks ddr4_config" "1 \<le> bankgroups ddr4_config" "1 \<le> banks_per_group ddr4_config"
    "1 \<le> rows ddr4_config"
    by code_simp+
  obtain ad where ad: "AddressMapping ddr4_config a = Inr ad"
    using ddr4_decodes unfolding decodes_def by blast
  with AddressMapping_range(1) [OF ddr4_config_mapping ad h]
  show "\<exists>ad. AddressMapping ddr4_config a = Inr ad \<and> 0 \<le> channel ad \<and> channel ad < channels ddr4_config"
    by blast
qed

section \<open>Properties\<close>

text \<open>
  C6: No transaction the memory accepts is lost, answered twice or made up, whichever of its
  channels serves it. A fresh JEDEC memory performs any sequence of submissions, each made only
  when \<open>WillAcceptTransaction\<close> says so, and clock ticks without an exit or an index outside a
  vector; the transactions accepted are those answered plus those the controllers still owe.
  Self refresh and dual commands are off.
\<close>

theorem jedec_answers_once:
  assumes "mk_JedecDRAMSystem c = Inr js" and "mem_config c" and "mk_Refresh c = Inr rf"
    and "0 < refresh_interval rf" and "refresh_interval rf < 2 ^ 64" and "refresh_policy c \<noteq> SIZE_POLICY"
  shows "\<exists>js' acc out. port_run (js_step c) xs js = Inr (js', acc, out) \<and>
    ctrls_inv c (ctrls js') \<and> mset acc = all_owed (ctrls js') + mset out"
proof -
  have "geometry_ok c" using assms(2) unfolding mem_config_def ctl_config_def by blast
  note st = mk_JedecDRAMSystem_inv [OF assms(1) this assms(3-6)]
  with assms(2) js_port.run_answers [of c js xs] show ?thesis by auto
qed

theorem jedec_answers_once_witness:
  "\<exists>js' acc out. port_run (js_step ddr4_config) [Submit 64 True, MemTick, Submit 128 False, MemTick] sample_jedec =
     Inr (js', acc, out) \<and> mset acc = all_owed (ctrls js') + mset out"
  using jedec_answers_once [OF sample_jedec_mk ddr4_mem_config sample_refresh_mk] by blast

text \<open>
  C35: Every controller holds the transactions of its channel and no others. In any run of a
  fresh JEDEC memory, for each channel, the transactions accepted whose address decodes to the
  channel are those its controller still owes plus those answered; a transaction is never held
  or answered by the controller of another channel.
\<close>

theorem jedec_routes_to_channel:
  assumes "mk_JedecDRAMSystem c = Inr js" and "mem_config c" and "mk_Refresh c = Inr rf"
    and "0 < refresh_interval rf" and "refresh_interval rf < 2 ^ 64" and "refresh_policy c \<noteq> SIZE_POLICY"
  shows "\<exists>js' acc out. port_run (js_step c) xs js = Inr (js', acc, out) \<and> length (ctrls js') = nat (channels c) \<and>
    (\<forall>i < nat (channels c). filter_mset (belongs c i) (mset acc) =
       owed (ctrls js' ! i) + filter_mset (belongs c i) (mset out))"
proof -
  have "geometry_ok c" using assms(2) unfolding mem_config_def ctl_config_def by blast
  note st = mk_JedecDRAMSystem_inv [OF assms(1) this assms(3-6)]
  obtain js' acc out where r: "port_run (js_step c) xs js = Inr (js', acc, out)" "ctrls_inv c (ctrls js')"
      "mset acc = all_owed (ctrls js') + mset out"
    using js_port.run_answers [of c js xs] assms(2) st by auto
  have "owed (ctrls js ! i) = {#}" if "i < length (ctrls js)" for i
    using all_owed_empty [OF st(2)] that by simp
  then have "routed_ctrls c (ctrls js)" by (simp add: routed_ctrls_def)
  then have "routed_ctrls c (ctrls js')" using js_run_routed [OF r(1) assms(2) st(1)] by blast
  then have "filter_mset (belongs c i) (all_owed (ctrls js')) = owed (ctrls js' ! i)" if "i < nat (channels c)" for i
    using filter_all_owed [of "ctrls js'" c 0 i] that r(2) by (simp add: routed_ctrls_def ctrls_inv_def)
  then have "filter_mset (belongs c i) (mset acc) = owed (ctrls js' ! i) + filter_mset (belongs c i) (mset out)"
    if "i < nat (channels c)" for i using that unfolding r(3) by simp
  with r(1,2) show ?thesis by (auto simp: ctrls_inv_def)
qed

definition two_channels :: Config where
  "two_channels = ddr4_config\<lparr>channels := 2, ra_pos := 12, bg_pos := 1, ba_pos := 3, ro_pos := 13, co_pos := 5, ch_mask := 1\<rparr>"

lemma two_channels_mapping: "SetAddressMapping (ddr4_config\<lparr>channels := 2\<rparr>) = Inr two_channels"
  by code_simp

lemma two_channels_config: "mem_config two_channels"
proof -
  let ?c = "ddr4_config\<lparr>channels := 2\<rparr>"
  have h: "shift_bits two_channels < 64" "total_width ?c < 64" "1 \<le> channels ?c" "1 \<le> ranks ?c"
    "1 \<le> bankgroups ?c" "1 \<le> banks_per_group ?c" "1 \<le> rows ?c" by code_simp+
  have "\<exists>ad. AddressMapping two_channels a = Inr ad \<and> 0 \<le> channel ad \<and> channel ad < channels two_channels \<and>
      bank_index two_channels (rank ad) (bankgroup ad) (bank ad)" for a
  proof -
    obtain ad where ad: "AddressMapping two_channels a = Inr ad"
      using AddressMapping_total [OF two_channels_mapping SetAddressMapping_shift [OF two_channels_mapping] h(1,2)] by blast
    with AddressMapping_range [OF two_channels_mapping ad h(3-7)] show ?thesis
      by (auto simp: bank_index_def two_channels_def)
  qed
  moreover have "geometry_ok two_channels" using ddr4_geometry by (simp add: geometry_ok_def two_channels_def)
  moreover have "epoch_ok two_channels" "\<not> enable_self_refresh two_channels" "\<not> enable_hbm_dual_cmd two_channels"
    by (simp_all add: epoch_ok_def two_channels_def ddr4_config_def)
  ultimately show ?thesis
    unfolding mem_config_def ctl_config_def channels_ok_def decodes_def by blast
qed

definition two_controllers :: JedecDRAMSystem where
  "two_controllers = projr (mk_JedecDRAMSystem two_channels)"

lemma two_controllers_mk:
  "mk_JedecDRAMSystem two_channels = Inr two_controllers"
  "mk_Refresh two_channels = Inr sample_refresh" "refresh_policy two_channels \<noteq> SIZE_POLICY"
proof -
  have rf: "mk_Refresh two_channels = Inr sample_refresh" by code_simp
  have "mk_CommandQueue two_channels = mk_CommandQueue ddr4_config" by (simp add: mk_CommandQueue_def two_channels_def)
  with sample_queue0_mk have q: "\<exists>cq. mk_CommandQueue two_channels = Inr cq" by simp
  have "\<exists>ctl. mk_Controller two_channels ch = Inr ctl" for ch
    using q rf by (auto simp: mk_Controller_def Let_def two_channels_def ddr4_config_def)
  then have "\<exists>cs. mapR (mk_Controller two_channels) xs = Inr cs" for xs
    using mapR_total [of xs "mk_Controller two_channels" "\<lambda>_ _. True"] by blast
  then obtain cs where "mapR (mk_Controller two_channels) [0 .. channels two_channels - 1] = Inr cs" by blast
  moreover have "\<not> IsHMC two_channels" "\<not> channels two_channels < 0" by code_simp+
  ultimately have "\<exists>js. mk_JedecDRAMSystem two_channels = Inr js" by (simp add: mk_JedecDRAMSystem_def)
  then show "mk_JedecDRAMSystem two_channels = Inr two_controllers" by (auto simp: two_controllers_def)
  show "mk_Refresh two_channels = Inr sample_refresh" by (rule rf)
  show "refresh_policy two_channels \<noteq> SIZE_POLICY" by (simp add: two_channels_def ddr4_config_def)
qed

theorem jedec_routes_to_channel_witness:
  "belongs two_channels 0 (0, True) \<and> belongs two_channels 1 (64, False) \<and>
   (\<exists>js' acc out. port_run (js_step two_channels) [Submit 0 True, Submit 64 False, MemTick] two_controllers =
        Inr (js', acc, out) \<and>
      filter_mset (belongs two_channels 0) (mset acc) =
        owed (ctrls js' ! 0) + filter_mset (belongs two_channels 0) (mset out) \<and>
      filter_mset (belongs two_channels 1) (mset acc) =
        owed (ctrls js' ! 1) + filter_mset (belongs two_channels 1) (mset out))"
proof (intro conjI)
  show "belongs two_channels 0 (0, True)" "belongs two_channels 1 (64, False)" by code_simp+
  have "nat (channels two_channels) = 2" by (simp add: two_channels_def)
  with jedec_routes_to_channel [OF two_controllers_mk(1) two_channels_config two_controllers_mk(2)
      sample_refresh_mk(2,3) two_controllers_mk(3), of "[Submit 0 True, Submit 64 False, MemTick]"]
  show "\<exists>js' acc out. port_run (js_step two_channels) [Submit 0 True, Submit 64 False, MemTick] two_controllers =
        Inr (js', acc, out) \<and>
      filter_mset (belongs two_channels 0) (mset acc) =
        owed (ctrls js' ! 0) + filter_mset (belongs two_channels 0) (mset out) \<and>
      filter_mset (belongs two_channels 1) (mset acc) =
        owed (ctrls js' ! 1) + filter_mset (belongs two_channels 1) (mset out)"
    by (auto simp del: port_run.simps)
qed

text \<open>
  C23: A read of an address whose write is still pending is answered from the write. It starts no
  DRAM access: the reads and writes under way stay as they are. It is not among the answers
  collected in the cycle it arrives; after the controller's next clock tick the collection
  answers it, as a read, right after everything that was due already.
\<close>

theorem controller_forwards_writes:
  assumes "ctl_config c" and "ctl_inv c ctl" and "a \<in> fst ` set (pending_wr_q ctl)"
    and "uint (ctl_clk ctl) + 1 < 2 ^ 64"
  shows "\<exists>d e new. AddTransaction ctl (mk_Transaction a False) = (True, d) \<and>
    rd_work d = rd_work ctl \<and> wr_work d = wr_work ctl \<and> pending_rd_q d = pending_rd_q ctl \<and>
    snd (drain_loop d (ctl_clk ctl)) = snd (drain_loop ctl (ctl_clk ctl)) \<and>
    ctl_ClockTick c (fst (drain_loop d (ctl_clk ctl))) = Inr e \<and>
    snd (drain_loop e (ctl_clk ctl + 1)) =
      snd (drain_loop (fst (drain_loop ctl (ctl_clk ctl))) (ctl_clk ctl + 1)) @ (a, False) # new"
proof -
  let ?k = "ctl_clk ctl"
  obtain d where d: "AddTransaction ctl (mk_Transaction a False) = (True, d)" "ctl_inv c d"
    using AddTransaction_spec [OF assms(2)] by blast
  obtain t where t: "return_queue d = return_queue ctl @ [t]" "trans_tag t = (a, False)" "complete_cycle t = ?k + 1"
      and w: "rd_work d = rd_work ctl" "wr_work d = wr_work ctl" "pending_rd_q d = pending_rd_q ctl"
    using d(1) assms(3) unfolding AddTransaction_cases by (auto simp: arrived_def rd_work_def wr_work_def waiting_trans_def)
  have late: "\<not> ?k + 1 \<le> ?k" using uint_add_of_int [of 1 ?k] assms(4) by (simp add: word_le_def)
  obtain d1 where d1: "drain_loop d ?k = (d1, map trans_tag (filter (\<lambda>t. complete_cycle t \<le> ?k) (return_queue ctl)))"
      "return_queue d1 = filter (\<lambda>t. \<not> complete_cycle t \<le> ?k) (return_queue ctl) @ [t]"
    using drain_loop_filter [of d ?k] t late by auto
  obtain c1 where c1: "drain_loop ctl ?k = (c1, map trans_tag (filter (\<lambda>t. complete_cycle t \<le> ?k) (return_queue ctl)))"
      "return_queue c1 = filter (\<lambda>t. \<not> complete_cycle t \<le> ?k) (return_queue ctl)"
    using drain_loop_filter by blast
  have "ctl_inv c d1" using drain_loop_spec [OF d(2) d1(1)] by blast
  then obtain e where e: "ctl_ClockTick c d1 = Inr e"
    using ctl_ClockTick_spec assms(1) unfolding ctl_config_def by blast
  obtain new where "return_queue e = return_queue d1 @ new" using ctl_ClockTick_grows [OF e] by (auto simp: grown_def)
  then have "snd (drain_loop e (?k + 1)) = snd (drain_loop c1 (?k + 1)) @ (a, False) #
      map trans_tag (filter (\<lambda>t. complete_cycle t \<le> ?k + 1) new)"
    using drain_loop_filter [of e "?k + 1"] drain_loop_filter [of c1 "?k + 1"] d1(2) c1(2) t(2,3) by auto
  then show ?thesis using d(1) w d1(1) c1(1) e by auto
qed

theorem controller_forwards_writes_witness:
  "\<exists>d e new. AddTransaction (snd (AddTransaction sample_ctl (mk_Transaction 64 True))) (mk_Transaction 64 False) = (True, d) \<and>
     ctl_ClockTick ddr4_config (fst (drain_loop d 0)) = Inr e \<and>
     snd (drain_loop e 1) = snd (drain_loop (fst (drain_loop (snd (AddTransaction sample_ctl (mk_Transaction 64 True))) 0)) 1) @
       (64, False) # new"
proof -
  let ?ctl = "snd (AddTransaction sample_ctl (mk_Transaction 64 True))"
  have "ctl_inv ddr4_config sample_ctl"
    by (rule ctl_inv_mk_Controller [OF sample_ctl_mk ddr4_geometry sample_refresh_mk])
  then have i: "ctl_inv ddr4_config ?ctl" using AddTransaction_spec [of ddr4_config sample_ctl] by (metis snd_conv)
  have h: "64 \<in> fst ` set (pending_wr_q ?ctl)" "ctl_clk ?ctl = 0" by code_simp+
  from controller_forwards_writes [OF ddr4_ctl_config i h(1)] h(2) show ?thesis by auto
qed

text \<open>
  C33: The loop \<open>while (true)\<close> over \<open>ReturnDoneTrans\<close> ends, in every state and for every
  clock, and it is a filter: it answers exactly the transactions of the return queue that
  are due, in the order of the queue, and leaves exactly the others.
\<close>

theorem drain_loop_collects_due:
  "\<exists>d. drain_loop ctl clk = (d, map trans_tag (filter (\<lambda>t. complete_cycle t \<le> clk) (return_queue ctl))) \<and>
     return_queue d = filter (\<lambda>t. \<not> complete_cycle t \<le> clk) (return_queue ctl)"
  by (rule drain_loop_filter)

lemma ideal_loop_due:
  "ideal_loop clk lat ts = (q, out) \<Longrightarrow>
     set out \<subseteq> trans_tag ` {t \<in> set ts. lat \<le> clk - added_cycle t}"
  by (induction clk lat ts arbitrary: q out rule: ideal_loop.induct)
    (auto split: if_splits list.splits prod.splits, fastforce+)

lemma ideal_loop_all_due:
  "\<forall>t \<in> set ts. lat \<le> clk - added_cycle t \<Longrightarrow> ideal_loop clk lat ts = (q, out) \<Longrightarrow>
     length out = (length ts + 1) div 2 \<and> length q = length ts div 2"
  by (induction clk lat ts arbitrary: q out rule: ideal_loop.induct)
    (auto split: if_splits list.splits prod.splits)

text \<open>
  C36: The ideal memory answers nothing twice, nothing it was not asked and nothing before its
  latency has passed: in any run what was submitted is what was answered plus what is still
  in the buffer, and every transaction a tick answers has waited at least \<open>latency\<close> cycles.
\<close>

theorem ideal_answers_once:
  "(\<exists>im' acc out. port_run ideal_step xs (mk_IdealDRAMSystem c) = Inr (im', acc, out) \<and>
      mset (concat (map mem_submits xs)) = ideal_owed im' + mset out) \<and>
   set (snd (ideal_ClockTick im)) \<subseteq>
     trans_tag ` {t \<in> set (infinite_buffer_q im). of_int (latency im) \<le> ideal_clk im - added_cycle t}"
proof
  have "ideal_owed (mk_IdealDRAMSystem c) = {#}" by (simp add: ideal_owed_def mk_IdealDRAMSystem_def)
  then show "\<exists>im' acc out. port_run ideal_step xs (mk_IdealDRAMSystem c) = Inr (im', acc, out) \<and>
      mset (concat (map mem_submits xs)) = ideal_owed im' + mset out"
    using ideal_port.run_answers_all [where s = "mk_IdealDRAMSystem c" and xs = xs] by auto
  show "set (snd (ideal_ClockTick im)) \<subseteq>
     trans_tag ` {t \<in> set (infinite_buffer_q im). of_int (latency im) \<le> ideal_clk im - added_cycle t}"
    unfolding ideal_ClockTick_def
    by (cases "ideal_loop (ideal_clk im) (of_int (latency im)) (infinite_buffer_q im)")
      (simp add: ideal_loop_due)
qed

text \<open>
  C37: The latency of the ideal memory is not fixed. After it answers a transaction the loop of
  \<open>ClockTick\<close> steps over the next one, so when every transaction in the buffer is due only
  every other one is answered and half of them wait for a later cycle.
\<close>

theorem ideal_misses_every_other:
  assumes "\<forall>t \<in> set (infinite_buffer_q im). of_int (latency im) \<le> ideal_clk im - added_cycle t"
  shows "length (snd (ideal_ClockTick im)) = (length (infinite_buffer_q im) + 1) div 2 \<and>
    length (infinite_buffer_q (fst (ideal_ClockTick im))) = length (infinite_buffer_q im) div 2"
  unfolding ideal_ClockTick_def
  using ideal_loop_all_due [OF assms]
  by (cases "ideal_loop (ideal_clk im) (of_int (latency im)) (infinite_buffer_q im)") simp

definition waiting_pair :: IdealDRAMSystem where
  "waiting_pair = \<lparr>ideal_clk = 10, latency = 10,
     infinite_buffer_q = [mk_Transaction 64 False, mk_Transaction 128 False]\<rparr>"

theorem ideal_misses_every_other_witness:
  "length (snd (ideal_ClockTick waiting_pair)) = 1 \<and>
   length (infinite_buffer_q (fst (ideal_ClockTick waiting_pair))) = 1"
proof -
  have d: "\<forall>t \<in> set (infinite_buffer_q waiting_pair).
      of_int (latency waiting_pair) \<le> ideal_clk waiting_pair - added_cycle t" by code_simp
  have "length (infinite_buffer_q waiting_pair) = 2" by code_simp
  with ideal_misses_every_other [OF d] show ?thesis by simp
qed

end
