(* ===== verification/Hmc_System.thy ===== *)
theory Hmc_System
  imports Dram_System
begin

text \<open>
  \<open>DRAMSIM3/src/hmc.h\<close> and \<open>hmc.cc\<close>: the Hybrid Memory Cube. Requests cross from the links
  to four quadrants, from there to the vaults, each a DRAM controller; the responses cross
  back. A packet is in exactly one queue at a time, so packets are values. The multimap of
  responses is a list of pairs in the order of insertion, in which \<open>find\<close> takes the first
  pair with the key.
\<close>

section \<open>Packets\<close>

datatype HMCReqType =
    RD0 | RD16 | RD32 | RD48 | RD64 | RD80 | RD96 | RD112
  | RD128 | RD256 | WR0 | WR16 | WR32 | WR48 | WR64 | WR80
  | WR96 | WR112 | WR128 | WR256 | P_WR16 | P_WR32 | P_WR48 | P_WR64
  | P_WR80 | P_WR96 | P_WR112 | P_WR128 | P_WR256 | ADD8 | ADD16 | P_2ADD8
  | P_ADD16 | ADDS8R | ADDS16R | INC8 | P_INC8 | XOR16 | OR16 | NOR16
  | AND16 | NAND16 | CASGT8 | CASGT16 | CASLT8 | CASLT16 | CASEQ8 | CASZERO16
  | EQ8 | EQ16 | BWR | P_BWR | BWR8R | SWAP16 | SIZE_REQ

datatype HMCRespType = NONE_RS | RD_RS | WR_RS | ERR | SIZE_RESP

text \<open>The enumerators in their order, and the number of each.\<close>

definition req_types :: "HMCReqType list" where
  "req_types =
     [RD0, RD16, RD32, RD48, RD64, RD80, RD96, RD112, RD128,
      RD256, WR0, WR16, WR32, WR48, WR64, WR80, WR96, WR112,
      WR128, WR256, P_WR16, P_WR32, P_WR48, P_WR64, P_WR80, P_WR96, P_WR112,
      P_WR128, P_WR256, ADD8, ADD16, P_2ADD8, P_ADD16, ADDS8R, ADDS16R, INC8,
      P_INC8, XOR16, OR16, NOR16, AND16, NAND16, CASGT8, CASGT16, CASLT8,
      CASLT16, CASEQ8, CASZERO16, EQ8, EQ16, BWR, P_BWR, BWR8R, SWAP16,
      SIZE_REQ]"

primrec req_code :: "HMCReqType \<Rightarrow> nat" where
  "req_code RD0 = 0"
| "req_code RD16 = 1"
| "req_code RD32 = 2"
| "req_code RD48 = 3"
| "req_code RD64 = 4"
| "req_code RD80 = 5"
| "req_code RD96 = 6"
| "req_code RD112 = 7"
| "req_code RD128 = 8"
| "req_code RD256 = 9"
| "req_code WR0 = 10"
| "req_code WR16 = 11"
| "req_code WR32 = 12"
| "req_code WR48 = 13"
| "req_code WR64 = 14"
| "req_code WR80 = 15"
| "req_code WR96 = 16"
| "req_code WR112 = 17"
| "req_code WR128 = 18"
| "req_code WR256 = 19"
| "req_code P_WR16 = 20"
| "req_code P_WR32 = 21"
| "req_code P_WR48 = 22"
| "req_code P_WR64 = 23"
| "req_code P_WR80 = 24"
| "req_code P_WR96 = 25"
| "req_code P_WR112 = 26"
| "req_code P_WR128 = 27"
| "req_code P_WR256 = 28"
| "req_code ADD8 = 29"
| "req_code ADD16 = 30"
| "req_code P_2ADD8 = 31"
| "req_code P_ADD16 = 32"
| "req_code ADDS8R = 33"
| "req_code ADDS16R = 34"
| "req_code INC8 = 35"
| "req_code P_INC8 = 36"
| "req_code XOR16 = 37"
| "req_code OR16 = 38"
| "req_code NOR16 = 39"
| "req_code AND16 = 40"
| "req_code NAND16 = 41"
| "req_code CASGT8 = 42"
| "req_code CASGT16 = 43"
| "req_code CASLT8 = 44"
| "req_code CASLT16 = 45"
| "req_code CASEQ8 = 46"
| "req_code CASZERO16 = 47"
| "req_code EQ8 = 48"
| "req_code EQ16 = 49"
| "req_code BWR = 50"
| "req_code P_BWR = 51"
| "req_code BWR8R = 52"
| "req_code SWAP16 = 53"
| "req_code SIZE_REQ = 54"

lemma req_types_code: "req_types ! req_code t = t"
  by (cases t) (simp_all add: req_types_def)

lemma req_code_inject: "req_code s = req_code t \<longleftrightarrow> s = t"
  using req_types_code by metis

instantiation HMCReqType :: linorder
begin

definition less_eq_HMCReqType :: "HMCReqType \<Rightarrow> HMCReqType \<Rightarrow> bool" where
  "less_eq_HMCReqType s t \<longleftrightarrow> req_code s \<le> req_code t"

definition less_HMCReqType :: "HMCReqType \<Rightarrow> HMCReqType \<Rightarrow> bool" where
  "less_HMCReqType s t \<longleftrightarrow> req_code s < req_code t"

instance
  by standard (auto simp: less_eq_HMCReqType_def less_HMCReqType_def req_code_inject)

end

text \<open>The \<open>switch\<close> of each constructor; \<open>SIZE\<close> is the only type without a case.\<close>

definition req_flit_count :: "HMCReqType \<Rightarrow> int result" where
  "req_flit_count t =
     (if t \<in> {RD0, WR0} then Inr 0
      else if t \<in> {RD16, RD32, RD48, RD64, RD80, RD96,
          RD112, RD128, RD256} then Inr 1
      else if t \<in> {WR16, P_WR16} then Inr 2
      else if t \<in> {WR32, P_WR32} then Inr 3
      else if t \<in> {WR48, P_WR48} then Inr 4
      else if t \<in> {WR64, P_WR64} then Inr 5
      else if t \<in> {WR80, P_WR80} then Inr 6
      else if t \<in> {WR96, P_WR96} then Inr 7
      else if t \<in> {WR112, P_WR112} then Inr 8
      else if t \<in> {WR128, P_WR128} then Inr 9
      else if t \<in> {WR256, P_WR256} then Inr 17
      else if t \<in> {ADD8, ADD16} then Inr 2
      else if t \<in> {P_2ADD8, P_ADD16} then Inr 2
      else if t \<in> {ADDS8R, ADDS16R} then Inr 2
      else if t = INC8 then Inr 1
      else if t = P_INC8 then Inr 1
      else if t \<in> {XOR16, OR16, NOR16, AND16, NAND16, CASGT8,
          CASGT16, CASLT8, CASLT16, CASEQ8, CASZERO16} then Inr 2
      else if t \<in> {EQ8, EQ16, BWR} then Inr 2
      else if t = P_BWR then Inr 2
      else if t \<in> {BWR8R, SWAP16} then Inr 2
      else Inl (AbruptExit ''hmc.cc'' 107))"

definition resp_kind :: "HMCReqType \<Rightarrow> (HMCRespType \<times> int) result" where
  "resp_kind t =
     (if t = RD0 then Inr (RD_RS, 0)
      else if t = RD16 then Inr (RD_RS, 2)
      else if t = RD32 then Inr (RD_RS, 3)
      else if t = RD48 then Inr (RD_RS, 4)
      else if t = RD64 then Inr (RD_RS, 5)
      else if t = RD80 then Inr (RD_RS, 6)
      else if t = RD96 then Inr (RD_RS, 7)
      else if t = RD112 then Inr (RD_RS, 8)
      else if t = RD128 then Inr (RD_RS, 9)
      else if t = RD256 then Inr (RD_RS, 17)
      else if t = WR0 then Inr (WR_RS, 0)
      else if t \<in> {WR16, WR32, WR48, WR64, WR80, WR96,
          WR112, WR128, WR256} then Inr (WR_RS, 1)
      else if t \<in> {P_WR16, P_WR32, P_WR48, P_WR64,
          P_WR80, P_WR96, P_WR112, P_WR128, P_WR256} then Inr (NONE_RS, 0)
      else if t \<in> {ADD8, ADD16} then Inr (WR_RS, 1)
      else if t \<in> {P_2ADD8, P_ADD16} then Inr (NONE_RS, 0)
      else if t \<in> {ADDS8R, ADDS16R} then Inr (RD_RS, 2)
      else if t = INC8 then Inr (WR_RS, 1)
      else if t = P_INC8 then Inr (NONE_RS, 0)
      else if t \<in> {XOR16, OR16, NOR16, AND16, NAND16, CASGT8,
          CASGT16, CASLT8, CASLT16, CASEQ8, CASZERO16} then Inr (RD_RS, 2)
      else if t \<in> {EQ8, EQ16, BWR} then Inr (WR_RS, 1)
      else if t = P_BWR then Inr (NONE_RS, 0)
      else if t \<in> {BWR8R, SWAP16} then Inr (RD_RS, 2)
      else Inl (AbruptExit ''hmc.cc'' 237))"

record HMCRequest =
  req_type :: HMCReqType
  mem_operand :: u64
  req_link :: int
  req_quad :: int
  req_vault :: int
  req_flits :: int
  req_is_write :: bool
  req_exit_time :: u64

record HMCResponse =
  resp_id :: u64
  resp_type :: HMCRespType
  resp_link :: int
  resp_quad :: int
  resp_flits :: int
  resp_exit_time :: u64

text \<open>
  The constructors. The link of a request and the exit times are set later, before anything
  reads them; they are 0 here.
\<close>

definition mk_HMCRequest :: "HMCReqType \<Rightarrow> u64 \<Rightarrow> int \<Rightarrow> HMCRequest result" where
  "mk_HMCRequest t hex v =
     bindR (rem_int v 4) (\<lambda>q.
     bindR (req_flit_count t) (\<lambda>n.
     Inr \<lparr>req_type = t, mem_operand = hex, req_link = 0, req_quad = q, req_vault = v, req_flits = n,
          req_is_write = (WR0 \<le> t \<and> t \<le> P_WR256), req_exit_time = 0\<rparr>))"

definition mk_HMCResponse :: "u64 \<Rightarrow> HMCReqType \<Rightarrow> int \<Rightarrow> int \<Rightarrow> HMCResponse result" where
  "mk_HMCResponse i t dest_link src_quad =
     bindR (resp_kind t) (\<lambda>(k, n).
     Inr \<lparr>resp_id = i, resp_type = k, resp_link = dest_link, resp_quad = src_quad, resp_flits = n,
          resp_exit_time = 0\<rparr>)"

section \<open>The cube\<close>

record HMCMemorySystem =
  hmc_clk :: u64
  hmc_last_req_clk :: u64
  vaults :: "Controller list"
  logic_clk :: u64
  ps_per_dram :: u64
  ps_per_logic :: u64
  logic_ps :: u64
  dram_ps :: u64
  next_link :: int
  links :: int
  queue_depth :: nat
  resp_lookup_table :: "(u64 \<times> HMCResponse) list"
  link_req_queues :: "HMCRequest list list"
  link_resp_queues :: "HMCResponse list list"
  quad_req_queues :: "HMCRequest list list"
  quad_resp_queues :: "HMCResponse list list"
  link_busy :: "int list"
  quad_busy :: "int list"
  link_age_counter :: "int list"
  quad_age_counter :: "int list"

text \<open>
  \<open>SetClockRatio\<close>. The quotient of two \<open>double\<close>s that hold integers below \<open>2 ^ 31\<close> truncates
  to the integer quotient: it differs from the next integer by at least the reciprocal of the
  divisor, which is more than the rounding. A quotient that is not finite or truncates to a
  negative number has no \<open>uint64_t\<close> value.
\<close>

definition SetClockRatio :: "Config \<Rightarrow> (u64 \<times> u64) result" where
  "SetClockRatio c =
     bindR (div_int 128 (link_width c)) (\<lambda>link_cycles_per_flit.
     bindR (div_int (link_speed c) link_cycles_per_flit) (\<lambda>logic_speed.
       if -1000000 \<le> logic_speed \<and> logic_speed \<le> 0 then Inl BadCast
       else let ps = (of_int (c_div 1000000 logic_speed) :: u64)
            in Inr (800, if 800 < ps then 800 else ps)))"

definition mk_HMCMemorySystem :: "Config \<Rightarrow> HMCMemorySystem result" where
  "mk_HMCMemorySystem c =
     (if \<not> IsHMC c then Inl (AbruptExit ''hmc.cc'' 255)
      else bindR (SetClockRatio c) (\<lambda>(dram, logic).
        if channels c < 0 then Inl LengthError
        else bindR (mapR (mk_Controller c) [0 .. channels c - 1]) (\<lambda>cs.
          if num_links c < 0 then Inl LengthError
          else let n = nat (num_links c)
               in Inr \<lparr>hmc_clk = 0, hmc_last_req_clk = 0, vaults = cs, logic_clk = 0,
                    ps_per_dram = dram, ps_per_logic = logic, logic_ps = 0, dram_ps = 0,
                    next_link = 0, links = num_links c,
                    queue_depth = unat (of_int (xbar_queue_depth c) :: u64),
                    resp_lookup_table = [], link_req_queues = replicate n [],
                    link_resp_queues = replicate n [], quad_req_queues = replicate 4 [],
                    quad_resp_queues = replicate 4 [], link_busy = replicate n 0,
                    quad_busy = [0, 0, 0, 0], link_age_counter = replicate n 0,
                    quad_age_counter = [0, 0, 0, 0]\<rparr>)))"

definition IterateNextLink :: "HMCMemorySystem \<Rightarrow> HMCMemorySystem result" where
  "IterateNextLink h = bindR (rem_int (next_link h + 1) (links h)) (\<lambda>n. Inr (h\<lparr>next_link := n\<rparr>))"

definition hmc_WillAcceptTransaction :: "HMCMemorySystem \<Rightarrow> u64 \<Rightarrow> bool \<Rightarrow> bool" where
  "hmc_WillAcceptTransaction h hex w = list_ex (\<lambda>q. length q < queue_depth h) (link_req_queues h)"

definition InsertReqToLink ::
  "HMCMemorySystem \<Rightarrow> HMCRequest \<Rightarrow> int \<Rightarrow> (bool \<times> HMCMemorySystem) result" where
  "InsertReqToLink h req lnk =
     bindR (vec_at (link_req_queues h) lnk) (\<lambda>q.
       if length q < queue_depth h then
         bindR (vec_set (link_req_queues h) lnk (q @ [req\<lparr>req_link := lnk\<rparr>])) (\<lambda>qs.
         bindR (mk_HMCResponse (mem_operand req) (req_type req) lnk (req_quad req)) (\<lambda>resp.
         bindR (vec_set (link_age_counter h) lnk 1) (\<lambda>ages.
         Inr (True, h\<lparr>link_req_queues := qs,
                      resp_lookup_table := resp_lookup_table h @ [(resp_id resp, resp)],
                      link_age_counter := ages, hmc_last_req_clk := hmc_clk h\<rparr>))))
       else Inr (False, h))"

text \<open>The loop that tries the other links in turn.\<close>

partial_function (option) insert_loop ::
  "HMCRequest \<Rightarrow> int \<Rightarrow> HMCMemorySystem \<Rightarrow> (bool \<times> HMCMemorySystem) result option" where
  "insert_loop req start_link h =
     (if start_link = next_link h then Some (Inr (False, h))
      else case InsertReqToLink h req (next_link h) of
        Inl e \<Rightarrow> Some (Inl e)
      | Inr r \<Rightarrow> (case IterateNextLink (snd r) of
            Inl e \<Rightarrow> Some (Inl e)
          | Inr h' \<Rightarrow> if fst r then Some (Inr (True, h')) else insert_loop req start_link h'))"

definition InsertHMCReq :: "HMCMemorySystem \<Rightarrow> HMCRequest \<Rightarrow> (bool \<times> HMCMemorySystem) result" where
  "InsertHMCReq h req =
     bindR (InsertReqToLink h req (next_link h)) (\<lambda>(is_inserted, h1).
       if \<not> is_inserted then
         bindR (IterateNextLink h1) (\<lambda>h2. returned (insert_loop req (next_link h1) h2))
       else bindR (IterateNextLink h1) (\<lambda>h2. Inr (True, h2)))"

definition block_req_type :: "Config \<Rightarrow> bool \<Rightarrow> HMCReqType result" where
  "block_req_type c w =
     (if w then
        (if block_size c = 0 then Inr WR0
         else if block_size c = 32 then Inr WR32
         else if block_size c = 64 then Inr WR64
         else if block_size c = 128 then Inr WR128
         else if block_size c = 256 then Inr WR256
         else Inl (AbruptExit ''hmc.cc'' 366))
      else
        (if block_size c = 0 then Inr RD0
         else if block_size c = 32 then Inr RD32
         else if block_size c = 64 then Inr RD64
         else if block_size c = 128 then Inr RD128
         else if block_size c = 256 then Inr RD256
         else Inl (AbruptExit ''hmc.cc'' 388)))"

definition hmc_AddTransaction ::
  "Config \<Rightarrow> HMCMemorySystem \<Rightarrow> u64 \<Rightarrow> bool \<Rightarrow> (bool \<times> HMCMemorySystem) result" where
  "hmc_AddTransaction c h hex w =
     bindR (block_req_type c w) (\<lambda>t.
     bindR (GetChannel c hex) (\<lambda>v.
     bindR (mk_HMCRequest t hex v) (\<lambda>req. InsertHMCReq h req)))"

section \<open>Arbitration\<close>

text \<open>The inner loop compares the age with the indices already in the queue.\<close>

fun age_insert :: "int \<Rightarrow> int \<Rightarrow> int list \<Rightarrow> int list" where
  "age_insert age pos [] = [pos]"
| "age_insert age pos (i # rest) = (if i < age then pos # i # rest else i # age_insert age pos rest)"

definition BuildAgeQueue :: "u64 \<Rightarrow> int list \<Rightarrow> int list result" where
  "BuildAgeQueue clk age_counter =
     (let queue_len = int (length age_counter)
      in if queue_len = 0 then Inl DivByZero
         else let start_pos = to_int32 (clk mod of_int queue_len)
              in foldR (\<lambda>i age_queue.
                   bindR (rem_int (i + start_pos) queue_len) (\<lambda>pos.
                   bindR (vec_at age_counter pos) (\<lambda>age.
                     Inr (if 0 < age then age_insert age pos age_queue else age_queue))))
                 [0 .. queue_len - 1] [])"

definition drain_busy :: "int list \<Rightarrow> int list" where
  "drain_busy = map (\<lambda>i. if 0 < i then i - 2 else i)"

section \<open>Requests\<close>

definition InsertReqToDRAM :: "HMCMemorySystem \<Rightarrow> HMCRequest \<Rightarrow> HMCMemorySystem result" where
  "InsertReqToDRAM h req =
     bindR (vec_at (vaults h) (req_vault req)) (\<lambda>ctl.
     bindR (vec_set (vaults h) (req_vault req)
              (snd (AddTransaction ctl (mk_Transaction (mem_operand req) (req_is_write req))))) (\<lambda>cs.
     Inr (h\<lparr>vaults := cs\<rparr>)))"

definition quad_to_vault :: "int \<Rightarrow> HMCMemorySystem \<Rightarrow> HMCMemorySystem result" where
  "quad_to_vault i h =
     bindR (vec_at (quad_req_queues h) i) (\<lambda>q.
     bindR (vec_at (quad_resp_queues h) i) (\<lambda>rq.
       case q of
         [] \<Rightarrow> Inr h
       | req # rest \<Rightarrow>
           if length rq < queue_depth h \<and> req_exit_time req \<le> logic_clk h then
             bindR (vec_at (vaults h) (req_vault req)) (\<lambda>ctl.
               if WillAcceptTransaction ctl (mem_operand req) (req_is_write req) then
                 bindR (InsertReqToDRAM h req) (\<lambda>h1.
                 bindR (vec_set (quad_req_queues h1) i rest) (\<lambda>qs. Inr (h1\<lparr>quad_req_queues := qs\<rparr>)))
               else Inr h)
           else Inr h))"

definition link_to_quad :: "int \<Rightarrow> HMCMemorySystem \<Rightarrow> HMCMemorySystem result" where
  "link_to_quad src_link h =
     bindR (vec_at (link_req_queues h) src_link) (\<lambda>q.
       case q of
         [] \<Rightarrow> Inl OutOfBounds
       | req # rest \<Rightarrow>
           let dest_quad = req_quad req
           in bindR (vec_at (quad_req_queues h) dest_quad) (\<lambda>dq.
              bindR (vec_at (quad_busy h) dest_quad) (\<lambda>busy.
                if length dq < queue_depth h \<and> busy \<le> 0 then
                  bindR (vec_set (link_req_queues h) src_link rest) (\<lambda>lqs.
                  bindR (vec_set (quad_req_queues h) dest_quad
                           (dq @ [req\<lparr>req_exit_time := logic_clk h + of_int (req_flits req)\<rparr>])) (\<lambda>qqs.
                  bindR (vec_set (quad_busy h) dest_quad (req_flits req)) (\<lambda>bs.
                  bindR (vec_set (link_age_counter h) src_link (if rest = [] then 0 else 1)) (\<lambda>ages.
                  Inr (h\<lparr>link_req_queues := lqs, quad_req_queues := qqs, quad_busy := bs,
                         link_age_counter := ages\<rparr>)))))
                else
                  bindR (vec_at (link_age_counter h) src_link) (\<lambda>age.
                  bindR (vec_set (link_age_counter h) src_link (age + 1)) (\<lambda>ages.
                  Inr (h\<lparr>link_age_counter := ages\<rparr>))))))"

definition DrainRequests :: "HMCMemorySystem \<Rightarrow> HMCMemorySystem result" where
  "DrainRequests h =
     bindR (foldR quad_to_vault [0, 1, 2, 3] h) (\<lambda>h1.
     let h2 = h1\<lparr>quad_busy := drain_busy (quad_busy h1)\<rparr>
     in bindR (BuildAgeQueue (logic_clk h2) (link_age_counter h2)) (\<lambda>age_queue.
          foldR link_to_quad age_queue h2))"

section \<open>Responses\<close>

definition link_to_cpu ::
  "int \<Rightarrow> HMCMemorySystem \<times> answers \<Rightarrow> (HMCMemorySystem \<times> answers) result" where
  "link_to_cpu i s =
     (let h = fst s; out = snd s
      in bindR (vec_at (link_resp_queues h) i) (\<lambda>q.
           case q of
             [] \<Rightarrow> Inr s
           | resp # rest \<Rightarrow>
               if resp_exit_time resp \<le> logic_clk h then
                 bindR (vec_set (link_resp_queues h) i rest) (\<lambda>qs.
                 Inr (h\<lparr>link_resp_queues := qs\<rparr>, out @ [(resp_id resp, resp_type resp \<noteq> RD_RS)]))
               else Inr s))"

definition quad_to_link :: "int \<Rightarrow> HMCMemorySystem \<Rightarrow> HMCMemorySystem result" where
  "quad_to_link src_quad h =
     bindR (vec_at (quad_resp_queues h) src_quad) (\<lambda>q.
       case q of
         [] \<Rightarrow> Inl OutOfBounds
       | resp # rest \<Rightarrow>
           let dest_link = resp_link resp
           in bindR (vec_at (link_resp_queues h) dest_link) (\<lambda>dq.
              bindR (vec_at (link_busy h) dest_link) (\<lambda>busy.
                if length dq < queue_depth h \<and> busy \<le> 0 then
                  bindR (vec_set (quad_resp_queues h) src_quad rest) (\<lambda>qqs.
                  bindR (vec_set (link_resp_queues h) dest_link
                           (dq @ [resp\<lparr>resp_exit_time := logic_clk h + of_int (resp_flits resp)\<rparr>])) (\<lambda>lqs.
                  bindR (vec_set (link_busy h) dest_link (resp_flits resp)) (\<lambda>bs.
                  bindR (vec_set (quad_age_counter h) src_quad (if rest = [] then 0 else 1)) (\<lambda>ages.
                  Inr (h\<lparr>quad_resp_queues := qqs, link_resp_queues := lqs, link_busy := bs,
                         quad_age_counter := ages\<rparr>)))))
                else
                  bindR (vec_at (quad_age_counter h) src_quad) (\<lambda>age.
                  bindR (vec_set (quad_age_counter h) src_quad (age + 1)) (\<lambda>ages.
                  Inr (h\<lparr>quad_age_counter := ages\<rparr>))))))"

definition DrainResponses :: "HMCMemorySystem \<Rightarrow> (HMCMemorySystem \<times> answers) result" where
  "DrainResponses h =
     bindR (foldR link_to_cpu [0 .. links h - 1] (h, [])) (\<lambda>(h1, out).
     let h2 = h1\<lparr>link_busy := drain_busy (link_busy h1)\<rparr>
     in bindR (BuildAgeQueue (logic_clk h2) (quad_age_counter h2)) (\<lambda>age_queue.
        bindR (foldR quad_to_link age_queue h2) (\<lambda>h3. Inr (h3, out))))"

section \<open>Clocks\<close>

definition VaultCallback :: "u64 \<Rightarrow> HMCMemorySystem \<Rightarrow> HMCMemorySystem result" where
  "VaultCallback rid h =
     (case List.find (\<lambda>e. fst e = rid) (resp_lookup_table h) of
        None \<Rightarrow> Inl OutOfBounds
      | Some e \<Rightarrow>
          let resp = snd e
          in bindR (vec_at (quad_resp_queues h) (resp_quad resp)) (\<lambda>q.
             bindR (vec_set (quad_resp_queues h) (resp_quad resp) (q @ [resp])) (\<lambda>qs.
             bindR (vec_set (quad_age_counter h) (resp_quad resp) 1) (\<lambda>ages.
             Inr (h\<lparr>resp_lookup_table := erase_first (\<lambda>e. fst e = rid) (resp_lookup_table h),
                    quad_resp_queues := qs, quad_age_counter := ages\<rparr>)))))"

text \<open>The callbacks touch no vault, so they follow the loop that collects from the vaults.\<close>

definition DRAMClockTick :: "Config \<Rightarrow> HMCMemorySystem \<Rightarrow> HMCMemorySystem result" where
  "DRAMClockTick c h =
     (let drained = map (\<lambda>ctl. drain_loop ctl (hmc_clk h)) (vaults h)
      in bindR (foldR VaultCallback (map fst (concat (map snd drained))) (h\<lparr>vaults := map fst drained\<rparr>)) (\<lambda>h1.
         bindR (mapR (ctl_ClockTick c) (vaults h1)) (\<lambda>cs.
           let clk = hmc_clk h1 + 1;
               period = (of_int (epoch_period c) :: u64)
           in if period = 0 then Inl DivByZero
              else bindR (if clk mod period = 0 then base_PrintEpochStats cs else Inr cs) (\<lambda>cs1.
                Inr (h1\<lparr>hmc_clk := clk, vaults := cs1\<rparr>)))))"

definition logic_advance :: "HMCMemorySystem \<Rightarrow> HMCMemorySystem" where
  "logic_advance h = h\<lparr>logic_ps := logic_ps h + ps_per_logic h, logic_clk := logic_clk h + 1\<rparr>"

definition logic_cycle :: "HMCMemorySystem \<Rightarrow> (HMCMemorySystem \<times> answers) result" where
  "logic_cycle h =
     bindR (DrainResponses h) (\<lambda>(h1, out).
     bindR (DrainRequests h1) (\<lambda>h2. Inr (logic_advance h2, out)))"

partial_function (option) logic_loop ::
  "answers \<Rightarrow> HMCMemorySystem \<Rightarrow> (HMCMemorySystem \<times> answers) result option" where
  "logic_loop out h =
     (if logic_ps h < dram_ps h + ps_per_dram h then
        case logic_cycle h of
          Inl e \<Rightarrow> Some (Inl e)
        | Inr r \<Rightarrow> logic_loop (out @ snd r) (fst r)
      else Some (Inr (h, out)))"

definition hmc_ClockTick :: "Config \<Rightarrow> HMCMemorySystem \<Rightarrow> (HMCMemorySystem \<times> answers) result" where
  "hmc_ClockTick c h =
     bindR (if dram_ps h = logic_ps h then
              bindR (DrainResponses h) (\<lambda>(h1, out).
              bindR (DRAMClockTick c h1) (\<lambda>h2.
              bindR (DrainRequests h2) (\<lambda>h3. Inr (logic_advance h3, out))))
            else bindR (DRAMClockTick c h) (\<lambda>h1. Inr (h1, []))) (\<lambda>(h4, out).
     bindR (returned (logic_loop out h4)) (\<lambda>(h5, out5).
     Inr (h5\<lparr>dram_ps := dram_ps h5 + ps_per_dram h5\<rparr>, out5)))"

section \<open>Invariant\<close>

text \<open>What of a packet matters to where it goes and to whom it answers.\<close>

definition req_key :: "HMCRequest \<Rightarrow> u64 \<times> int \<times> int" where
  "req_key r = (mem_operand r, req_quad r, req_vault r)"

definition resp_key :: "HMCResponse \<Rightarrow> (u64 \<times> bool) \<times> int \<times> int" where
  "resp_key r = ((resp_id r, resp_type r \<noteq> RD_RS), resp_link r, resp_quad r)"

definition reqs :: "HMCMemorySystem \<Rightarrow> (u64 \<times> int \<times> int) multiset" where
  "reqs h = image_mset req_key (mset (concat (link_req_queues h)) + mset (concat (quad_req_queues h)))"

definition resps :: "HMCMemorySystem \<Rightarrow> ((u64 \<times> bool) \<times> int \<times> int) multiset" where
  "resps h = image_mset resp_key (mset (map snd (resp_lookup_table h)) +
     mset (concat (quad_resp_queues h)) + mset (concat (link_resp_queues h)))"

text \<open>A counter is positive exactly when its queue has something to arbitrate.\<close>

definition aged :: "int list \<Rightarrow> 'a list list \<Rightarrow> bool" where
  "aged ages qs \<longleftrightarrow> length ages = length qs \<and> (\<forall>i < length qs. 0 < ages ! i \<longleftrightarrow> qs ! i \<noteq> [])"

definition hmc_shape :: "HMCMemorySystem \<Rightarrow> bool" where
  "hmc_shape h \<longleftrightarrow> 0 < links h \<and> links h < 2 ^ 31 \<and> 0 \<le> next_link h \<and> next_link h < links h \<and>
     length (link_req_queues h) = nat (links h) \<and> length (link_resp_queues h) = nat (links h) \<and>
     length (link_busy h) = nat (links h) \<and> length (quad_req_queues h) = 4 \<and>
     length (quad_resp_queues h) = 4 \<and> length (quad_busy h) = 4 \<and>
     aged (link_age_counter h) (link_req_queues h) \<and> aged (quad_age_counter h) (quad_resp_queues h)"

definition capped :: "nat \<Rightarrow> 'a list list \<Rightarrow> bool" where
  "capped n qs \<longleftrightarrow> (\<forall>q \<in> set qs. length q \<le> n)"

definition hmc_bounded :: "HMCMemorySystem \<Rightarrow> bool" where
  "hmc_bounded h \<longleftrightarrow> capped (queue_depth h) (link_req_queues h) \<and>
     capped (queue_depth h) (quad_req_queues h) \<and> capped (queue_depth h) (link_resp_queues h)"

definition hmc_routed :: "Config \<Rightarrow> HMCMemorySystem \<Rightarrow> bool" where
  "hmc_routed c h \<longleftrightarrow>
     (\<forall>(a, q, v) \<in># reqs h. 0 \<le> q \<and> q < 4 \<and> 0 \<le> v \<and> v < channels c) \<and>
     (\<forall>(t, l, q) \<in># resps h. 0 \<le> l \<and> l < links h \<and> 0 \<le> q \<and> q < 4)"

text \<open>
  The table has a response for every request on its way to a vault or in one; \<open>due\<close> are the
  addresses the vaults have completed and the callback has not seen yet.
\<close>

definition hmc_matched :: "u64 multiset \<Rightarrow> HMCMemorySystem \<Rightarrow> bool" where
  "hmc_matched due h \<longleftrightarrow> (\<forall>e \<in> set (resp_lookup_table h). fst e = resp_id (snd e)) \<and>
     mset (map fst (resp_lookup_table h)) =
       image_mset fst (reqs h) + image_mset fst (all_owed (vaults h)) + due"

definition hmc_inv :: "Config \<Rightarrow> u64 multiset \<Rightarrow> HMCMemorySystem \<Rightarrow> bool" where
  "hmc_inv c due h \<longleftrightarrow> ctrls_inv c (vaults h) \<and> hmc_shape h \<and> hmc_bounded h \<and> hmc_routed c h \<and> hmc_matched due h"

definition hmc_owed :: "HMCMemorySystem \<Rightarrow> (u64 \<times> bool) multiset" where
  "hmc_owed h = image_mset fst (resps h)"

text \<open>The clocks, which only the clock operations move.\<close>

definition hmc_time :: "HMCMemorySystem \<Rightarrow> u64 \<times> u64 \<times> u64 \<times> u64" where
  "hmc_time h = (logic_ps h, dram_ps h, ps_per_dram h, ps_per_logic h)"

section \<open>Arbitration order\<close>

lemma mset_age_insert [simp]: "mset (age_insert age pos q) = add_mset pos (mset q)"
  by (induction age pos q rule: age_insert.induct) auto

definition rotated :: "u64 \<Rightarrow> nat \<Rightarrow> int list" where
  "rotated clk n = map (\<lambda>i. (i + uint (clk mod of_int (int n))) mod int n) [0 .. int n - 1]"

lemma mod_add_inj:
  fixes n :: int
  assumes "0 \<le> i" "i < n" "0 \<le> j" "j < n" "(i + s) mod n = (j + s) mod n"
  shows "i = j"
proof -
  have "(i + s - s) mod n = (j + s - s) mod n" using assms(5) by (rule mod_diff_cong) simp
  with assms(1-4) show ?thesis by simp
qed

lemma rotated_mset:
  assumes "0 < n"
  shows "mset (rotated clk n) = mset [0 .. int n - 1]"
proof -
  have d: "distinct (rotated clk n)"
    unfolding rotated_def distinct_map using mod_add_inj by (auto intro!: inj_onI)
  have s: "set (rotated clk n) \<subseteq> {0 .. int n - 1}"
    using assms by (auto simp: rotated_def)
  have "card (set (rotated clk n)) = card {0 .. int n - 1}"
    using distinct_card [OF d] by (simp add: rotated_def)
  then have "set (rotated clk n) = {0 .. int n - 1}"
    using card_subset_eq [OF _ s] by simp
  then show ?thesis using d by (metis distinct_upto set_eq_iff_mset_eq_distinct set_upto)
qed

lemma BuildAgeQueue_mset:
  assumes "0 < length ages" and "length ages < 2 ^ 31"
  shows "\<exists>q. BuildAgeQueue clk ages = Inr q \<and>
    mset q = mset (filter (\<lambda>i. 0 < ages ! nat i) [0 .. int (length ages) - 1])"
proof -
  let ?n = "int (length ages)" and ?s = "clk mod of_int (int (length ages))"
  have u: "uint (of_int ?n :: u64) = ?n"
    using assms by (simp add: unsigned_of_nat take_bit_nat_eq_self)
  then have s: "uint ?s < ?n" using assms(1) by (simp add: uint_mod)
  then have "unat ?s < length ages" by (simp only: uint_nat of_nat_less_iff)
  then have "unat ?s < 2 ^ 31" using assms(2) by (rule less_trans)
  then have i32: "to_int32 ?s = uint ?s" by (rule to_int32_small)
  define f where "f = (\<lambda>i q. bindR (rem_int (i + uint ?s) ?n) (\<lambda>pos. bindR (vec_at ages pos) (\<lambda>age.
      Inr (if 0 < age then age_insert age pos q else q))))"
  have f: "f i q = Inr (if 0 < ages ! nat p then age_insert (ages ! nat p) p q else q)"
    if "0 \<le> i" "p = (i + uint ?s) mod ?n" for i q p
  proof -
    have "rem_int (i + uint ?s) ?n = Inr p"
      using that assms(1) by (simp add: rem_int_def c_div_nonneg minus_div_mult_eq_mod)
    moreover have "vec_at ages p = Inr (ages ! nat p)" using that assms(1) by (simp add: vec_at_Inr nat_less_iff)
    ultimately show ?thesis by (simp add: f_def)
  qed
  have l: "\<exists>q. foldR f xs q0 = Inr q \<and>
      mset q = mset q0 + mset (filter (\<lambda>p. 0 < ages ! nat p) (map (\<lambda>i. (i + uint ?s) mod ?n) xs))"
    if "\<forall>i \<in> set xs. 0 \<le> i" for xs q0
    using that
  proof (induction xs arbitrary: q0)
    case (Cons i xs)
    then obtain q where "foldR f xs (if 0 < ages ! nat ((i + uint ?s) mod ?n)
        then age_insert (ages ! nat ((i + uint ?s) mod ?n)) ((i + uint ?s) mod ?n) q0 else q0) = Inr q"
      "mset q = mset (if 0 < ages ! nat ((i + uint ?s) mod ?n)
        then age_insert (ages ! nat ((i + uint ?s) mod ?n)) ((i + uint ?s) mod ?n) q0 else q0) +
        mset (filter (\<lambda>p. 0 < ages ! nat p) (map (\<lambda>i. (i + uint ?s) mod ?n) xs))"
      by auto
    with f [OF _ refl, of i q0] Cons.prems show ?case by auto
  qed simp
  obtain q where q: "foldR f [0 .. ?n - 1] [] = Inr q"
      "mset q = mset (filter (\<lambda>p. 0 < ages ! nat p) (rotated clk (length ages)))"
    using l [of "[0 .. ?n - 1]" "[]"] unfolding rotated_def by auto
  have "mset q = mset (filter (\<lambda>p. 0 < ages ! nat p) [0 .. ?n - 1])"
    unfolding q(2) using rotated_mset [OF assms(1), of clk] by (metis mset_filter)
  then show ?thesis
    using q(1) assms(1) unfolding BuildAgeQueue_def Let_def f_def i32 by auto
qed

section \<open>Moving packets\<close>

lemma mset_move:
  assumes "i < length A" and "A ! i = x # rest" and "j < length B"
  shows "mset (concat (A[i := rest])) + mset (concat (B[j := B ! j @ [y]])) + {#x#} =
    mset (concat A) + mset (concat B) + {#y#}"
proof -
  have a: "mset (concat (A[i := rest])) + {#x#} = mset (concat A)"
    using mset_concat_update [OF assms(1), of rest] assms(2) by simp
  have b: "mset (concat (B[j := B ! j @ [y]])) = mset (concat B) + {#y#}"
    using mset_concat_update [OF assms(3), of "B ! j @ [y]"] by simp
  show ?thesis using a b by (metis (no_types, lifting) add.assoc add.commute)
qed

lemma aged_head: "aged ages qs \<Longrightarrow> i < length qs \<Longrightarrow> 0 < ages ! i \<Longrightarrow> \<exists>x rest. qs ! i = x # rest"
  unfolding aged_def by (metis list.exhaust)

lemma aged_tail:
  assumes "aged ages qs"
  shows "aged (ages[i := (if rest = [] then 0 else 1)]) (qs[i := rest])"
  using assms by (cases "i < length qs") (auto simp: aged_def nth_list_update)

lemma aged_stall:
  assumes "aged ages qs" and "qs ! i \<noteq> []"
  shows "aged (ages[i := ages ! i + 1]) qs"
proof (cases "i < length qs")
  case True
  with assms have "0 < ages ! i" unfolding aged_def by blast
  with assms True show ?thesis by (auto simp: aged_def nth_list_update)
qed (use assms in \<open>simp add: aged_def\<close>)

lemma aged_push: "aged ages qs \<Longrightarrow> aged (ages[i := 1]) (qs[i := q @ [x]])"
  by (cases "i < length qs") (auto simp: aged_def nth_list_update)

lemma req_key_exit [simp]: "req_key (r\<lparr>req_exit_time := t\<rparr>) = req_key r" "req_key (r\<lparr>req_link := l\<rparr>) = req_key r"
  by (simp_all add: req_key_def)

lemma resp_key_exit [simp]: "resp_key (r\<lparr>resp_exit_time := t\<rparr>) = resp_key r"
  by (simp add: resp_key_def)

lemma hmc_shapeD:
  assumes "hmc_shape h"
  shows "0 < links h" "links h < 2 ^ 31" "length (link_req_queues h) = nat (links h)"
    "length (link_resp_queues h) = nat (links h)" "length (link_busy h) = nat (links h)"
    "length (quad_req_queues h) = 4" "length (quad_resp_queues h) = 4" "length (quad_busy h) = 4"
    "aged (link_age_counter h) (link_req_queues h)" "aged (quad_age_counter h) (quad_resp_queues h)"
    "length (link_age_counter h) = nat (links h)" "length (quad_age_counter h) = 4"
    "0 \<le> next_link h" "next_link h < links h"
proof -
  show "0 < links h" "links h < 2 ^ 31" "length (link_req_queues h) = nat (links h)"
    "length (link_resp_queues h) = nat (links h)" "length (link_busy h) = nat (links h)"
    "length (quad_req_queues h) = 4" "length (quad_resp_queues h) = 4" "length (quad_busy h) = 4"
    "aged (link_age_counter h) (link_req_queues h)" "aged (quad_age_counter h) (quad_resp_queues h)"
    "0 \<le> next_link h" "next_link h < links h"
    using assms unfolding hmc_shape_def by blast+
  then show "length (link_age_counter h) = nat (links h)" "length (quad_age_counter h) = 4"
    unfolding aged_def by simp_all
qed

lemma hmc_invD:
  assumes "hmc_inv c due h"
  shows "ctrls_inv c (vaults h)" "hmc_shape h" "hmc_bounded h" "hmc_routed c h" "hmc_matched due h"
  using assms unfolding hmc_inv_def by blast+

lemma link_req_key:
  assumes "hmc_routed c h" and "i < length (link_req_queues h)" and "r \<in> set (link_req_queues h ! i)"
  shows "0 \<le> req_quad r" "req_quad r < 4" "0 \<le> req_vault r" "req_vault r < channels c"
proof -
  have "r \<in> set (concat (link_req_queues h))" using nth_mem [OF assms(2)] assms(3) by auto
  then have "req_key r \<in># reqs h" unfolding reqs_def by simp
  then show "0 \<le> req_quad r" "req_quad r < 4" "0 \<le> req_vault r" "req_vault r < channels c"
    using assms(1) unfolding hmc_routed_def req_key_def by fastforce+
qed

lemma quad_req_key:
  assumes "hmc_routed c h" and "i < length (quad_req_queues h)" and "r \<in> set (quad_req_queues h ! i)"
  shows "0 \<le> req_vault r" "req_vault r < channels c"
proof -
  have "r \<in> set (concat (quad_req_queues h))" using nth_mem [OF assms(2)] assms(3) by auto
  then have "req_key r \<in># reqs h" unfolding reqs_def by simp
  then show "0 \<le> req_vault r" "req_vault r < channels c"
    using assms(1) unfolding hmc_routed_def req_key_def by fastforce+
qed

lemma quad_resp_key:
  assumes "hmc_routed c h" and "i < length (quad_resp_queues h)" and "r \<in> set (quad_resp_queues h ! i)"
  shows "0 \<le> resp_link r" "resp_link r < links h"
proof -
  have "r \<in> set (concat (quad_resp_queues h))" using nth_mem [OF assms(2)] assms(3) by auto
  then have "resp_key r \<in># resps h" unfolding resps_def by simp
  then show "0 \<le> resp_link r" "resp_link r < links h"
    using assms(1) unfolding hmc_routed_def resp_key_def by fastforce+
qed

lemma vec_ok: "0 \<le> i \<Longrightarrow> i < int (length xs) \<Longrightarrow> vec_at xs i = Inr (xs ! nat i)"
  "0 \<le> i \<Longrightarrow> i < int (length xs) \<Longrightarrow> vec_set xs i v = Inr (xs[nat i := v])"
  by (simp_all add: vec_at_def vec_set_def)

text \<open>A step of the crossbar keeps the invariant, the bag of responses and the clocks.\<close>

definition crossed :: "Config \<Rightarrow> u64 multiset \<Rightarrow> HMCMemorySystem \<Rightarrow> HMCMemorySystem \<Rightarrow> bool" where
  "crossed c due h h' \<longleftrightarrow> hmc_inv c due h' \<and> resps h' = resps h \<and> hmc_time h' = hmc_time h \<and>
     logic_clk h' = logic_clk h \<and> hmc_clk h' = hmc_clk h"

lemma capped_update: "capped n qs \<Longrightarrow> length x \<le> n \<Longrightarrow> capped n (qs[i := x])"
  unfolding capped_def by (auto dest!: set_update_subset_insert [THEN subsetD])

lemma capped_nth: "capped n qs \<Longrightarrow> i < length qs \<Longrightarrow> length (qs ! i) \<le> n"
  unfolding capped_def by simp

lemma link_to_quad_spec:
  assumes "hmc_inv c due h" and "0 \<le> i" and "i < links h" and "link_req_queues h ! nat i \<noteq> []"
  shows "\<exists>h'. link_to_quad i h = Inr h' \<and> crossed c due h h' \<and> links h' = links h \<and>
    (\<forall>j. j \<noteq> nat i \<longrightarrow> link_req_queues h' ! j = link_req_queues h ! j)"
proof -
  note inv = hmc_invD [OF assms(1)]
  note sh = hmc_shapeD [OF inv(2)]
  obtain r rest where q: "link_req_queues h ! nat i = r # rest" using assms(4) by (cases "link_req_queues h ! nat i") auto
  have i: "nat i < length (link_req_queues h)" using assms(2,3) sh(3) by simp
  have rq: "0 \<le> req_quad r" "req_quad r < 4" using link_req_key [OF inv(4) i, of r] q by simp_all
  let ?d = "nat (req_quad r)"
  have d: "?d < length (quad_req_queues h)" using rq sh(6) by simp
  have v: "vec_at (link_req_queues h) i = Inr (r # rest)"
    "vec_at (quad_req_queues h) (req_quad r) = Inr (quad_req_queues h ! ?d)"
    "vec_at (quad_busy h) (req_quad r) = Inr (quad_busy h ! ?d)"
    "vec_at (link_age_counter h) i = Inr (link_age_counter h ! nat i)"
    "\<And>x. vec_set (link_req_queues h) i x = Inr ((link_req_queues h)[nat i := x])"
    "\<And>x. vec_set (quad_req_queues h) (req_quad r) x = Inr ((quad_req_queues h)[?d := x])"
    "\<And>x. vec_set (quad_busy h) (req_quad r) x = Inr ((quad_busy h)[?d := x])"
    "\<And>x. vec_set (link_age_counter h) i x = Inr ((link_age_counter h)[nat i := x])"
    using assms(2,3) rq sh q by (simp_all add: vec_ok)
  show ?thesis
  proof (cases "length (quad_req_queues h ! ?d) < queue_depth h \<and> quad_busy h ! ?d \<le> 0")
    case True
    let ?r = "r\<lparr>req_exit_time := logic_clk h + of_int (req_flits r)\<rparr>"
    let ?h = "h\<lparr>link_req_queues := (link_req_queues h)[nat i := rest],
      quad_req_queues := (quad_req_queues h)[?d := quad_req_queues h ! ?d @ [?r]],
      quad_busy := (quad_busy h)[?d := req_flits r],
      link_age_counter := (link_age_counter h)[nat i := (if rest = [] then 0 else 1)]\<rparr>"
    have e: "link_to_quad i h = Inr ?h" by (simp only: link_to_quad_def v bindR_Inr list.case Let_def if_P [OF True])
    have "image_mset req_key (mset (concat (link_req_queues ?h)) + mset (concat (quad_req_queues ?h)) + {#r#}) =
        image_mset req_key (mset (concat (link_req_queues h)) + mset (concat (quad_req_queues h)) + {#?r#})"
      using mset_move [OF i q d, of ?r] by simp
    then have "reqs ?h = reqs h" by (simp add: reqs_def)
    moreover have "resps ?h = resps h" by (simp add: resps_def)
    moreover have "length rest \<le> queue_depth h"
      using inv(3) capped_nth [OF _ i] q unfolding hmc_bounded_def by fastforce
    then have "hmc_bounded ?h"
      using inv(3) True unfolding hmc_bounded_def by (simp add: capped_update)
    moreover have "hmc_shape ?h" using inv(2) aged_tail [OF sh(9), of "nat i" rest] unfolding hmc_shape_def by simp
    ultimately have "hmc_inv c due ?h"
      using inv unfolding hmc_inv_def hmc_routed_def hmc_matched_def by simp
    with e \<open>resps ?h = resps h\<close> show ?thesis by (intro exI [of _ ?h]) (simp add: crossed_def hmc_time_def)
  next
    case False
    let ?h = "h\<lparr>link_age_counter := (link_age_counter h)[nat i := link_age_counter h ! nat i + 1]\<rparr>"
    have e: "link_to_quad i h = Inr ?h" by (simp only: link_to_quad_def v bindR_Inr list.case Let_def if_not_P [OF False])
    have r: "reqs ?h = reqs h" "resps ?h = resps h" by (simp_all add: reqs_def resps_def)
    have "hmc_shape ?h" using inv(2) aged_stall [OF sh(9) assms(4)] unfolding hmc_shape_def by simp
    then have "hmc_inv c due ?h"
      using inv r unfolding hmc_inv_def hmc_routed_def hmc_matched_def hmc_bounded_def by simp
    with e r(2) show ?thesis by (intro exI [of _ ?h]) (simp add: crossed_def hmc_time_def)
  qed
qed

lemma quad_to_link_spec:
  assumes "hmc_inv c due h" and "0 \<le> i" and "i < 4" and "quad_resp_queues h ! nat i \<noteq> []"
  shows "\<exists>h'. quad_to_link i h = Inr h' \<and> crossed c due h h' \<and>
    (\<forall>j. j \<noteq> nat i \<longrightarrow> quad_resp_queues h' ! j = quad_resp_queues h ! j)"
proof -
  note inv = hmc_invD [OF assms(1)]
  note sh = hmc_shapeD [OF inv(2)]
  obtain r rest where q: "quad_resp_queues h ! nat i = r # rest" using assms(4) by (cases "quad_resp_queues h ! nat i") auto
  have i: "nat i < length (quad_resp_queues h)" using assms(2,3) sh(7) by simp
  have rl: "0 \<le> resp_link r" "resp_link r < links h" using quad_resp_key [OF inv(4) i, of r] q by simp_all
  let ?d = "nat (resp_link r)"
  have d: "?d < length (link_resp_queues h)" using rl sh(4) by simp
  have v: "vec_at (quad_resp_queues h) i = Inr (r # rest)"
    "vec_at (link_resp_queues h) (resp_link r) = Inr (link_resp_queues h ! ?d)"
    "vec_at (link_busy h) (resp_link r) = Inr (link_busy h ! ?d)"
    "vec_at (quad_age_counter h) i = Inr (quad_age_counter h ! nat i)"
    "\<And>x. vec_set (quad_resp_queues h) i x = Inr ((quad_resp_queues h)[nat i := x])"
    "\<And>x. vec_set (link_resp_queues h) (resp_link r) x = Inr ((link_resp_queues h)[?d := x])"
    "\<And>x. vec_set (link_busy h) (resp_link r) x = Inr ((link_busy h)[?d := x])"
    "\<And>x. vec_set (quad_age_counter h) i x = Inr ((quad_age_counter h)[nat i := x])"
    using assms(2,3) rl sh q by (simp_all add: vec_ok)
  show ?thesis
  proof (cases "length (link_resp_queues h ! ?d) < queue_depth h \<and> link_busy h ! ?d \<le> 0")
    case True
    let ?r = "r\<lparr>resp_exit_time := logic_clk h + of_int (resp_flits r)\<rparr>"
    let ?h = "h\<lparr>quad_resp_queues := (quad_resp_queues h)[nat i := rest],
      link_resp_queues := (link_resp_queues h)[?d := link_resp_queues h ! ?d @ [?r]],
      link_busy := (link_busy h)[?d := resp_flits r],
      quad_age_counter := (quad_age_counter h)[nat i := (if rest = [] then 0 else 1)]\<rparr>"
    have e: "quad_to_link i h = Inr ?h"
      by (simp only: quad_to_link_def v bindR_Inr list.case Let_def if_P [OF True])
    have "image_mset resp_key (mset (concat (quad_resp_queues ?h)) + mset (concat (link_resp_queues ?h)) + {#r#}) =
        image_mset resp_key (mset (concat (quad_resp_queues h)) + mset (concat (link_resp_queues h)) + {#?r#})"
      using mset_move [OF i q d, of ?r] by simp
    then have rs: "resps ?h = resps h" by (simp add: resps_def add.assoc)
    have rq: "reqs ?h = reqs h" by (simp add: reqs_def)
    have "hmc_bounded ?h"
      using inv(3) True unfolding hmc_bounded_def by (simp add: capped_update)
    moreover have "hmc_shape ?h" using inv(2) aged_tail [OF sh(10), of "nat i" rest] unfolding hmc_shape_def by simp
    ultimately have "hmc_inv c due ?h"
      using inv rs rq unfolding hmc_inv_def hmc_routed_def hmc_matched_def by simp
    with e rs show ?thesis by (intro exI [of _ ?h]) (simp add: crossed_def hmc_time_def)
  next
    case False
    let ?h = "h\<lparr>quad_age_counter := (quad_age_counter h)[nat i := quad_age_counter h ! nat i + 1]\<rparr>"
    have e: "quad_to_link i h = Inr ?h"
      by (simp only: quad_to_link_def v bindR_Inr list.case Let_def if_not_P [OF False])
    have r: "reqs ?h = reqs h" "resps ?h = resps h" by (simp_all add: reqs_def resps_def)
    have "hmc_shape ?h" using inv(2) aged_stall [OF sh(10) assms(4)] unfolding hmc_shape_def by simp
    then have "hmc_inv c due ?h"
      using inv r unfolding hmc_inv_def hmc_routed_def hmc_matched_def hmc_bounded_def by simp
    with e r(2) show ?thesis by (intro exI [of _ ?h]) (simp add: crossed_def hmc_time_def)
  qed
qed

lemma crossed_refl: "hmc_inv c due h \<Longrightarrow> crossed c due h h"
  by (simp add: crossed_def)

lemma crossed_trans: "crossed c due h h' \<Longrightarrow> crossed c due h' h'' \<Longrightarrow> crossed c due h h''"
  by (simp add: crossed_def)

lemma quad_to_vault_spec:
  assumes "hmc_inv c due h" and "0 \<le> i" and "i < 4"
  shows "\<exists>h'. quad_to_vault i h = Inr h' \<and> crossed c due h h'"
proof (cases "quad_req_queues h ! nat i")
  case Nil
  then show ?thesis
    using assms crossed_refl [OF assms(1)] hmc_shapeD(6,7) [OF hmc_invD(2) [OF assms(1)]]
    by (simp add: quad_to_vault_def vec_ok)
next
  case (Cons r rest)
  note inv = hmc_invD [OF assms(1)]
  note sh = hmc_shapeD [OF inv(2)]
  have i: "nat i < length (quad_req_queues h)" using assms(2,3) sh(6) by simp
  have rv: "0 \<le> req_vault r" "req_vault r < channels c"
    using quad_req_key [OF inv(4) i, of r] Cons by simp_all
  let ?ctl = "vaults h ! nat (req_vault r)"
  let ?cs = "(vaults h)[nat (req_vault r) := snd (AddTransaction ?ctl (mk_Transaction (mem_operand r) (req_is_write r)))]"
  have len: "int (length (vaults h)) = channels c" using inv(1) rv unfolding ctrls_inv_def by simp
  have v: "vec_at (quad_req_queues h) i = Inr (r # rest)"
    "vec_at (quad_resp_queues h) i = Inr (quad_resp_queues h ! nat i)"
    "vec_at (vaults h) (req_vault r) = Inr ?ctl"
    "\<And>x. vec_set (quad_req_queues h) i x = Inr ((quad_req_queues h)[nat i := x])"
    "\<And>x. vec_set (vaults h) (req_vault r) x = Inr ((vaults h)[nat (req_vault r) := x])"
    using assms(2,3) rv len sh Cons by (simp_all add: vec_ok)
  show ?thesis
  proof (cases "length (quad_resp_queues h ! nat i) < queue_depth h \<and> req_exit_time r \<le> logic_clk h \<and>
      WillAcceptTransaction ?ctl (mem_operand r) (req_is_write r)")
    case True
    let ?h = "h\<lparr>vaults := ?cs, quad_req_queues := (quad_req_queues h)[nat i := rest]\<rparr>"
    have e: "quad_to_vault i h = Inr ?h" using True by (simp add: quad_to_vault_def InsertReqToDRAM_def v)
    note add = ctrls_add [OF inv(1) rv, of "mem_operand r" "req_is_write r"]
    have "mset (concat ((quad_req_queues h)[nat i := rest])) + {#r#} = mset (concat (quad_req_queues h))"
      using mset_concat_update [OF i, of rest] Cons by simp
    then have rq: "reqs h = add_mset (req_key r) (reqs ?h)" by (simp add: reqs_def flip: \<open>_ = mset (concat (quad_req_queues h))\<close>)
    have rs: "resps ?h = resps h" by (simp add: resps_def)
    have "fst (req_key r) = mem_operand r" by (simp add: req_key_def)
    then have "hmc_matched due ?h" using inv(5) add(2) unfolding hmc_matched_def rq by simp
    moreover have "hmc_routed c ?h" using inv(4) unfolding hmc_routed_def rq rs by simp
    moreover have "length rest \<le> queue_depth h"
      using inv(3) capped_nth [OF _ i] Cons unfolding hmc_bounded_def by fastforce
    then have "hmc_bounded ?h" using inv(3) unfolding hmc_bounded_def by (simp add: capped_update)
    moreover have "hmc_shape ?h" using inv(2) unfolding hmc_shape_def by simp
    ultimately have "hmc_inv c due ?h" using add(1) unfolding hmc_inv_def by simp
    with e rs show ?thesis by (intro exI [of _ ?h]) (simp add: crossed_def hmc_time_def)
  next
    case False
    then have "quad_to_vault i h = Inr h" by (auto simp: quad_to_vault_def v)
    with crossed_refl [OF assms(1)] show ?thesis by blast
  qed
qed

lemma link_to_cpu_spec:
  assumes "hmc_inv c due h" and "0 \<le> i" and "i < links h"
  shows "\<exists>h' o1. link_to_cpu i (h, out) = Inr (h', out @ o1) \<and> hmc_inv c due h' \<and> links h' = links h \<and>
    hmc_owed h = hmc_owed h' + mset o1 \<and> hmc_time h' = hmc_time h \<and> logic_clk h' = logic_clk h \<and> hmc_clk h' = hmc_clk h"
proof (cases "link_resp_queues h ! nat i")
  case Nil
  then show ?thesis
    using assms hmc_shapeD(4) [OF hmc_invD(2) [OF assms(1)]] by (simp add: link_to_cpu_def vec_ok)
next
  case (Cons r rest)
  note inv = hmc_invD [OF assms(1)]
  note sh = hmc_shapeD [OF inv(2)]
  have i: "nat i < length (link_resp_queues h)" using assms(2,3) sh(4) by simp
  have v: "vec_at (link_resp_queues h) i = Inr (r # rest)"
    "\<And>x. vec_set (link_resp_queues h) i x = Inr ((link_resp_queues h)[nat i := x])"
    using assms(2,3) sh Cons by (simp_all add: vec_ok)
  show ?thesis
  proof (cases "resp_exit_time r \<le> logic_clk h")
    case True
    let ?h = "h\<lparr>link_resp_queues := (link_resp_queues h)[nat i := rest]\<rparr>"
    have e: "link_to_cpu i (h, out) = Inr (?h, out @ [(resp_id r, resp_type r \<noteq> RD_RS)])"
      using True by (simp add: link_to_cpu_def v)
    have "mset (concat ((link_resp_queues h)[nat i := rest])) + {#r#} = mset (concat (link_resp_queues h))"
      using mset_concat_update [OF i, of rest] Cons by simp
    then have rs: "resps h = add_mset (resp_key r) (resps ?h)"
      by (simp add: resps_def flip: \<open>_ = mset (concat (link_resp_queues h))\<close>)
    have rq: "reqs ?h = reqs h" by (simp add: reqs_def)
    have "hmc_routed c ?h" using inv(4) unfolding hmc_routed_def rq rs by simp
    moreover have "hmc_matched due ?h" using inv(5) unfolding hmc_matched_def rq by simp
    moreover have "length rest \<le> queue_depth h"
      using inv(3) capped_nth [OF _ i] Cons unfolding hmc_bounded_def by fastforce
    then have "hmc_bounded ?h" using inv(3) unfolding hmc_bounded_def by (simp add: capped_update)
    moreover have "hmc_shape ?h" using inv(2) unfolding hmc_shape_def by simp
    ultimately have "hmc_inv c due ?h" using inv(1) unfolding hmc_inv_def by simp
    moreover have "hmc_owed h = hmc_owed ?h + mset [(resp_id r, resp_type r \<noteq> RD_RS)]"
      by (simp add: hmc_owed_def rs resp_key_def)
    ultimately show ?thesis
      unfolding e by (intro exI [of _ ?h] exI [of _ "[(resp_id r, resp_type r \<noteq> RD_RS)]"]) (simp add: hmc_time_def)
  next
    case False
    then have "link_to_cpu i (h, out) = Inr (h, out @ [])" by (simp add: link_to_cpu_def v)
    then show ?thesis using assms(1) by (intro exI [of _ h] exI [of _ "[]"]) simp
  qed
qed

lemma VaultCallback_spec:
  assumes "hmc_inv c (add_mset a due) h"
  shows "\<exists>h'. VaultCallback a h = Inr h' \<and> hmc_inv c due h' \<and> resps h' = resps h \<and> hmc_time h' = hmc_time h \<and>
    logic_clk h' = logic_clk h \<and> hmc_clk h' = hmc_clk h \<and> vaults h' = vaults h"
proof -
  note inv = hmc_invD [OF assms]
  note sh = hmc_shapeD [OF inv(2)]
  let ?P = "\<lambda>e. fst e = a" and ?T = "resp_lookup_table h"
  have "a \<in># mset (map fst ?T)" using inv(5) unfolding hmc_matched_def by simp
  then have "\<exists>e \<in> set ?T. ?P e" by auto
  then obtain e where f: "List.find ?P ?T = Some e"
    by (cases "List.find ?P ?T") (auto simp: find_None_iff)
  let ?r = "snd e"
  have fe: "fst e = a" "e \<in> set ?T" using f by (auto simp: find_Some_iff)
  have m: "mset ?T = add_mset e (mset (erase_first ?P ?T))" by (rule mset_erase_find [OF f])
  have "resp_key ?r \<in># resps h" using fe(2) by (simp add: resps_def)
  then have rq: "0 \<le> resp_quad ?r" "resp_quad ?r < 4"
    using inv(4) unfolding hmc_routed_def resp_key_def by fastforce+
  let ?d = "nat (resp_quad ?r)"
  have d: "?d < length (quad_resp_queues h)" using rq sh(7) by simp
  have v: "vec_at (quad_resp_queues h) (resp_quad ?r) = Inr (quad_resp_queues h ! ?d)"
    "\<And>x. vec_set (quad_resp_queues h) (resp_quad ?r) x = Inr ((quad_resp_queues h)[?d := x])"
    "\<And>x. vec_set (quad_age_counter h) (resp_quad ?r) x = Inr ((quad_age_counter h)[?d := x])"
    using rq sh by (simp_all add: vec_ok)
  let ?h = "h\<lparr>resp_lookup_table := erase_first ?P ?T,
    quad_resp_queues := (quad_resp_queues h)[?d := quad_resp_queues h ! ?d @ [?r]],
    quad_age_counter := (quad_age_counter h)[?d := 1]\<rparr>"
  have e: "VaultCallback a h = Inr ?h" by (simp add: VaultCallback_def f v Let_def)
  have "mset (concat (quad_resp_queues ?h)) = add_mset ?r (mset (concat (quad_resp_queues h)))"
    using mset_concat_update [OF d, of "quad_resp_queues h ! ?d @ [?r]"] by simp
  then have rs: "resps ?h = resps h" by (simp add: resps_def m)
  have rqs: "reqs ?h = reqs h" by (simp add: reqs_def)
  have "hmc_matched due ?h"
    using inv(5) m fe(1) set_erase_first [of ?P ?T] unfolding hmc_matched_def rqs by auto
  moreover have "hmc_routed c ?h" using inv(4) unfolding hmc_routed_def rqs rs by simp
  moreover have "hmc_bounded ?h" using inv(3) unfolding hmc_bounded_def by simp
  moreover have "hmc_shape ?h" using inv(2) aged_push [OF sh(10)] unfolding hmc_shape_def by simp
  ultimately have "hmc_inv c due ?h" using inv(1) unfolding hmc_inv_def by simp
  with e rs show ?thesis by (intro exI [of _ ?h]) (simp add: hmc_time_def)
qed

lemma callbacks_spec:
  assumes "hmc_inv c (mset as + due) h"
  shows "\<exists>h'. foldR VaultCallback as h = Inr h' \<and> crossed c due h h' \<and> vaults h' = vaults h"
  using assms
proof (induction as arbitrary: h)
  case Nil
  then show ?case using crossed_refl by simp
next
  case (Cons a as)
  then have "hmc_inv c (add_mset a (mset as + due)) h" by simp
  then obtain h1 where h1: "VaultCallback a h = Inr h1" "hmc_inv c (mset as + due) h1" "resps h1 = resps h"
      "hmc_time h1 = hmc_time h" "logic_clk h1 = logic_clk h" "hmc_clk h1 = hmc_clk h" "vaults h1 = vaults h"
    using VaultCallback_spec by blast
  obtain h2 where "foldR VaultCallback as h1 = Inr h2" "crossed c due h1 h2" "vaults h2 = vaults h1"
    using Cons.IH [OF h1(2)] by blast
  with h1 show ?case by (simp add: crossed_def)
qed

text \<open>The arbitration loops: each source is served once, and serving one leaves the others.\<close>

lemma link_arbitration:
  assumes "hmc_inv c due h" and "distinct is"
    and "\<forall>i \<in> set is. 0 \<le> i \<and> i < links h \<and> link_req_queues h ! nat i \<noteq> []"
  shows "\<exists>h'. foldR link_to_quad is h = Inr h' \<and> crossed c due h h'"
  using assms
proof (induction "is" arbitrary: h)
  case Nil
  then show ?case using crossed_refl by simp
next
  case (Cons i "is")
  then obtain h1 where h1: "link_to_quad i h = Inr h1" "crossed c due h h1" "links h1 = links h"
      "\<forall>j. j \<noteq> nat i \<longrightarrow> link_req_queues h1 ! j = link_req_queues h ! j"
    using link_to_quad_spec [of c due h i] by auto
  have "\<forall>k \<in> set is. 0 \<le> k \<and> k < links h1 \<and> link_req_queues h1 ! nat k \<noteq> []"
  proof
    fix k assume k: "k \<in> set is"
    with Cons.prems have "k \<noteq> i" "0 \<le> k" "0 \<le> i" by auto
    then have "nat k \<noteq> nat i" by simp
    with h1(3,4) Cons.prems(3) k show "0 \<le> k \<and> k < links h1 \<and> link_req_queues h1 ! nat k \<noteq> []" by simp
  qed
  moreover have "hmc_inv c due h1" using h1(2) unfolding crossed_def by blast
  ultimately obtain h2 where "foldR link_to_quad is h1 = Inr h2" "crossed c due h1 h2"
    using Cons.IH [of h1] Cons.prems(2) by auto
  with h1 show ?case using crossed_trans by fastforce
qed

lemma quad_arbitration:
  assumes "hmc_inv c due h" and "distinct is"
    and "\<forall>i \<in> set is. 0 \<le> i \<and> i < 4 \<and> quad_resp_queues h ! nat i \<noteq> []"
  shows "\<exists>h'. foldR quad_to_link is h = Inr h' \<and> crossed c due h h'"
  using assms
proof (induction "is" arbitrary: h)
  case Nil
  then show ?case using crossed_refl by simp
next
  case (Cons i "is")
  then obtain h1 where h1: "quad_to_link i h = Inr h1" "crossed c due h h1"
      "\<forall>j. j \<noteq> nat i \<longrightarrow> quad_resp_queues h1 ! j = quad_resp_queues h ! j"
    using quad_to_link_spec [of c due h i] by auto
  have "\<forall>k \<in> set is. 0 \<le> k \<and> k < 4 \<and> quad_resp_queues h1 ! nat k \<noteq> []"
  proof
    fix k assume k: "k \<in> set is"
    with Cons.prems have "k \<noteq> i" "0 \<le> k" "0 \<le> i" by auto
    then have "nat k \<noteq> nat i" by simp
    with h1(3) Cons.prems(3) k show "0 \<le> k \<and> k < 4 \<and> quad_resp_queues h1 ! nat k \<noteq> []" by simp
  qed
  moreover have "hmc_inv c due h1" using h1(2) unfolding crossed_def by blast
  ultimately obtain h2 where "foldR quad_to_link is h1 = Inr h2" "crossed c due h1 h2"
    using Cons.IH [of h1] Cons.prems(2) by auto
  with h1 show ?case using crossed_trans by fastforce
qed

lemma BuildAgeQueue_aged:
  assumes "aged ages qs" and "0 < length qs" and "length qs < 2 ^ 31"
  shows "\<exists>q. BuildAgeQueue clk ages = Inr q \<and> distinct q \<and>
    (\<forall>i \<in> set q. 0 \<le> i \<and> i < int (length qs) \<and> qs ! nat i \<noteq> [])"
proof -
  have len: "length ages = length qs" using assms(1) unfolding aged_def by (rule conjunct1)
  obtain q where q: "BuildAgeQueue clk ages = Inr q"
      "mset q = mset (filter (\<lambda>i. 0 < ages ! nat i) [0 .. int (length ages) - 1])"
    using BuildAgeQueue_mset [of ages clk] assms(2,3) len by auto
  have "distinct q" using q(2) by (metis distinct_filter distinct_upto mset_eq_imp_distinct_iff)
  moreover have "\<forall>i \<in> set q. 0 \<le> i \<and> i < int (length qs) \<and> qs ! nat i \<noteq> []"
  proof
    fix i assume "i \<in> set q"
    then have "i \<in> set (filter (\<lambda>i. 0 < ages ! nat i) [0 .. int (length ages) - 1])"
      using mset_eq_setD [OF q(2)] by blast
    then have "0 \<le> i" "i < int (length qs)" "0 < ages ! nat i" by (auto simp: len)
    with assms(1) show "0 \<le> i \<and> i < int (length qs) \<and> qs ! nat i \<noteq> []" unfolding aged_def by (simp add: nat_less_iff)
  qed
  ultimately show ?thesis using q(1) by blast
qed

lemma busy_frame:
  assumes "hmc_inv c due h"
  shows "crossed c due h (h\<lparr>quad_busy := drain_busy (quad_busy h)\<rparr>)"
    and "crossed c due h (h\<lparr>link_busy := drain_busy (link_busy h)\<rparr>)"
  using assms unfolding crossed_def hmc_inv_def hmc_shape_def hmc_bounded_def hmc_routed_def hmc_matched_def
    hmc_time_def reqs_def resps_def drain_busy_def by simp_all

lemma DrainRequests_spec:
  assumes "hmc_inv c due h"
  shows "\<exists>h'. DrainRequests h = Inr h' \<and> crossed c due h h'"
proof -
  have "\<exists>h1. foldR quad_to_vault [0, 1, 2, 3] h = Inr h1 \<and> crossed c due h h1"
  proof (rule foldR_total)
    show "crossed c due h h" by (rule crossed_refl [OF assms])
    fix i h0 assume "i \<in> set [0, 1, 2, 3 :: int]" and x: "crossed c due h h0"
    moreover from x have "hmc_inv c due h0" unfolding crossed_def by blast
    ultimately show "\<exists>h1. quad_to_vault i h0 = Inr h1 \<and> crossed c due h h1"
      using quad_to_vault_spec [of c due h0 i] crossed_trans by fastforce
  qed
  then obtain h1 where h1: "foldR quad_to_vault [0, 1, 2, 3] h = Inr h1" "crossed c due h h1" by blast
  let ?h2 = "h1\<lparr>quad_busy := drain_busy (quad_busy h1)\<rparr>"
  have i1: "hmc_inv c due h1" using h1(2) unfolding crossed_def by blast
  note x2 = busy_frame(1) [OF i1]
  have i2: "hmc_inv c due ?h2" using x2 unfolding crossed_def by blast
  note sh = hmc_shapeD [OF hmc_invD(2) [OF i2]]
  have "0 < length (link_req_queues ?h2)" "length (link_req_queues ?h2) < 2 ^ 31"
    unfolding sh(3) using sh(1,2) by (simp_all add: nat_less_iff)
  then obtain q where q: "BuildAgeQueue (logic_clk ?h2) (link_age_counter ?h2) = Inr q" "distinct q"
      "\<forall>i \<in> set q. 0 \<le> i \<and> i < int (length (link_req_queues ?h2)) \<and> link_req_queues ?h2 ! nat i \<noteq> []"
    using BuildAgeQueue_aged [OF sh(9)] by blast
  have "int (length (link_req_queues ?h2)) = links ?h2" using sh(1,3) by simp
  then obtain h3 where "foldR link_to_quad q ?h2 = Inr h3" "crossed c due ?h2 h3"
    using link_arbitration [OF i2 q(2)] q(3) by metis
  then show ?thesis
    using h1 q(1) crossed_trans [OF h1(2) crossed_trans [OF x2]] by (simp add: DrainRequests_def Let_def)
qed

lemma links_to_cpu_spec:
  assumes "hmc_inv c due h" and "\<forall>i \<in> set is. 0 \<le> i \<and> i < links h"
  shows "\<exists>h' o1. foldR link_to_cpu is (h, out) = Inr (h', out @ o1) \<and> hmc_inv c due h' \<and>
    hmc_owed h = hmc_owed h' + mset o1 \<and> hmc_time h' = hmc_time h \<and> logic_clk h' = logic_clk h \<and> hmc_clk h' = hmc_clk h"
  using assms
proof (induction "is" arbitrary: h out)
  case Nil
  then show ?case by simp
next
  case (Cons i "is")
  then obtain h1 o1 where h1: "link_to_cpu i (h, out) = Inr (h1, out @ o1)" "hmc_inv c due h1" "links h1 = links h"
      "hmc_owed h = hmc_owed h1 + mset o1" "hmc_time h1 = hmc_time h" "logic_clk h1 = logic_clk h" "hmc_clk h1 = hmc_clk h"
    using link_to_cpu_spec [of c due h i out] by auto
  have "\<forall>i \<in> set is. 0 \<le> i \<and> i < links h1" using Cons.prems(2) h1(3) by simp
  then obtain h2 o2 where "foldR link_to_cpu is (h1, out @ o1) = Inr (h2, (out @ o1) @ o2)" "hmc_inv c due h2"
      "hmc_owed h1 = hmc_owed h2 + mset o2" "hmc_time h2 = hmc_time h1" "logic_clk h2 = logic_clk h1" "hmc_clk h2 = hmc_clk h1"
    using Cons.IH [OF h1(2)] by blast
  with h1 show ?case by (intro exI [of _ h2] exI [of _ "o1 @ o2"]) simp
qed

lemma crossed_owed: "crossed c due h h' \<Longrightarrow> hmc_owed h' = hmc_owed h"
  by (simp add: crossed_def hmc_owed_def)

lemma DrainResponses_spec:
  assumes "hmc_inv c due h"
  shows "\<exists>h' out. DrainResponses h = Inr (h', out) \<and> hmc_inv c due h' \<and> hmc_owed h = hmc_owed h' + mset out \<and>
    hmc_time h' = hmc_time h \<and> logic_clk h' = logic_clk h \<and> hmc_clk h' = hmc_clk h"
proof -
  obtain h1 out where h1: "foldR link_to_cpu [0 .. links h - 1] (h, []) = Inr (h1, out)" "hmc_inv c due h1"
      "hmc_owed h = hmc_owed h1 + mset out" "hmc_time h1 = hmc_time h" "logic_clk h1 = logic_clk h" "hmc_clk h1 = hmc_clk h"
    using links_to_cpu_spec [OF assms, of "[0 .. links h - 1]" "[]"] by auto
  let ?h2 = "h1\<lparr>link_busy := drain_busy (link_busy h1)\<rparr>"
  note x2 = busy_frame(2) [OF h1(2)]
  have i2: "hmc_inv c due ?h2" using x2 unfolding crossed_def by blast
  note sh = hmc_shapeD [OF hmc_invD(2) [OF i2]]
  have "0 < length (quad_resp_queues ?h2)" "length (quad_resp_queues ?h2) < 2 ^ 31" unfolding sh(7) by simp_all
  then obtain q where q: "BuildAgeQueue (logic_clk ?h2) (quad_age_counter ?h2) = Inr q" "distinct q"
      "\<forall>i \<in> set q. 0 \<le> i \<and> i < int (length (quad_resp_queues ?h2)) \<and> quad_resp_queues ?h2 ! nat i \<noteq> []"
    using BuildAgeQueue_aged [OF sh(10)] by blast
  have "int (length (quad_resp_queues ?h2)) = 4" unfolding sh(7) by simp
  then obtain h3 where h3: "foldR quad_to_link q ?h2 = Inr h3" "crossed c due ?h2 h3"
    using quad_arbitration [OF i2 q(2)] q(3) by metis
  have x3: "crossed c due h1 h3" by (rule crossed_trans [OF x2 h3(2)])
  have "DrainResponses h = Inr (h3, out)" using h1(1) q(1) h3(1) by (simp add: DrainResponses_def Let_def)
  moreover have "hmc_owed h = hmc_owed h3 + mset out" using crossed_owed [OF x3] h1(3) by simp
  ultimately show ?thesis using x3 h1(4-6) unfolding crossed_def by auto
qed

lemma vaults_frame:
  assumes "hmc_inv c due h" and "ctrls_inv c cs" and "image_mset fst (all_owed cs) + due' = image_mset fst (all_owed (vaults h)) + due"
  shows "hmc_inv c due' (h\<lparr>vaults := cs\<rparr>)" and "resps (h\<lparr>vaults := cs\<rparr>) = resps h"
proof -
  note inv = hmc_invD [OF assms(1)]
  let ?h = "h\<lparr>vaults := cs\<rparr>"
  have r: "reqs ?h = reqs h" "resps ?h = resps h" by (simp_all add: reqs_def resps_def)
  show "resps ?h = resps h" by (rule r(2))
  have "hmc_matched due' ?h" using inv(5) assms(3) unfolding hmc_matched_def r by (simp add: add.assoc)
  moreover have "hmc_routed c ?h" using inv(4) unfolding hmc_routed_def r by simp
  moreover have "hmc_bounded ?h" using inv(3) unfolding hmc_bounded_def by simp
  moreover have "hmc_shape ?h" using inv(2) unfolding hmc_shape_def by simp
  ultimately show "hmc_inv c due' ?h" using assms(2) unfolding hmc_inv_def by simp
qed

lemma clock_frame:
  assumes "hmc_inv c due h"
  shows "hmc_inv c due (h\<lparr>hmc_clk := t\<rparr>)" "hmc_inv c due (h\<lparr>dram_ps := t\<rparr>)" "hmc_inv c due (logic_advance h)"
    and "hmc_owed (h\<lparr>hmc_clk := t\<rparr>) = hmc_owed h" "hmc_owed (h\<lparr>dram_ps := t\<rparr>) = hmc_owed h"
    "hmc_owed (logic_advance h) = hmc_owed h"
  using assms unfolding hmc_inv_def hmc_shape_def hmc_bounded_def hmc_routed_def hmc_matched_def
    reqs_def resps_def hmc_owed_def logic_advance_def by simp_all

lemma DRAMClockTick_spec:
  assumes "hmc_inv c {#} h" and "ctl_config c" and "epoch_ok c"
  shows "\<exists>h'. DRAMClockTick c h = Inr h' \<and> hmc_inv c {#} h' \<and> hmc_owed h' = hmc_owed h \<and>
    hmc_time h' = hmc_time h \<and> logic_clk h' = logic_clk h \<and> hmc_clk h' = hmc_clk h + 1"
proof -
  note inv = hmc_invD [OF assms(1)]
  let ?cs = "map (\<lambda>ctl. fst (drain_loop ctl (hmc_clk h))) (vaults h)"
  let ?out = "concat (map (\<lambda>ctl. snd (drain_loop ctl (hmc_clk h))) (vaults h))"
  let ?h = "h\<lparr>vaults := ?cs\<rparr>"
  note dr = ctrls_drain [OF inv(1), of "hmc_clk h"]
  have "image_mset fst (all_owed ?cs) + mset (map fst ?out) = image_mset fst (all_owed (vaults h)) + {#}"
    unfolding dr(2) by simp
  then have "hmc_inv c (mset (map fst ?out)) ?h" and rs: "resps ?h = resps h"
    using vaults_frame [OF assms(1) dr(1)] by blast+
  then obtain h1 where h1: "foldR VaultCallback (map fst ?out) ?h = Inr h1" "crossed c {#} ?h h1" "vaults h1 = ?cs"
    using callbacks_spec [of c "map fst ?out" "{#}" ?h] by auto
  have i1: "hmc_inv c {#} h1" using h1(2) unfolding crossed_def by blast
  obtain ds where ds: "mapR (ctl_ClockTick c) ?cs = Inr ds" "ctrls_inv c ds" "all_owed ds = all_owed ?cs"
    using ctrls_tick [OF dr(1) assms(2)] by blast
  obtain es where es: "base_PrintEpochStats ds = Inr es" "ctrls_inv c es" "all_owed es = all_owed ds"
    using ctrls_epoch [OF ds(2)] by blast
  obtain cs where cs: "(if (hmc_clk h1 + 1) mod of_int (epoch_period c) = 0 then base_PrintEpochStats ds else Inr ds) = Inr cs"
      "ctrls_inv c cs" "all_owed cs = all_owed (vaults h1)"
    using es ds h1(3) by (cases "(hmc_clk h1 + 1) mod of_int (epoch_period c) = 0") auto
  let ?h2 = "h1\<lparr>vaults := cs\<rparr>"
  have i2: "hmc_inv c {#} ?h2" and rs2: "resps ?h2 = resps h1" using vaults_frame [OF i1 cs(2), of "{#}"] cs(3) by auto
  let ?h3 = "h1\<lparr>hmc_clk := hmc_clk h1 + 1, vaults := cs\<rparr>"
  have "?h3 = ?h2\<lparr>hmc_clk := hmc_clk h1 + 1\<rparr>" by simp
  then have i3: "hmc_inv c {#} ?h3" "hmc_owed ?h3 = hmc_owed ?h2"
    using clock_frame(1,4) [OF i2, of "hmc_clk h1 + 1"] by metis+
  have m: "map fst (map (\<lambda>ctl. drain_loop ctl (hmc_clk h)) (vaults h)) = ?cs"
    "map snd (map (\<lambda>ctl. drain_loop ctl (hmc_clk h)) (vaults h)) = map (\<lambda>ctl. snd (drain_loop ctl (hmc_clk h))) (vaults h)"
    by simp_all
  have "DRAMClockTick c h = Inr ?h3"
    using assms(3) unfolding DRAMClockTick_def Let_def m h1(1) bindR_Inr h1(3) ds(1) cs(1) epoch_ok_def by simp
  moreover have "hmc_owed ?h3 = hmc_owed h"
    using i3(2) rs rs2 h1(2) unfolding crossed_def hmc_owed_def by simp
  ultimately show ?thesis using i3(1) h1(2) unfolding crossed_def hmc_time_def by auto
qed

section \<open>Insertion\<close>

definition link_room :: "HMCMemorySystem \<Rightarrow> int \<Rightarrow> bool" where
  "link_room h l \<longleftrightarrow> length (link_req_queues h ! nat l) < queue_depth h"

text \<open>A request that fits the cube, and the response it asks for.\<close>

definition req_fits :: "Config \<Rightarrow> HMCRequest \<Rightarrow> bool \<Rightarrow> bool" where
  "req_fits c r w \<longleftrightarrow> 0 \<le> req_quad r \<and> req_quad r < 4 \<and> 0 \<le> req_vault r \<and> req_vault r < channels c \<and>
     (\<exists>k n. resp_kind (req_type r) = Inr (k, n) \<and> w = (k \<noteq> RD_RS))"

lemma InsertReqToLink_spec:
  assumes "hmc_inv c {#} h" and "req_fits c r w" and "0 \<le> l" and "l < links h"
  shows "if link_room h l
    then \<exists>h'. InsertReqToLink h r l = Inr (True, h') \<and> hmc_inv c {#} h' \<and> hmc_time h' = hmc_time h \<and>
        links h' = links h \<and> next_link h' = next_link h \<and> hmc_owed h' = add_mset (mem_operand r, w) (hmc_owed h)
    else InsertReqToLink h r l = Inr (False, h)"
proof -
  note inv = hmc_invD [OF assms(1)]
  note sh = hmc_shapeD [OF inv(2)]
  have i: "nat l < length (link_req_queues h)" using assms(3,4) sh(3) by simp
  have v: "vec_at (link_req_queues h) l = Inr (link_req_queues h ! nat l)"
    "\<And>x. vec_set (link_req_queues h) l x = Inr ((link_req_queues h)[nat l := x])"
    "\<And>x. vec_set (link_age_counter h) l x = Inr ((link_age_counter h)[nat l := x])"
    using assms(3,4) sh by (simp_all add: vec_ok)
  show ?thesis
  proof (cases "link_room h l")
    case True
    obtain k n where k: "resp_kind (req_type r) = Inr (k, n)" "w = (k \<noteq> RD_RS)"
      using assms(2) unfolding req_fits_def by blast
    let ?rs = "\<lparr>resp_id = mem_operand r, resp_type = k, resp_link = l, resp_quad = req_quad r, resp_flits = n, resp_exit_time = 0\<rparr>"
    let ?h = "h\<lparr>link_req_queues := (link_req_queues h)[nat l := link_req_queues h ! nat l @ [r\<lparr>req_link := l\<rparr>]],
      resp_lookup_table := resp_lookup_table h @ [(mem_operand r, ?rs)],
      link_age_counter := (link_age_counter h)[nat l := 1], hmc_last_req_clk := hmc_clk h\<rparr>"
    have e: "InsertReqToLink h r l = Inr (True, ?h)"
      using True by (simp add: InsertReqToLink_def v link_room_def mk_HMCResponse_def k(1))
    have "mset (concat (link_req_queues ?h)) = add_mset (r\<lparr>req_link := l\<rparr>) (mset (concat (link_req_queues h)))"
      using mset_concat_update [OF i, of "link_req_queues h ! nat l @ [r\<lparr>req_link := l\<rparr>]"] by simp
    then have rq: "reqs ?h = add_mset (req_key r) (reqs h)" by (simp add: reqs_def)
    have rs: "resps ?h = add_mset (resp_key ?rs) (resps h)" by (simp add: resps_def)
    have "hmc_routed c ?h"
      using inv(4) assms(2-4) unfolding hmc_routed_def rq rs req_fits_def by (simp add: req_key_def resp_key_def)
    moreover have "hmc_matched {#} ?h"
      using inv(5) unfolding hmc_matched_def rq by (auto simp: req_key_def)
    moreover have "hmc_bounded ?h"
      using inv(3) True unfolding hmc_bounded_def link_room_def by (simp add: capped_update)
    moreover have "hmc_shape ?h" using inv(2) aged_push [OF sh(9)] unfolding hmc_shape_def by simp
    ultimately have "hmc_inv c {#} ?h" using inv(1) unfolding hmc_inv_def by simp
    moreover have "hmc_owed ?h = add_mset (mem_operand r, w) (hmc_owed h)"
      by (simp add: hmc_owed_def rs resp_key_def k(2))
    ultimately show ?thesis using True e by (simp add: hmc_time_def)
  next
    case False
    then show ?thesis by (simp add: InsertReqToLink_def v link_room_def)
  qed
qed

lemma IterateNextLink_spec:
  assumes "hmc_inv c due h"
  shows "IterateNextLink h = Inr (h\<lparr>next_link := (next_link h + 1) mod links h\<rparr>)"
    and "crossed c due h (h\<lparr>next_link := (next_link h + 1) mod links h\<rparr>)"
proof -
  note inv = hmc_invD [OF assms]
  note sh = hmc_shapeD [OF inv(2)]
  have "rem_int (next_link h + 1) (links h) = Inr ((next_link h + 1) mod links h)"
    using sh(1,13) by (simp add: rem_int_def c_div_nonneg minus_div_mult_eq_mod)
  then show "IterateNextLink h = Inr (h\<lparr>next_link := (next_link h + 1) mod links h\<rparr>)"
    by (simp add: IterateNextLink_def)
  show "crossed c due h (h\<lparr>next_link := (next_link h + 1) mod links h\<rparr>)"
    using inv sh(1) unfolding crossed_def hmc_inv_def hmc_shape_def hmc_bounded_def hmc_routed_def hmc_matched_def
      hmc_time_def reqs_def resps_def by simp
qed

definition inserted :: "Config \<Rightarrow> HMCRequest \<Rightarrow> bool \<Rightarrow> HMCMemorySystem \<Rightarrow> bool \<Rightarrow> HMCMemorySystem \<Rightarrow> bool" where
  "inserted c r w h ok h' \<longleftrightarrow> hmc_inv c {#} h' \<and> hmc_time h' = hmc_time h \<and>
     hmc_owed h' = (if ok then add_mset (mem_operand r, w) (hmc_owed h) else hmc_owed h)"

lemma InsertReqToLink_next:
  assumes "hmc_inv c {#} h" and "req_fits c r w"
  shows "\<exists>h1 h2. InsertReqToLink h r (next_link h) = Inr (link_room h (next_link h), h1) \<and>
    IterateNextLink h1 = Inr h2 \<and> inserted c r w h (link_room h (next_link h)) h2 \<and> next_link h1 = next_link h \<and>
    (\<not> link_room h (next_link h) \<longrightarrow> h2 = h\<lparr>next_link := (next_link h + 1) mod links h\<rparr>)"
proof -
  note sh = hmc_shapeD [OF hmc_invD(2) [OF assms(1)]]
  note ins = InsertReqToLink_spec [OF assms sh(13,14)]
  show ?thesis
  proof (cases "link_room h (next_link h)")
    case True
    with ins obtain h1 where h1: "InsertReqToLink h r (next_link h) = Inr (True, h1)" "hmc_inv c {#} h1"
        "hmc_time h1 = hmc_time h" "next_link h1 = next_link h" "hmc_owed h1 = add_mset (mem_operand r, w) (hmc_owed h)"
      by auto
    with IterateNextLink_spec [OF h1(2)] True show ?thesis
      unfolding inserted_def crossed_def by (auto simp: hmc_owed_def)
  next
    case False
    with ins IterateNextLink_spec [OF assms(1)] show ?thesis
      unfolding inserted_def crossed_def by (auto simp: hmc_owed_def)
  qed
qed

lemma ex_nat_int: "(\<exists>i < nat n. P i) \<longleftrightarrow> (\<exists>l. 0 \<le> l \<and> l < n \<and> P (nat l))"
proof
  assume "\<exists>i < nat n. P i"
  then obtain i where "i < nat n" "P i" by blast
  then show "\<exists>l. 0 \<le> l \<and> l < n \<and> P (nat l)" by (intro exI [of _ "int i"]) auto
next
  assume "\<exists>l. 0 \<le> l \<and> l < n \<and> P (nat l)"
  then obtain l where "0 \<le> l" "l < n" "P (nat l)" by blast
  then show "\<exists>i < nat n. P i" by (intro exI [of _ "nat l"]) auto
qed

lemma hmc_will_accept_iff:
  assumes "hmc_shape h"
  shows "hmc_WillAcceptTransaction h a w \<longleftrightarrow> (\<exists>l. 0 \<le> l \<and> l < links h \<and> link_room h l)"
proof -
  note sh = hmc_shapeD [OF assms]
  have "hmc_WillAcceptTransaction h a w \<longleftrightarrow> (\<exists>i < length (link_req_queues h). length (link_req_queues h ! i) < queue_depth h)"
    unfolding hmc_WillAcceptTransaction_def list_ex_iff by (metis in_set_conv_nth)
  also have "\<dots> \<longleftrightarrow> (\<exists>l. 0 \<le> l \<and> l < links h \<and> link_room h l)"
    unfolding sh(3) link_room_def by (rule ex_nat_int)
  finally show ?thesis .
qed

lemma insert_loop_spec:
  assumes "hmc_inv c {#} h" and "req_fits c r w" and "0 \<le> start" and "start < links h"
    and "next_link h = (start + int k) mod links h" and "0 < k" and "int k \<le> links h"
    and "\<forall>j < k. \<not> link_room h ((start + int j) mod links h)"
  shows "\<exists>ok h'. insert_loop r start h = Some (Inr (ok, h')) \<and> inserted c r w h ok h' \<and>
    (ok \<longleftrightarrow> (\<exists>l. 0 \<le> l \<and> l < links h \<and> link_room h l))"
  using assms
proof (induction "nat (links h) - k" arbitrary: h k)
  case 0
  then have k: "int k = links h" by simp
  have "next_link h = start" using 0 k by simp
  then have e: "insert_loop r start h = Some (Inr (False, h))" by (simp add: insert_loop.simps [of r start h])
  have "\<not> link_room h l" if l: "0 \<le> l" "l < links h" for l
  proof -
    let ?j = "nat ((l - start) mod links h)"
    have "?j < k" using k l by (simp add: nat_less_iff)
    moreover have "(start + int ?j) mod links h = l" using l by (simp add: mod_simps)
    ultimately show ?thesis using "0.prems"(8) by metis
  qed
  with e show ?case using "0.prems"(1) by (auto simp: inserted_def)
next
  case (Suc m)
  have kl: "int k < links h" using Suc.hyps(2) by simp
  have ne: "start \<noteq> next_link h"
  proof
    assume "start = next_link h"
    then have "(start + int k) mod links h = (start + 0) mod links h" using Suc.prems(3-5) by simp
    then have "int k mod links h = 0 mod links h" by (metis add_diff_cancel_left' mod_diff_left_eq add.right_neutral)
    with kl Suc.prems(6) show False by simp
  qed
  obtain h1 h2 where h: "InsertReqToLink h r (next_link h) = Inr (link_room h (next_link h), h1)"
      "IterateNextLink h1 = Inr h2" "inserted c r w h (link_room h (next_link h)) h2"
      "\<not> link_room h (next_link h) \<longrightarrow> h2 = h\<lparr>next_link := (next_link h + 1) mod links h\<rparr>"
    using InsertReqToLink_next [OF Suc.prems(1,2)] by blast
  note sh = hmc_shapeD [OF hmc_invD(2) [OF Suc.prems(1)]]
  show ?case
  proof (cases "link_room h (next_link h)")
    case True
    then have "insert_loop r start h = Some (Inr (True, h2))"
      using ne h(1,2) by (simp add: insert_loop.simps [of r start h])
    moreover have "\<exists>l. 0 \<le> l \<and> l < links h \<and> link_room h l" using True sh(13,14) by blast
    ultimately show ?thesis using True h(3) by (intro exI [of _ True] exI [of _ h2]) simp
  next
    case False
    with h(4) have h2: "h2 = h\<lparr>next_link := (next_link h + 1) mod links h\<rparr>" by blast
    have e: "insert_loop r start h = insert_loop r start h2"
      using ne h(1,2) False by (simp add: insert_loop.simps [of r start h])
    have fr: "links h2 = links h" "\<And>l. link_room h2 l = link_room h l" "hmc_owed h2 = hmc_owed h" "hmc_time h2 = hmc_time h"
      by (simp_all add: h2 link_room_def hmc_owed_def resps_def hmc_time_def)
    have "hmc_inv c {#} h2" using h(3) unfolding inserted_def by blast
    moreover have "next_link h2 = (start + int (Suc k)) mod links h2"
      using Suc.prems(5) by (simp add: h2 mod_simps ac_simps)
    moreover have "\<forall>j < Suc k. \<not> link_room h2 ((start + int j) mod links h2)"
      using Suc.prems(5,8) False unfolding fr less_Suc_eq by auto
    moreover have "m = nat (links h2) - Suc k" using Suc.hyps(2) by (simp add: fr)
    ultimately obtain ok h' where "insert_loop r start h2 = Some (Inr (ok, h'))" "inserted c r w h2 ok h'"
        "ok \<longleftrightarrow> (\<exists>l. 0 \<le> l \<and> l < links h2 \<and> link_room h2 l)"
      using Suc.hyps(1) [of h2 "Suc k"] Suc.prems(2-4) kl fr(1) by auto
    with e fr show ?thesis unfolding inserted_def by auto
  qed
qed

lemma InsertHMCReq_spec:
  assumes "hmc_inv c {#} h" and "req_fits c r w"
  shows "\<exists>h'. InsertHMCReq h r = Inr (hmc_WillAcceptTransaction h a v, h') \<and>
    inserted c r w h (hmc_WillAcceptTransaction h a v) h'"
proof -
  note sh = hmc_shapeD [OF hmc_invD(2) [OF assms(1)]]
  note acc = hmc_will_accept_iff [OF hmc_invD(2) [OF assms(1)], of a v]
  obtain h1 h2 where h: "InsertReqToLink h r (next_link h) = Inr (link_room h (next_link h), h1)"
      "IterateNextLink h1 = Inr h2" "inserted c r w h (link_room h (next_link h)) h2" "next_link h1 = next_link h"
      "\<not> link_room h (next_link h) \<longrightarrow> h2 = h\<lparr>next_link := (next_link h + 1) mod links h\<rparr>"
    using InsertReqToLink_next [OF assms] by blast
  show ?thesis
  proof (cases "link_room h (next_link h)")
    case True
    then have "InsertHMCReq h r = Inr (True, h2)" by (simp add: InsertHMCReq_def h)
    moreover have "hmc_WillAcceptTransaction h a v" using acc True sh(13,14) by blast
    ultimately show ?thesis using h(3) True by simp
  next
    case False
    with h(5) have h2: "h2 = h\<lparr>next_link := (next_link h + 1) mod links h\<rparr>" by blast
    have fr: "links h2 = links h" "\<And>l. link_room h2 l = link_room h l" "hmc_owed h2 = hmc_owed h" "hmc_time h2 = hmc_time h"
      by (simp_all add: h2 link_room_def hmc_owed_def resps_def hmc_time_def)
    have i2: "hmc_inv c {#} h2" using h(3) unfolding inserted_def by blast
    have "next_link h2 = (next_link h + int 1) mod links h2" "\<forall>j < 1. \<not> link_room h2 ((next_link h + int j) mod links h2)"
      using False sh(13,14) by (simp_all add: h2 fr link_room_def)
    then obtain ok h' where l: "insert_loop r (next_link h) h2 = Some (Inr (ok, h'))" "inserted c r w h2 ok h'"
        "ok \<longleftrightarrow> (\<exists>l. 0 \<le> l \<and> l < links h2 \<and> link_room h2 l)"
      using insert_loop_spec [OF i2 assms(2), of "next_link h" 1] sh(1,13,14) fr(1) by auto
    have "ok = hmc_WillAcceptTransaction h a v" using l(3) acc unfolding fr by blast
    moreover have "InsertHMCReq h r = Inr (ok, h')" using False l(1) by (simp add: InsertHMCReq_def h)
    moreover have "inserted c r w h ok h'" using l(2) unfolding inserted_def fr .
    ultimately show ?thesis by blast
  qed
qed

section \<open>Contract of the cube\<close>

definition hmc_config :: "Config \<Rightarrow> bool" where
  "hmc_config c \<longleftrightarrow> mem_config c \<and> 0 < num_links c \<and> num_links c < 2 ^ 31 \<and>
     block_size c \<in> {0, 32, 64, 128, 256} \<and> (\<exists>d l. SetClockRatio c = Inr (d, l) \<and> 0 < l)"

lemma block_req_type_cases:
  assumes "block_size c \<in> {0, 32, 64, 128, 256}"
  shows "\<exists>t k n m. block_req_type c w = Inr t \<and> req_flit_count t = Inr n \<and> resp_kind t = Inr (k, m) \<and> w = (k \<noteq> RD_RS)"
  using assms by (cases w) (auto simp: block_req_type_def req_flit_count_def resp_kind_def)

lemma hmc_AddTransaction_spec:
  assumes "hmc_inv c {#} h" and "hmc_config c"
  shows "\<exists>h'. hmc_AddTransaction c h a w = Inr (hmc_WillAcceptTransaction h a w, h') \<and> hmc_inv c {#} h' \<and>
    hmc_time h' = hmc_time h \<and>
    hmc_owed h' = (if hmc_WillAcceptTransaction h a w then add_mset (a, w) (hmc_owed h) else hmc_owed h)"
proof -
  obtain t k n m where t: "block_req_type c w = Inr t" "req_flit_count t = Inr n" "resp_kind t = Inr (k, m)" "w = (k \<noteq> RD_RS)"
    using block_req_type_cases [of c w] assms(2) unfolding hmc_config_def by blast
  have "channels_ok c" using assms(2) unfolding hmc_config_def mem_config_def by blast
  then obtain v where v: "GetChannel c a = Inr v" "0 \<le> v" "v < channels c" using channel_of by blast
  obtain r where r: "mk_HMCRequest t a v = Inr r" "mem_operand r = a" "req_type r = t" "req_quad r = v mod 4" "req_vault r = v"
    using v(2) t(2) by (simp add: mk_HMCRequest_def rem_int_def c_div_nonneg minus_div_mult_eq_mod)
  have "req_fits c r w" unfolding req_fits_def r(3-5) using v t(3,4) by auto
  then have ins: "\<exists>h'. InsertHMCReq h r = Inr (hmc_WillAcceptTransaction h a w, h') \<and>
      inserted c r w h (hmc_WillAcceptTransaction h a w) h'" by (rule InsertHMCReq_spec [OF assms(1)])
  have "hmc_AddTransaction c h a w = InsertHMCReq h r" by (simp add: hmc_AddTransaction_def t(1) v(1) r(1))
  then show ?thesis using ins unfolding inserted_def r(2) by metis
qed

text \<open>The clock periods, and room for \<open>n\<close> more cycles before \<open>dram_ps_\<close> reaches \<open>2 ^ 64\<close>.\<close>

definition clocked :: "nat \<Rightarrow> HMCMemorySystem \<Rightarrow> bool" where
  "clocked n h \<longleftrightarrow> ps_per_dram h = 800 \<and> 0 < ps_per_logic h \<and> ps_per_logic h \<le> 800 \<and>
     uint (dram_ps h) + 800 * int n + 1600 \<le> 2 ^ 64"

lemma logic_cycle_spec:
  assumes "hmc_inv c {#} h"
  shows "\<exists>h' out. logic_cycle h = Inr (h', out) \<and> hmc_inv c {#} h' \<and> hmc_owed h = hmc_owed h' + mset out \<and>
    logic_ps h' = logic_ps h + ps_per_logic h \<and> dram_ps h' = dram_ps h \<and>
    ps_per_dram h' = ps_per_dram h \<and> ps_per_logic h' = ps_per_logic h"
proof -
  obtain h1 out where h1: "DrainResponses h = Inr (h1, out)" "hmc_inv c {#} h1" "hmc_owed h = hmc_owed h1 + mset out"
      "hmc_time h1 = hmc_time h"
    using DrainResponses_spec [OF assms] by blast
  obtain h2 where h2: "DrainRequests h1 = Inr h2" "crossed c {#} h1 h2" using DrainRequests_spec [OF h1(2)] by blast
  have i2: "hmc_inv c {#} h2" "hmc_time h2 = hmc_time h" using h2(2) h1(4) unfolding crossed_def by auto
  have "logic_cycle h = Inr (logic_advance h2, out)" by (simp add: logic_cycle_def h1(1) h2(1))
  moreover have "hmc_owed h = hmc_owed (logic_advance h2) + mset out"
    using h1(3) crossed_owed [OF h2(2)] clock_frame(6) [OF i2(1)] by simp
  ultimately show ?thesis
    using clock_frame(3) [OF i2(1)] i2(2) unfolding hmc_time_def by (simp add: logic_advance_def)
qed

lemma logic_loop_returns:
  assumes "hmc_inv c {#} h" and "clocked n h"
  shows "\<exists>h' o1. logic_loop out h = Some (Inr (h', out @ o1)) \<and> hmc_inv c {#} h' \<and> clocked n h' \<and>
    dram_ps h' = dram_ps h \<and> hmc_owed h = hmc_owed h' + mset o1"
  using assms
proof (induction "nat (uint (dram_ps h) + 800 - uint (logic_ps h))" arbitrary: h out rule: less_induct)
  case less
  have ck: "ps_per_dram h = 800" "0 < ps_per_logic h" "ps_per_logic h \<le> 800" "uint (dram_ps h) + 1600 \<le> 2 ^ 64"
    using less.prems(2) unfolding clocked_def by auto
  have p: "0 < uint (ps_per_logic h)" "uint (ps_per_logic h) \<le> 800"
    using ck(2,3) by (simp_all add: word_less_def word_le_def)
  have D: "uint (dram_ps h + 800) = uint (dram_ps h) + 800"
    using ck(4) by (subst uint_add_lem [THEN iffD1]) simp_all
  show ?case
  proof (cases "logic_ps h < dram_ps h + ps_per_dram h")
    case True
    then have l: "uint (logic_ps h) < uint (dram_ps h) + 800" using D ck(1) by (simp add: word_less_def)
    obtain h1 o1 where h1: "logic_cycle h = Inr (h1, o1)" "hmc_inv c {#} h1" "hmc_owed h = hmc_owed h1 + mset o1"
        "logic_ps h1 = logic_ps h + ps_per_logic h" "dram_ps h1 = dram_ps h"
        "ps_per_dram h1 = ps_per_dram h" "ps_per_logic h1 = ps_per_logic h"
      using logic_cycle_spec [OF less.prems(1)] by blast
    have "uint (logic_ps h) + uint (ps_per_logic h) < 2 ^ 64" using l p(2) ck(4) by simp
    then have "uint (logic_ps h1) = uint (logic_ps h) + uint (ps_per_logic h)"
      unfolding h1(4) by (subst uint_add_lem [THEN iffD1]) simp_all
    then have "nat (uint (dram_ps h1) + 800 - uint (logic_ps h1)) < nat (uint (dram_ps h) + 800 - uint (logic_ps h))"
      using l p(1) h1(5) by simp
    moreover have "clocked n h1" using less.prems(2) h1(5-7) unfolding clocked_def by simp
    ultimately obtain h2 o2 where "logic_loop (out @ o1) h1 = Some (Inr (h2, (out @ o1) @ o2))" "hmc_inv c {#} h2"
        "clocked n h2" "dram_ps h2 = dram_ps h1" "hmc_owed h1 = hmc_owed h2 + mset o2"
      using less.hyps [of h1 "out @ o1"] h1(2) by blast
    then show ?thesis
      using True h1 by (intro exI [of _ h2] exI [of _ "o1 @ o2"]) (simp add: logic_loop.simps [of out h])
  next
    case False
    then show ?thesis using less.prems by (intro exI [of _ h] exI [of _ "[]"]) (simp add: logic_loop.simps [of out h])
  qed
qed

lemma hmc_ClockTick_spec:
  assumes "hmc_inv c {#} h" and "hmc_config c" and "clocked (Suc n) h"
  shows "\<exists>h' out. hmc_ClockTick c h = Inr (h', out) \<and> hmc_inv c {#} h' \<and> clocked n h' \<and>
    hmc_owed h = hmc_owed h' + mset out"
proof -
  have cfg: "ctl_config c" "epoch_ok c" using assms(2) unfolding hmc_config_def mem_config_def by blast+
  have "\<exists>h4 out. (if dram_ps h = logic_ps h then
       bindR (DrainResponses h) (\<lambda>(h1, out). bindR (DRAMClockTick c h1) (\<lambda>h2.
       bindR (DrainRequests h2) (\<lambda>h3. Inr (logic_advance h3, out))))
     else bindR (DRAMClockTick c h) (\<lambda>h1. Inr (h1, []))) = Inr (h4, out) \<and> hmc_inv c {#} h4 \<and>
     hmc_owed h = hmc_owed h4 + mset out \<and> dram_ps h4 = dram_ps h \<and>
     ps_per_dram h4 = ps_per_dram h \<and> ps_per_logic h4 = ps_per_logic h"
  proof (cases "dram_ps h = logic_ps h")
    case True
    obtain h1 out where h1: "DrainResponses h = Inr (h1, out)" "hmc_inv c {#} h1" "hmc_owed h = hmc_owed h1 + mset out"
        "hmc_time h1 = hmc_time h"
      using DrainResponses_spec [OF assms(1)] by blast
    obtain h2 where h2: "DRAMClockTick c h1 = Inr h2" "hmc_inv c {#} h2" "hmc_owed h2 = hmc_owed h1" "hmc_time h2 = hmc_time h1"
      using DRAMClockTick_spec [OF h1(2) cfg] by blast
    obtain h3 where h3: "DrainRequests h2 = Inr h3" "crossed c {#} h2 h3" using DrainRequests_spec [OF h2(2)] by blast
    have i3: "hmc_inv c {#} h3" "hmc_time h3 = hmc_time h" using h3(2) h2(4) h1(4) unfolding crossed_def by auto
    have "hmc_owed h = hmc_owed (logic_advance h3) + mset out"
      using h1(3) h2(3) crossed_owed [OF h3(2)] clock_frame(6) [OF i3(1)] by simp
    with True h1 h2 h3 clock_frame(3) [OF i3(1)] i3(2) show ?thesis
      unfolding hmc_time_def by (simp add: logic_advance_def)
  next
    case False
    obtain h1 where h1: "DRAMClockTick c h = Inr h1" "hmc_inv c {#} h1" "hmc_owed h1 = hmc_owed h" "hmc_time h1 = hmc_time h"
      using DRAMClockTick_spec [OF assms(1) cfg] by blast
    with False show ?thesis unfolding hmc_time_def by simp
  qed
  then obtain h4 out where h4: "(if dram_ps h = logic_ps h then
       bindR (DrainResponses h) (\<lambda>(h1, out). bindR (DRAMClockTick c h1) (\<lambda>h2.
       bindR (DrainRequests h2) (\<lambda>h3. Inr (logic_advance h3, out))))
     else bindR (DRAMClockTick c h) (\<lambda>h1. Inr (h1, []))) = Inr (h4, out)" "hmc_inv c {#} h4"
     "hmc_owed h = hmc_owed h4 + mset out" "dram_ps h4 = dram_ps h"
     "ps_per_dram h4 = ps_per_dram h" "ps_per_logic h4 = ps_per_logic h" by blast
  have ck: "clocked (Suc n) h4" using assms(3) h4(4-6) unfolding clocked_def by simp
  obtain h5 o1 where h5: "logic_loop out h4 = Some (Inr (h5, out @ o1))" "hmc_inv c {#} h5" "clocked (Suc n) h5"
      "hmc_owed h4 = hmc_owed h5 + mset o1"
    using logic_loop_returns [OF h4(2) ck] by blast
  let ?h = "h5\<lparr>dram_ps := dram_ps h5 + ps_per_dram h5\<rparr>"
  have "uint (dram_ps h5 + 800) = uint (dram_ps h5) + 800"
    using h5(3) unfolding clocked_def by (subst uint_add_lem [THEN iffD1]) simp_all
  then have "clocked n ?h" using h5(3) unfolding clocked_def by simp
  moreover have "hmc_ClockTick c h = Inr (?h, out @ o1)"
    unfolding hmc_ClockTick_def h4(1) by (simp add: h5(1))
  ultimately show ?thesis
    using clock_frame(2,5) [OF h5(2), of "dram_ps h5 + ps_per_dram h5"] h4(3) h5(4) by (auto simp: add.assoc)
qed

fun hmc_step :: "Config \<Rightarrow> mem_op \<Rightarrow> HMCMemorySystem \<Rightarrow> (HMCMemorySystem \<times> answers \<times> answers) result" where
  "hmc_step c (Submit a w) h =
     (if hmc_WillAcceptTransaction h a w
      then bindR (hmc_AddTransaction c h a w) (\<lambda>(ok, h'). Inr (h', if ok then [(a, w)] else [], []))
      else Inr (h, [], []))"
| "hmc_step c MemTick h = bindR (hmc_ClockTick c h) (\<lambda>(h', out). Inr (h', [], out))"

fun tick_cost :: "mem_op \<Rightarrow> nat" where
  "tick_cost (Submit a w) = 0"
| "tick_cost MemTick = 1"

interpretation hmc_port: metered_port
  "\<lambda>n h. hmc_config c \<and> hmc_inv c {#} h \<and> clocked n h" hmc_owed "hmc_step c" tick_cost for c
proof
  fix x n and h :: HMCMemorySystem
  assume a: "hmc_config c \<and> hmc_inv c {#} h \<and> clocked (tick_cost x + n) h"
  show "\<exists>h' acc out. hmc_step c x h = Inr (h', acc, out) \<and> (hmc_config c \<and> hmc_inv c {#} h' \<and> clocked n h') \<and>
      hmc_owed h + mset acc = hmc_owed h' + mset out"
  proof (cases x)
    case (Submit a w)
    show ?thesis
    proof (cases "hmc_WillAcceptTransaction h a w")
      case True
      with a obtain h' where "hmc_AddTransaction c h a w = Inr (True, h')" "hmc_inv c {#} h'" "hmc_time h' = hmc_time h"
          "hmc_owed h' = add_mset (a, w) (hmc_owed h)"
        using hmc_AddTransaction_spec [of c h a w] by auto
      with a True show ?thesis by (simp add: Submit clocked_def hmc_time_def)
    next
      case False
      with a show ?thesis by (simp add: Submit)
    qed
  next
    case MemTick
    then have "clocked (Suc n) h" using a by simp
    with a obtain h' out where "hmc_ClockTick c h = Inr (h', out)" "hmc_inv c {#} h'" "clocked n h'"
        "hmc_owed h = hmc_owed h' + mset out"
      using hmc_ClockTick_spec [of c h n] by blast
    with a MemTick show ?thesis by simp
  qed
qed

lemma mk_HMCMemorySystem_inv:
  assumes "mk_HMCMemorySystem c = Inr h" and "hmc_config c" and "mk_Refresh c = Inr rf"
    and "0 < refresh_interval rf" and "refresh_interval rf < 2 ^ 64" and "refresh_policy c \<noteq> SIZE_POLICY"
  shows "hmc_inv c {#} h" and "hmc_owed h = {#}" and "800 * n + 1600 \<le> 2 ^ 64 \<Longrightarrow> clocked n h"
proof -
  have geo: "geometry_ok c" and lk: "0 < num_links c" "num_links c < 2 ^ 31"
    using assms(2) unfolding hmc_config_def mem_config_def ctl_config_def by blast+
  obtain d l where dl: "SetClockRatio c = Inr (d, l)" "0 < l" using assms(2) unfolding hmc_config_def by blast
  then have d: "d = 800" "l \<le> 800"
    by (auto simp: SetClockRatio_def Let_def not_less elim!: bindR_InrE split: if_splits)
  obtain cs where cs: "mapR (mk_Controller c) [0 .. channels c - 1] = Inr cs" "0 \<le> channels c" and
    h: "h = \<lparr>hmc_clk = 0, hmc_last_req_clk = 0, vaults = cs, logic_clk = 0,
      ps_per_dram = d, ps_per_logic = l, logic_ps = 0, dram_ps = 0, next_link = 0, links = num_links c,
      queue_depth = unat (of_int (xbar_queue_depth c) :: u64),
      resp_lookup_table = [], link_req_queues = replicate (nat (num_links c)) [],
      link_resp_queues = replicate (nat (num_links c)) [], quad_req_queues = replicate 4 [],
      quad_resp_queues = replicate 4 [], link_busy = replicate (nat (num_links c)) 0,
      quad_busy = [0, 0, 0, 0], link_age_counter = replicate (nat (num_links c)) 0,
      quad_age_counter = [0, 0, 0, 0]\<rparr>"
    using assms(1) dl(1) by (auto simp: mk_HMCMemorySystem_def Let_def elim!: bindR_InrE split: if_splits)
  note c0 = mk_ctrls [OF cs geo assms(3-6)]
  have e: "reqs h = {#}" "resps h = {#}" by (simp_all add: reqs_def resps_def h)
  have "aged [0, 0, 0, 0] (replicate 4 [])"
    using less_Suc_eq by (auto simp: aged_def numeral_eq_Suc)
  then have "hmc_shape h" using lk unfolding hmc_shape_def h by (simp add: aged_def)
  moreover have "hmc_bounded h" by (simp add: hmc_bounded_def capped_def h)
  moreover have "hmc_routed c h" by (simp add: hmc_routed_def e)
  moreover have "hmc_matched {#} h" unfolding hmc_matched_def e using c0(2) by (simp add: h)
  ultimately show "hmc_inv c {#} h" using c0(1) unfolding hmc_inv_def by (simp add: h)
  show "hmc_owed h = {#}" by (simp add: hmc_owed_def e)
  show "clocked n h" if "800 * n + 1600 \<le> 2 ^ 64"
    using that dl(2) d unfolding clocked_def by (simp add: h)
qed

section \<open>A sample cube\<close>

text \<open>The geometry of the emulator's memory, used as the only vault of a cube.\<close>

definition cube_config :: Config where
  "cube_config = ddr4_config\<lparr>protocol := HMC\<rparr>"

lemma cube_mem_config: "mem_config cube_config"
proof -
  have g: "geometry_ok cube_config = geometry_ok ddr4_config" by (simp add: geometry_ok_def cube_config_def)
  have a: "AddressMapping cube_config = AddressMapping ddr4_config"
    by (rule ext) (simp add: AddressMapping_def cube_config_def)
  have "mem_config cube_config = mem_config ddr4_config"
    unfolding mem_config_def ctl_config_def channels_ok_def decodes_def epoch_ok_def g a
    by (simp add: cube_config_def bank_index_def)
  then show ?thesis using ddr4_mem_config by simp
qed

lemma cube_clock: "SetClockRatio cube_config = Inr (800, 533)"
  by (simp add: SetClockRatio_def cube_config_def ddr4_config_def div_int_def c_div_def)

lemma cube_hmc_config: "hmc_config cube_config"
  unfolding hmc_config_def using cube_mem_config cube_clock by (simp add: cube_config_def ddr4_config_def)

lemma cube_refresh_mk:
  "mk_Refresh cube_config = Inr sample_refresh" "0 < refresh_interval sample_refresh"
  "refresh_interval sample_refresh < 2 ^ 64" "refresh_policy cube_config \<noteq> SIZE_POLICY"
  by code_simp+

definition sample_cube :: HMCMemorySystem where
  "sample_cube = projr (mk_HMCMemorySystem cube_config)"

lemma sample_cube_mk: "mk_HMCMemorySystem cube_config = Inr sample_cube"
proof -
  have "mk_CommandQueue cube_config = mk_CommandQueue ddr4_config" by (simp add: mk_CommandQueue_def cube_config_def)
  moreover have "\<not> trans_queue_size cube_config < 0" by (simp add: cube_config_def ddr4_config_def)
  ultimately have "\<exists>ctl. mk_Controller cube_config 0 = Inr ctl"
    using sample_queue0_mk cube_refresh_mk(1) by (simp add: mk_Controller_def Let_def)
  moreover have "IsHMC cube_config" "channels cube_config = 1" "num_links cube_config = 4"
    by (simp_all add: cube_config_def ddr4_config_def IsHMC_def)
  ultimately have "\<exists>h. mk_HMCMemorySystem cube_config = Inr h"
    by (auto simp: mk_HMCMemorySystem_def cube_clock Let_def)
  then show ?thesis by (auto simp: sample_cube_def)
qed

section \<open>Properties\<close>

lemma hmc_run_from_start:
  assumes "mk_HMCMemorySystem c = Inr h" and "hmc_config c" and "mk_Refresh c = Inr rf"
    and "0 < refresh_interval rf" and "refresh_interval rf < 2 ^ 64" and "refresh_policy c \<noteq> SIZE_POLICY"
    and "800 * sum_list (map tick_cost xs) + 1600 \<le> 2 ^ 64"
  shows "\<exists>h' acc out. port_run (hmc_step c) xs h = Inr (h', acc, out) \<and> hmc_inv c {#} h' \<and>
    mset acc = hmc_owed h' + mset out"
proof -
  note st = mk_HMCMemorySystem_inv [OF assms(1-6)]
  have "hmc_config c \<and> hmc_inv c {#} h \<and> clocked (sum_list (map tick_cost xs) + 0) h"
    using assms(2,7) st(1,3) by simp
  from hmc_port.metered_run [OF this] st(2) show ?thesis by auto
qed

text \<open>
  C5: No transaction the cube accepts is lost, answered twice, or answered in the direction it was
  not submitted in. A fresh cube performs any sequence of submissions and clock ticks shorter than
  the range of its picosecond counter: every loop of every tick ends, no packet is taken from
  an empty queue, the callback of a vault always finds its response. The transactions accepted
  are those answered plus the responses still in the table and in the crossbar.
\<close>

theorem hmc_answers_once:
  assumes "mk_HMCMemorySystem c = Inr h" and "hmc_config c" and "mk_Refresh c = Inr rf"
    and "0 < refresh_interval rf" and "refresh_interval rf < 2 ^ 64" and "refresh_policy c \<noteq> SIZE_POLICY"
    and "800 * sum_list (map tick_cost xs) + 1600 \<le> 2 ^ 64"
  shows "\<exists>h' acc out. port_run (hmc_step c) xs h = Inr (h', acc, out) \<and> mset acc = hmc_owed h' + mset out"
  using hmc_run_from_start [OF assms] by blast

theorem hmc_answers_once_witness:
  "\<exists>h' acc out. port_run (hmc_step cube_config) [Submit 64 True, Submit 64 False, MemTick, MemTick] sample_cube =
     Inr (h', acc, out) \<and> mset acc = hmc_owed h' + mset out"
  using hmc_answers_once [OF sample_cube_mk cube_hmc_config cube_refresh_mk,
      of "[Submit 64 True, Submit 64 False, MemTick, MemTick]"] by simp

text \<open>
  C31: Every state the cube reaches is well formed. Packets name links, quadrants and vaults
  that exist; the buffers of the links and the request buffers of the quadrants hold at most
  \<open>xbar_queue_depth\<close> packets; an age counter is positive exactly when its queue is not empty;
  the table holds one response for each request on its way to a vault or in one.
\<close>

theorem hmc_states_well_formed:
  assumes "mk_HMCMemorySystem c = Inr h" and "hmc_config c" and "mk_Refresh c = Inr rf"
    and "0 < refresh_interval rf" and "refresh_interval rf < 2 ^ 64" and "refresh_policy c \<noteq> SIZE_POLICY"
    and "800 * sum_list (map tick_cost xs) + 1600 \<le> 2 ^ 64"
  shows "\<exists>h' acc out. port_run (hmc_step c) xs h = Inr (h', acc, out) \<and>
    hmc_shape h' \<and> hmc_bounded h' \<and> hmc_routed c h' \<and> hmc_matched {#} h'"
  using hmc_run_from_start [OF assms] unfolding hmc_inv_def by blast

theorem hmc_states_well_formed_witness:
  "\<exists>h' acc out. port_run (hmc_step cube_config) [Submit 64 True, MemTick, Submit 128 False] sample_cube =
     Inr (h', acc, out) \<and> hmc_bounded h' \<and> hmc_matched {#} h'"
proof -
  have "800 * sum_list (map tick_cost [Submit 64 True, MemTick, Submit 128 False]) + 1600 \<le> 2 ^ 64" by simp
  from hmc_states_well_formed [OF sample_cube_mk cube_hmc_config cube_refresh_mk this] show ?thesis by blast
qed

text \<open>
  C32: The search for a free link ends, and it finds one whenever there is one: in every well
  formed state \<open>AddTransaction\<close> returns, its loop over the links included, and it accepts
  exactly when \<open>WillAcceptTransaction\<close> says so.
\<close>

theorem hmc_link_search_ends:
  assumes "hmc_config c" and "hmc_inv c {#} h"
  shows "\<exists>h'. hmc_AddTransaction c h a w = Inr (hmc_WillAcceptTransaction h a w, h') \<and> hmc_inv c {#} h'"
  using hmc_AddTransaction_spec [OF assms(2,1)] by blast

theorem hmc_link_search_ends_witness:
  "\<exists>h'. hmc_AddTransaction cube_config sample_cube 4096 True =
     Inr (hmc_WillAcceptTransaction sample_cube 4096 True, h')"
  using hmc_link_search_ends [OF cube_hmc_config mk_HMCMemorySystem_inv(1) [OF sample_cube_mk cube_hmc_config cube_refresh_mk]]
  by blast

text \<open>
  C34: Arbitration forgets no queue and serves none twice: whatever the clock, \<open>BuildAgeQueue\<close>
  lists exactly the positions whose counter is positive, each once.
\<close>

theorem hmc_age_queue_complete:
  assumes "0 < length ages" and "length ages < 2 ^ 31"
  shows "\<exists>q. BuildAgeQueue clk ages = Inr q \<and> distinct q \<and>
    set q = {i. 0 \<le> i \<and> i < int (length ages) \<and> 0 < ages ! nat i}"
proof -
  obtain q where q: "BuildAgeQueue clk ages = Inr q"
      "mset q = mset (filter (\<lambda>i. 0 < ages ! nat i) [0 .. int (length ages) - 1])"
    using BuildAgeQueue_mset [OF assms] by blast
  have "distinct q" using q(2) by (metis distinct_filter distinct_upto mset_eq_imp_distinct_iff)
  moreover have "set q = {i. 0 \<le> i \<and> i < int (length ages) \<and> 0 < ages ! nat i}"
    using mset_eq_setD [OF q(2)] by auto
  ultimately show ?thesis using q(1) by blast
qed

theorem hmc_age_queue_complete_witness:
  "\<exists>q. BuildAgeQueue 7 [2, 0, 5, 1] = Inr q \<and> distinct q \<and>
     set q = {i. 0 \<le> i \<and> i < int (length [2, 0, 5, 1 :: int]) \<and> 0 < [2, 0, 5, 1 :: int] ! nat i}"
  by (rule hmc_age_queue_complete) simp_all

text \<open>
  C38: The order of \<open>BuildAgeQueue\<close> is not that of the ages. Its inner loop compares the age of
  a candidate with the positions in the queue, not with their ages: of two waiting links the
  second is always served first when the clock is even, however long the first has waited.
\<close>

theorem hmc_older_link_waits:
  assumes "0 < a" and "0 < b" and "clk mod 2 = 0"
  shows "BuildAgeQueue clk [a, b] = Inr [1, 0]"
  using assms by (simp add: BuildAgeQueue_def to_int32_def rem_int_def c_div_def vec_at_def upto.simps)

theorem hmc_older_link_waits_witness: "BuildAgeQueue 0 [9, 1] = Inr [1, 0]"
  by (rule hmc_older_link_waits) simp_all

end
