(* ===== verification/Memory_System.thy ===== *)
theory Memory_System
  imports Hmc_System
begin

text \<open>
  \<open>DRAMSIM3/src/memory_system.h\<close> and \<open>memory_system.cc\<close>: the interface to the processor. It
  owns a configuration and the memory that the configuration asks for, a cube or a JEDEC
  memory, and passes every call on.
\<close>

section \<open>The interface\<close>

datatype BaseDRAMSystem = JedecSys JedecDRAMSystem | HmcSys HMCMemorySystem

record MemorySystem =
  ms_config :: Config
  dram_system :: BaseDRAMSystem

definition mk_dram_system :: "Config \<Rightarrow> BaseDRAMSystem result" where
  "mk_dram_system c =
     (if IsHMC c then bindR (mk_HMCMemorySystem c) (\<lambda>h. Inr (HmcSys h))
      else bindR (mk_JedecDRAMSystem c) (\<lambda>js. Inr (JedecSys js)))"

definition mk_MemorySystem :: "INIReader \<Rightarrow> Config \<Rightarrow> MemorySystem result" where
  "mk_MemorySystem reader c0 =
     bindR (mk_Config reader c0) (\<lambda>c.
     bindR (mk_dram_system c) (\<lambda>d. Inr \<lparr>ms_config = c, dram_system = d\<rparr>))"

definition ms_ClockTick :: "MemorySystem \<Rightarrow> (MemorySystem \<times> answers) result" where
  "ms_ClockTick ms =
     (case dram_system ms of
        JedecSys js \<Rightarrow> bindR (js_ClockTick (ms_config ms) js) (\<lambda>(js', out). Inr (ms\<lparr>dram_system := JedecSys js'\<rparr>, out))
      | HmcSys h \<Rightarrow> bindR (hmc_ClockTick (ms_config ms) h) (\<lambda>(h', out). Inr (ms\<lparr>dram_system := HmcSys h'\<rparr>, out)))"

definition GetBusBits :: "MemorySystem \<Rightarrow> int" where
  "GetBusBits ms = bus_width (ms_config ms)"

definition GetBurstLength :: "MemorySystem \<Rightarrow> int" where
  "GetBurstLength ms = BL (ms_config ms)"

definition GetQueueSize :: "MemorySystem \<Rightarrow> int" where
  "GetQueueSize ms = trans_queue_size (ms_config ms)"

definition ms_WillAcceptTransaction :: "MemorySystem \<Rightarrow> u64 \<Rightarrow> bool \<Rightarrow> bool result" where
  "ms_WillAcceptTransaction ms hex w =
     (case dram_system ms of
        JedecSys js \<Rightarrow> js_WillAcceptTransaction (ms_config ms) js hex w
      | HmcSys h \<Rightarrow> Inr (hmc_WillAcceptTransaction h hex w))"

definition ms_AddTransaction :: "MemorySystem \<Rightarrow> u64 \<Rightarrow> bool \<Rightarrow> (bool \<times> MemorySystem) result" where
  "ms_AddTransaction ms hex w =
     (case dram_system ms of
        JedecSys js \<Rightarrow> bindR (js_AddTransaction (ms_config ms) js hex w) (\<lambda>(ok, js'). Inr (ok, ms\<lparr>dram_system := JedecSys js'\<rparr>))
      | HmcSys h \<Rightarrow> bindR (hmc_AddTransaction (ms_config ms) h hex w) (\<lambda>(ok, h'). Inr (ok, ms\<lparr>dram_system := HmcSys h'\<rparr>)))"

definition ms_PrintStats :: "MemorySystem \<Rightarrow> MemorySystem result" where
  "ms_PrintStats ms =
     (case dram_system ms of
        JedecSys js \<Rightarrow> bindR (base_PrintStats (ctrls js)) (\<lambda>cs. Inr (ms\<lparr>dram_system := JedecSys (js\<lparr>ctrls := cs\<rparr>)\<rparr>))
      | HmcSys h \<Rightarrow> bindR (base_PrintStats (vaults h)) (\<lambda>cs. Inr (ms\<lparr>dram_system := HmcSys (h\<lparr>vaults := cs\<rparr>)\<rparr>)))"

definition ms_ResetStats :: "MemorySystem \<Rightarrow> MemorySystem" where
  "ms_ResetStats ms =
     ms\<lparr>dram_system := (case dram_system ms of
        JedecSys js \<Rightarrow> JedecSys (js\<lparr>ctrls := base_ResetStats (ctrls js)\<rparr>)
      | HmcSys h \<Rightarrow> HmcSys (h\<lparr>vaults := base_ResetStats (vaults h)\<rparr>))\<rparr>"

section \<open>Contract\<close>

definition ms_inv :: "nat \<Rightarrow> MemorySystem \<Rightarrow> bool" where
  "ms_inv n ms \<longleftrightarrow>
     (case dram_system ms of
        JedecSys js \<Rightarrow> mem_config (ms_config ms) \<and> ctrls_inv (ms_config ms) (ctrls js)
      | HmcSys h \<Rightarrow> hmc_config (ms_config ms) \<and> hmc_inv (ms_config ms) {#} h \<and> clocked n h)"

definition ms_owed :: "MemorySystem \<Rightarrow> (u64 \<times> bool) multiset" where
  "ms_owed ms = (case dram_system ms of JedecSys js \<Rightarrow> all_owed (ctrls js) | HmcSys h \<Rightarrow> hmc_owed h)"

lemma ms_WillAcceptTransaction_total:
  assumes "ms_inv n ms"
  shows "\<exists>ok. ms_WillAcceptTransaction ms a w = Inr ok"
proof (cases "dram_system ms")
  case (JedecSys js)
  with assms have inv: "mem_config (ms_config ms)" "ctrls_inv (ms_config ms) (ctrls js)" by (simp_all add: ms_inv_def)
  obtain ch where "GetChannel (ms_config ms) a = Inr ch" "0 \<le> ch" "ch < channels (ms_config ms)"
    using inv(1) channel_of unfolding mem_config_def by blast
  with JedecSys inv(2) show ?thesis
    by (simp add: ms_WillAcceptTransaction_def js_WillAcceptTransaction_eq ctrls_inv_def)
qed (simp add: ms_WillAcceptTransaction_def)

lemma ms_AddTransaction_spec:
  assumes "ms_inv n ms" and "ms_WillAcceptTransaction ms a w = Inr True"
  shows "\<exists>ms'. ms_AddTransaction ms a w = Inr (True, ms') \<and> ms_inv n ms' \<and> ms_owed ms' = add_mset (a, w) (ms_owed ms)"
proof (cases "dram_system ms")
  case (JedecSys js)
  with assms(1) have inv: "mem_config (ms_config ms)" "ctrls_inv (ms_config ms) (ctrls js)" by (simp_all add: ms_inv_def)
  obtain ch where ch: "GetChannel (ms_config ms) a = Inr ch" "0 \<le> ch" "ch < channels (ms_config ms)"
    using inv(1) channel_of unfolding mem_config_def by blast
  have len: "length (ctrls js) = nat (channels (ms_config ms))" using inv(2) unfolding ctrls_inv_def by blast
  have "WillAcceptTransaction (ctrls js ! nat ch) a w"
    using assms(2) JedecSys by (simp add: ms_WillAcceptTransaction_def js_WillAcceptTransaction_eq [OF len ch])
  with JedecSys inv(1) ctrls_add [OF inv(2) ch(2,3), of a w] show ?thesis
    by (simp add: ms_AddTransaction_def js_AddTransaction_eq [OF len ch] ms_inv_def ms_owed_def)
next
  case (HmcSys h)
  with assms have inv: "hmc_config (ms_config ms)" "hmc_inv (ms_config ms) {#} h" "clocked n h" "hmc_WillAcceptTransaction h a w"
    by (simp_all add: ms_inv_def ms_WillAcceptTransaction_def)
  obtain h' where h': "hmc_AddTransaction (ms_config ms) h a w = Inr (True, h')" "hmc_inv (ms_config ms) {#} h'"
      "hmc_time h' = hmc_time h" "hmc_owed h' = add_mset (a, w) (hmc_owed h)"
    using hmc_AddTransaction_spec [OF inv(2,1), of a w] inv(4) by auto
  have "clocked n h'" using inv(3) h'(3) by (simp add: clocked_def hmc_time_def)
  with HmcSys h' inv(1) show ?thesis by (simp add: ms_AddTransaction_def ms_inv_def ms_owed_def)
qed

lemma ms_ClockTick_spec:
  assumes "ms_inv (Suc n) ms"
  shows "\<exists>ms' out. ms_ClockTick ms = Inr (ms', out) \<and> ms_inv n ms' \<and> ms_owed ms = ms_owed ms' + mset out"
proof (cases "dram_system ms")
  case (JedecSys js)
  with assms have inv: "mem_config (ms_config ms)" "ctrls_inv (ms_config ms) (ctrls js)" by (simp_all add: ms_inv_def)
  then obtain js' out where "js_ClockTick (ms_config ms) js = Inr (js', out)" "ctrls_inv (ms_config ms) (ctrls js')"
      "all_owed (ctrls js) = all_owed (ctrls js') + mset out"
    using js_ClockTick_spec unfolding mem_config_def by blast
  with JedecSys inv(1) show ?thesis by (simp add: ms_ClockTick_def ms_inv_def ms_owed_def)
next
  case (HmcSys h)
  with assms have inv: "hmc_config (ms_config ms)" "hmc_inv (ms_config ms) {#} h" "clocked (Suc n) h"
    by (simp_all add: ms_inv_def)
  obtain h' out where "hmc_ClockTick (ms_config ms) h = Inr (h', out)" "hmc_inv (ms_config ms) {#} h'" "clocked n h'"
      "hmc_owed h = hmc_owed h' + mset out"
    using hmc_ClockTick_spec [OF inv(2,1,3)] by blast
  with HmcSys inv(1) show ?thesis by (simp add: ms_ClockTick_def ms_inv_def ms_owed_def)
qed

fun ms_step :: "mem_op \<Rightarrow> MemorySystem \<Rightarrow> (MemorySystem \<times> answers \<times> answers) result" where
  "ms_step (Submit a w) ms =
     bindR (ms_WillAcceptTransaction ms a w) (\<lambda>ok.
       if ok then bindR (ms_AddTransaction ms a w) (\<lambda>(_, ms'). Inr (ms', [(a, w)], []))
       else Inr (ms, [], []))"
| "ms_step MemTick ms = bindR (ms_ClockTick ms) (\<lambda>(ms', out). Inr (ms', [], out))"

text \<open>Whichever memory is behind it, the interface keeps the contract of a memory.\<close>

interpretation ms_port: metered_port ms_inv ms_owed ms_step tick_cost
proof
  fix x n ms assume a: "ms_inv (tick_cost x + n) ms"
  show "\<exists>ms' acc out. ms_step x ms = Inr (ms', acc, out) \<and> ms_inv n ms' \<and> ms_owed ms + mset acc = ms_owed ms' + mset out"
  proof (cases x)
    case (Submit hex w)
    obtain ok where "ms_WillAcceptTransaction ms hex w = Inr ok" using ms_WillAcceptTransaction_total [OF a] by blast
    with a Submit ms_AddTransaction_spec [of n ms hex w] show ?thesis by (cases ok) auto
  next
    case MemTick
    then show ?thesis using a ms_ClockTick_spec [of n ms] by auto
  qed
qed

lemma mk_dram_system_inv:
  assumes "mk_dram_system c = Inr d" and "if IsHMC c then hmc_config c else mem_config c"
    and "mk_Refresh c = Inr rf" and "0 < refresh_interval rf" and "refresh_interval rf < 2 ^ 64"
    and "refresh_policy c \<noteq> SIZE_POLICY" and "IsHMC c \<Longrightarrow> 800 * n + 1600 \<le> 2 ^ 64"
  shows "ms_inv n \<lparr>ms_config = c, dram_system = d\<rparr>" and "ms_owed \<lparr>ms_config = c, dram_system = d\<rparr> = {#}"
proof -
  have "ms_inv n \<lparr>ms_config = c, dram_system = d\<rparr> \<and> ms_owed \<lparr>ms_config = c, dram_system = d\<rparr> = {#}"
  proof (cases "IsHMC c")
    case True
    with assms(1) obtain h where h: "mk_HMCMemorySystem c = Inr h" "d = HmcSys h"
      by (auto simp: mk_dram_system_def elim!: bindR_InrE)
    with True assms(2) mk_HMCMemorySystem_inv [OF h(1) _ assms(3-6)] assms(7) show ?thesis
      by (simp add: ms_inv_def ms_owed_def)
  next
    case False
    with assms(1) obtain js where js: "mk_JedecDRAMSystem c = Inr js" "d = JedecSys js"
      by (auto simp: mk_dram_system_def elim!: bindR_InrE)
    have cfg: "mem_config c" "geometry_ok c" using False assms(2) unfolding mem_config_def ctl_config_def by simp_all
    with js mk_JedecDRAMSystem_inv [OF js(1) cfg(2) assms(3-6)] show ?thesis by (simp add: ms_inv_def ms_owed_def)
  qed
  then show "ms_inv n \<lparr>ms_config = c, dram_system = d\<rparr>" "ms_owed \<lparr>ms_config = c, dram_system = d\<rparr> = {#}" by blast+
qed

end
