(* ===== verification/Cosimulation.thy ===== *)
theory Cosimulation
  imports Memory_System
begin

text \<open>
  \<open>DRAMSIM3/src/cosimulation.h\<close> and \<open>cosimulation.cc\<close>: the model that runs beside a
  processor simulation. The complex model asks the memory system and gives each answer back
  to the request it belongs to; the simple one answers after a fixed latency. Requests and
  responses are values; the metadata a request points to is the tag of the bridge.
\<close>

section \<open>Requests and responses\<close>

record CoDRAMRequest =
  co_address :: u64
  co_is_write :: bool
  co_meta :: u32

record CoDRAMResponse =
  co_req :: CoDRAMRequest
  req_time :: u64
  finish_time :: u64
  resp_time :: u64

text \<open>The constructor leaves the two other times unset; they are written before they are read.\<close>

definition mk_CoDRAMResponse :: "CoDRAMRequest \<Rightarrow> u64 \<Rightarrow> CoDRAMResponse" where
  "mk_CoDRAMResponse r t = \<lparr>co_req = r, req_time = t, finish_time = 0, resp_time = 0\<rparr>"

section \<open>The complex model\<close>

record ComplexCoDRAMsim3 =
  dram_clock :: u64
  padding :: u64
  memory :: MemorySystem
  req_list :: "CoDRAMResponse list"
  resp_read_queue :: "CoDRAMResponse list"
  resp_write_queue :: "CoDRAMResponse list"

text \<open>
  The constructor; \<open>memory_exists\<close> says whether the global pointer is set. The frequencies
  are only tested, since the times computed from them are \<open>double\<close>s.
\<close>

definition mk_ComplexCoDRAMsim3 ::
  "bool \<Rightarrow> INIReader \<Rightarrow> Config \<Rightarrow> u64 \<Rightarrow> ComplexCoDRAMsim3 result" where
  "mk_ComplexCoDRAMsim3 memory_exists reader c0 padding_time =
     (if memory_exists then Inl Aborted
      else if ParseError reader < 0 then Inl Aborted
      else
        let protocol = Get reader ''dram_structure'' ''protocol'' ''DDR3''
        in if protocol \<in> {''DDR4'', ''DDR5'', ''DDR3'', ''LPDDR5''} then
             let cpu_freq_i = GetInteger_ini reader ''other'' ''cpu_freq'' 0;
                 dram_freq_i = GetInteger_ini reader ''other'' ''dram_freq'' 0
             in if cpu_freq_i = 0 \<or> dram_freq_i = 0 then Inl Aborted
                else bindR (mk_MemorySystem reader c0) (\<lambda>m.
                  Inr \<lparr>dram_clock = 0, padding = padding_time, memory = m, req_list = [],
                       resp_read_queue = [], resp_write_queue = []\<rparr>)
           else Inl Aborted)"

definition get_clock_ticks :: "ComplexCoDRAMsim3 \<Rightarrow> u64" where
  "get_clock_ticks co = dram_clock co"

text \<open>The callback of the memory: the first request with this address and direction is done.\<close>

definition is_match :: "u64 \<Rightarrow> bool \<Rightarrow> CoDRAMResponse \<Rightarrow> bool" where
  "is_match a w r \<longleftrightarrow> co_address (co_req r) = a \<and> co_is_write (co_req r) = w"

definition callback :: "u64 \<times> bool \<Rightarrow> ComplexCoDRAMsim3 \<Rightarrow> ComplexCoDRAMsim3 result" where
  "callback p co =
     (let addr = fst p; w = snd p
      in case List.find (is_match addr w) (req_list co) of
           None \<Rightarrow> Inl Aborted
         | Some resp \<Rightarrow>
             let now = get_clock_ticks co;
                 resp1 = resp\<lparr>finish_time := req_time resp + (now - req_time resp) + padding co\<rparr>;
                 co1 = co\<lparr>req_list := erase_first (is_match addr w) (req_list co)\<rparr>
             in Inr (if co_is_write (co_req resp1)
                     then co1\<lparr>resp_write_queue := resp_write_queue co1 @ [resp1]\<rparr>
                     else co1\<lparr>resp_read_queue := resp_read_queue co1 @ [resp1]\<rparr>))"

text \<open>
  One cycle of the memory. The callbacks leave the memory alone, so they follow it, in the
  order in which it makes them.
\<close>

definition memory_cycle :: "ComplexCoDRAMsim3 \<Rightarrow> ComplexCoDRAMsim3 result" where
  "memory_cycle co =
     bindR (ms_ClockTick (memory co)) (\<lambda>(m, out). foldR callback out (co\<lparr>memory := m\<rparr>))"

text \<open>
  \<open>tick\<close>. How many cycles of the memory a tick of the processor is worth is the comparison of
  two sums of \<open>double\<close>s; their number \<open>k\<close> is an argument.
\<close>

definition co_tick :: "nat \<Rightarrow> ComplexCoDRAMsim3 \<Rightarrow> ComplexCoDRAMsim3 result" where
  "co_tick k co = foldR (\<lambda>_. memory_cycle) [0..<k] (co\<lparr>dram_clock := dram_clock co + 1\<rparr>)"

definition will_accept :: "ComplexCoDRAMsim3 \<Rightarrow> u64 \<Rightarrow> bool \<Rightarrow> bool result" where
  "will_accept co a w = ms_WillAcceptTransaction (memory co) a w"

definition add_request :: "ComplexCoDRAMsim3 \<Rightarrow> CoDRAMRequest \<Rightarrow> (bool \<times> ComplexCoDRAMsim3) result" where
  "add_request co r =
     bindR (ms_AddTransaction (memory co) (co_address r) (co_is_write r)) (\<lambda>(_, m).
     Inr (True, co\<lparr>memory := m, req_list := req_list co @ [mk_CoDRAMResponse r (get_clock_ticks co)]\<rparr>))"

definition check_response :: "u64 \<Rightarrow> CoDRAMResponse list \<Rightarrow> CoDRAMResponse option \<times> CoDRAMResponse list" where
  "check_response now q =
     (case q of
        [] \<Rightarrow> (None, q)
      | resp # rest \<Rightarrow> if finish_time resp \<le> now then (Some (resp\<lparr>resp_time := now\<rparr>), rest) else (None, q))"

definition check_read_response :: "ComplexCoDRAMsim3 \<Rightarrow> CoDRAMResponse option \<times> ComplexCoDRAMsim3" where
  "check_read_response co =
     (case check_response (get_clock_ticks co) (resp_read_queue co) of (r, q) \<Rightarrow> (r, co\<lparr>resp_read_queue := q\<rparr>))"

definition check_write_response :: "ComplexCoDRAMsim3 \<Rightarrow> CoDRAMResponse option \<times> ComplexCoDRAMsim3" where
  "check_write_response co =
     (case check_response (get_clock_ticks co) (resp_write_queue co) of (r, q) \<Rightarrow> (r, co\<lparr>resp_write_queue := q\<rparr>))"

section \<open>The simple model\<close>

record SimpleCoDRAMsim3 =
  simple_clock :: u64
  simple_latency :: int
  resp_list :: "CoDRAMResponse list"

definition mk_SimpleCoDRAMsim3 :: "int \<Rightarrow> SimpleCoDRAMsim3" where
  "mk_SimpleCoDRAMsim3 l = \<lparr>simple_clock = 0, simple_latency = l, resp_list = []\<rparr>"

definition simple_tick :: "SimpleCoDRAMsim3 \<Rightarrow> SimpleCoDRAMsim3" where
  "simple_tick s = s\<lparr>simple_clock := simple_clock s + 1\<rparr>"

definition simple_will_accept :: "SimpleCoDRAMsim3 \<Rightarrow> u64 \<Rightarrow> bool \<Rightarrow> bool" where
  "simple_will_accept s a w = True"

definition simple_add_request :: "SimpleCoDRAMsim3 \<Rightarrow> CoDRAMRequest \<Rightarrow> bool \<times> SimpleCoDRAMsim3" where
  "simple_add_request s r =
     (let now = simple_clock s;
          resp = (mk_CoDRAMResponse r now)\<lparr>finish_time := now + of_int (simple_latency s)\<rparr>
      in (True, s\<lparr>resp_list := resp_list s @ [resp]\<rparr>))"

definition simple_done :: "u64 \<Rightarrow> bool \<Rightarrow> CoDRAMResponse \<Rightarrow> bool" where
  "simple_done now w r \<longleftrightarrow> co_is_write (co_req r) = w \<and> finish_time r \<le> now"

definition simple_check_response :: "bool \<Rightarrow> SimpleCoDRAMsim3 \<Rightarrow> CoDRAMResponse option \<times> SimpleCoDRAMsim3" where
  "simple_check_response w s =
     (let now = simple_clock s
      in case List.find (simple_done now w) (resp_list s) of
           None \<Rightarrow> (None, s)
         | Some resp \<Rightarrow> (Some (resp\<lparr>resp_time := now\<rparr>),
                        s\<lparr>resp_list := erase_first (simple_done now w) (resp_list s)\<rparr>))"

section \<open>Contract of the complex model\<close>

text \<open>
  The requests the model waits for are the transactions its memory owes, with their
  multiplicities: this is why the callback always finds one.
\<close>

definition co_tag :: "CoDRAMResponse \<Rightarrow> u64 \<times> bool" where
  "co_tag r = (co_address (co_req r), co_is_write (co_req r))"

definition co_sorted :: "ComplexCoDRAMsim3 \<Rightarrow> bool" where
  "co_sorted co \<longleftrightarrow> (\<forall>r \<in> set (resp_read_queue co). \<not> co_is_write (co_req r)) \<and>
     (\<forall>r \<in> set (resp_write_queue co). co_is_write (co_req r))"

definition co_inv :: "nat \<Rightarrow> ComplexCoDRAMsim3 \<Rightarrow> bool" where
  "co_inv n co \<longleftrightarrow> ms_inv n (memory co) \<and> mset (map co_tag (req_list co)) = ms_owed (memory co) \<and> co_sorted co"

definition co_owed :: "ComplexCoDRAMsim3 \<Rightarrow> CoDRAMRequest multiset" where
  "co_owed co = image_mset co_req (mset (req_list co) + mset (resp_read_queue co) + mset (resp_write_queue co))"

lemma is_match_tag: "is_match a w r \<longleftrightarrow> co_tag r = (a, w)"
  by (auto simp: is_match_def co_tag_def)

text \<open>The callbacks of a cycle; \<open>m\<close> is the bag of transactions the memory still owes.\<close>

lemma callback_spec:
  assumes "mset (map co_tag (req_list co)) = add_mset p m" and "co_sorted co"
  shows "\<exists>co'. callback p co = Inr co' \<and> mset (map co_tag (req_list co')) = m \<and>
    memory co' = memory co \<and> co_owed co' = co_owed co \<and> co_sorted co'"
proof -
  let ?P = "is_match (fst p) (snd p)"
  have P: "?P r \<longleftrightarrow> co_tag r = p" for r by (simp add: is_match_tag)
  have "p \<in># mset (map co_tag (req_list co))" unfolding assms(1) by simp
  then have "\<exists>r \<in> set (req_list co). ?P r" unfolding P by auto
  then obtain r where f: "List.find ?P (req_list co) = Some r"
    by (cases "List.find ?P (req_list co)") (auto simp: find_None_iff)
  then have rp: "co_tag r = p" unfolding find_Some_iff P by blast
  note m = mset_erase_find [OF f]
  have ml: "mset (map co_tag (erase_first ?P (req_list co))) = m" using assms(1) m rp by simp
  show ?thesis
  proof (cases "co_is_write (co_req r)")
    case True
    with f ml m assms(2) show ?thesis
      by (simp add: callback_def Let_def get_clock_ticks_def co_owed_def co_sorted_def)
  next
    case False
    with f ml m assms(2) show ?thesis
      by (simp add: callback_def Let_def get_clock_ticks_def co_owed_def co_sorted_def)
  qed
qed

lemma callbacks_total:
  assumes "mset (map co_tag (req_list co)) = m + mset out" and "co_sorted co"
  shows "\<exists>co'. foldR callback out co = Inr co' \<and> mset (map co_tag (req_list co')) = m \<and>
    memory co' = memory co \<and> co_owed co' = co_owed co \<and> co_sorted co'"
  using assms
proof (induction out arbitrary: co)
  case (Cons p out)
  then obtain co1 where c1: "callback p co = Inr co1" "mset (map co_tag (req_list co1)) = m + mset out"
      "memory co1 = memory co" "co_owed co1 = co_owed co" "co_sorted co1"
    using callback_spec [of co p "m + mset out"] by auto
  from Cons.IH [OF c1(2,5)] c1 show ?case by auto
qed simp

lemma memory_cycle_spec:
  assumes "co_inv (Suc n) co"
  shows "\<exists>co'. memory_cycle co = Inr co' \<and> co_inv n co' \<and> co_owed co' = co_owed co"
proof -
  obtain m out where m: "ms_ClockTick (memory co) = Inr (m, out)" "ms_inv n m" "ms_owed (memory co) = ms_owed m + mset out"
    using ms_ClockTick_spec [of n "memory co"] assms unfolding co_inv_def by blast
  have "mset (map co_tag (req_list (co\<lparr>memory := m\<rparr>))) = ms_owed m + mset out"
    using assms m(3) unfolding co_inv_def by simp
  moreover have "co_sorted (co\<lparr>memory := m\<rparr>)" using assms unfolding co_inv_def co_sorted_def by simp
  ultimately obtain co' where "foldR callback out (co\<lparr>memory := m\<rparr>) = Inr co'" "mset (map co_tag (req_list co')) = ms_owed m"
      "memory co' = m" "co_owed co' = co_owed (co\<lparr>memory := m\<rparr>)" "co_sorted co'"
    using callbacks_total [of "co\<lparr>memory := m\<rparr>" "ms_owed m" out] by auto
  with m show ?thesis by (simp add: memory_cycle_def co_inv_def co_owed_def)
qed

lemma co_tick_spec:
  assumes "co_inv (k + n) co"
  shows "\<exists>co'. co_tick k co = Inr co' \<and> co_inv n co' \<and> co_owed co' = co_owed co"
proof -
  have l: "\<exists>co'. foldR (\<lambda>_. memory_cycle) is co = Inr co' \<and> co_inv n co' \<and> co_owed co' = co_owed co"
    if "co_inv (length is + n) co" for "is" :: "nat list" and co
    using that
  proof (induction "is" arbitrary: co)
    case (Cons i "is")
    then obtain co1 where "memory_cycle co = Inr co1" "co_inv (length is + n) co1" "co_owed co1 = co_owed co"
      using memory_cycle_spec [of "length is + n" co] by auto
    with Cons.IH [of co1] show ?case by auto
  qed simp
  have "co_inv (k + n) (co\<lparr>dram_clock := dram_clock co + 1\<rparr>)" using assms by (simp add: co_inv_def co_sorted_def)
  from l [of "[0..<k]", simplified, OF this] show ?thesis by (simp add: co_tick_def co_owed_def)
qed

lemma add_request_spec:
  assumes "co_inv n co" and "will_accept co (co_address r) (co_is_write r) = Inr True"
  shows "\<exists>co'. add_request co r = Inr (True, co') \<and> co_inv n co' \<and> co_owed co' = add_mset r (co_owed co)"
proof -
  obtain m where "ms_AddTransaction (memory co) (co_address r) (co_is_write r) = Inr (True, m)" "ms_inv n m"
      "ms_owed m = add_mset (co_address r, co_is_write r) (ms_owed (memory co))"
    using ms_AddTransaction_spec [of n "memory co"] assms unfolding co_inv_def will_accept_def by blast
  with assms(1) show ?thesis
    by (simp add: add_request_def co_inv_def co_sorted_def co_owed_def co_tag_def mk_CoDRAMResponse_def)
qed

text \<open>The two checks, by direction.\<close>

definition co_check :: "bool \<Rightarrow> ComplexCoDRAMsim3 \<Rightarrow> CoDRAMResponse option \<times> ComplexCoDRAMsim3" where
  "co_check w co = (if w then check_write_response co else check_read_response co)"

lemma co_check_spec:
  assumes "co_inv n co" and "co_check w co = (r, co')"
  shows "co_inv n co' \<and> (case r of None \<Rightarrow> co_owed co' = co_owed co
    | Some resp \<Rightarrow> co_owed co = add_mset (co_req resp) (co_owed co') \<and> co_is_write (co_req resp) = w \<and>
        finish_time resp \<le> dram_clock co)"
  using assms
  by (auto simp: co_check_def check_write_response_def check_read_response_def check_response_def co_inv_def
      co_sorted_def co_owed_def get_clock_ticks_def split: if_splits list.splits prod.splits)

datatype co_op = CoRequest CoDRAMRequest | CoTick nat | CoCheck bool

fun co_step :: "co_op \<Rightarrow> ComplexCoDRAMsim3 \<Rightarrow> (ComplexCoDRAMsim3 \<times> CoDRAMRequest list \<times> CoDRAMRequest list) result" where
  "co_step (CoRequest r) co =
     bindR (will_accept co (co_address r) (co_is_write r)) (\<lambda>ok.
       if ok then bindR (add_request co r) (\<lambda>(_, co'). Inr (co', [r], [])) else Inr (co, [], []))"
| "co_step (CoTick k) co = bindR (co_tick k co) (\<lambda>co'. Inr (co', [], []))"
| "co_step (CoCheck w) co =
     (case co_check w co of (r, co') \<Rightarrow> Inr (co', [], case r of None \<Rightarrow> [] | Some resp \<Rightarrow> [co_req resp]))"

fun co_cost :: "co_op \<Rightarrow> nat" where
  "co_cost (CoRequest r) = 0"
| "co_cost (CoTick k) = k"
| "co_cost (CoCheck w) = 0"

interpretation co_port: metered_port co_inv co_owed co_step co_cost
proof
  fix x n co assume a: "co_inv (co_cost x + n) co"
  show "\<exists>co' acc out. co_step x co = Inr (co', acc, out) \<and> co_inv n co' \<and> co_owed co + mset acc = co_owed co' + mset out"
  proof (cases x)
    case (CoRequest r)
    with a have i: "co_inv n co" by simp
    then obtain ok where "will_accept co (co_address r) (co_is_write r) = Inr ok"
      using ms_WillAcceptTransaction_total unfolding co_inv_def will_accept_def by blast
    with CoRequest i add_request_spec [OF i, of r] show ?thesis by (cases ok) auto
  next
    case (CoTick k)
    with a co_tick_spec [of k n co] show ?thesis by auto
  next
    case (CoCheck w)
    with a have i: "co_inv n co" by simp
    obtain r co' where "co_check w co = (r, co')" by (cases "co_check w co")
    with CoCheck co_check_spec [OF i this] show ?thesis by (cases r) auto
  qed
qed

section \<open>Contract of the simple model\<close>

datatype simple_op = SRequest CoDRAMRequest | STick | SCheck bool

fun simple_step :: "simple_op \<Rightarrow> SimpleCoDRAMsim3 \<Rightarrow> (SimpleCoDRAMsim3 \<times> CoDRAMRequest list \<times> CoDRAMRequest list) result" where
  "simple_step (SRequest r) s = Inr (snd (simple_add_request s r), [r], [])"
| "simple_step STick s = Inr (simple_tick s, [], [])"
| "simple_step (SCheck w) s =
     (case simple_check_response w s of (r, s') \<Rightarrow> Inr (s', [], case r of None \<Rightarrow> [] | Some resp \<Rightarrow> [co_req resp]))"

fun simple_submits :: "simple_op \<Rightarrow> CoDRAMRequest list" where
  "simple_submits (SRequest r) = [r]"
| "simple_submits STick = []"
| "simple_submits (SCheck w) = []"

definition simple_owed :: "SimpleCoDRAMsim3 \<Rightarrow> CoDRAMRequest multiset" where
  "simple_owed s = image_mset co_req (mset (resp_list s))"

text \<open>Every request is due a fixed number of cycles after it was made.\<close>

definition simple_inv :: "int \<Rightarrow> SimpleCoDRAMsim3 \<Rightarrow> bool" where
  "simple_inv l s \<longleftrightarrow> simple_latency s = l \<and> list_all (\<lambda>r. finish_time r = req_time r + of_int l) (resp_list s)"

interpretation simple_port: open_port "simple_inv l" simple_owed simple_step simple_submits for l
proof
  fix s x assume inv: "simple_inv l s"
  show "\<exists>s' acc out. simple_step x s = Inr (s', acc, out) \<and> simple_inv l s' \<and>
      simple_owed s + mset acc = simple_owed s' + mset out"
  proof (cases x)
    case (SRequest r)
    with inv show ?thesis
      by (simp add: simple_add_request_def Let_def simple_inv_def simple_owed_def mk_CoDRAMResponse_def)
  next
    case STick
    with inv show ?thesis by (simp add: simple_tick_def simple_inv_def simple_owed_def)
  next
    case (SCheck w)
    show ?thesis
    proof (cases "List.find (simple_done (simple_clock s) w) (resp_list s)")
      case None
      with inv SCheck show ?thesis by (simp add: simple_check_response_def)
    next
      case (Some r)
      have "list_all (\<lambda>r. finish_time r = req_time r + of_int l) (erase_first (simple_done (simple_clock s) w) (resp_list s))"
        using inv set_erase_first [of "simple_done (simple_clock s) w" "resp_list s"]
        unfolding simple_inv_def list_all_iff by blast
      with inv SCheck Some mset_erase_find [OF Some] show ?thesis
        by (simp add: simple_check_response_def Let_def simple_inv_def simple_owed_def)
    qed
  qed
next
  fix x s s' acc out assume "simple_step x s = Inr (s', acc, out)"
  then show "acc = simple_submits x" by (cases x) (auto split: prod.splits)
qed

section \<open>A sample model\<close>

text \<open>The constructor of the configuration evaluated on the emulator's file.\<close>

lemma ddr4_mk_Config: "mk_Config ddr4_reader ddr4_config = Inr ddr4_config"
  by code_simp

definition sample_memory :: MemorySystem where
  "sample_memory = \<lparr>ms_config = ddr4_config, dram_system = JedecSys sample_jedec\<rparr>"

lemma ddr4_not_hmc: "\<not> IsHMC ddr4_config"
  by (simp add: ddr4_config_def IsHMC_def)

lemma sample_memory_mk: "mk_MemorySystem ddr4_reader ddr4_config = Inr sample_memory"
  using ddr4_not_hmc by (simp add: mk_MemorySystem_def ddr4_mk_Config mk_dram_system_def sample_jedec_mk sample_memory_def)

definition sample_co :: ComplexCoDRAMsim3 where
  "sample_co = \<lparr>dram_clock = 0, padding = 66, memory = sample_memory, req_list = [],
     resp_read_queue = [], resp_write_queue = []\<rparr>"

lemma sample_co_mk: "mk_ComplexCoDRAMsim3 False ddr4_reader ddr4_config 66 = Inr sample_co"
proof -
  have "\<not> ParseError ddr4_reader < 0" "Get ddr4_reader ''dram_structure'' ''protocol'' ''DDR3'' = ''DDR4''"
    "GetInteger_ini ddr4_reader ''other'' ''cpu_freq'' 0 = 3500" "GetInteger_ini ddr4_reader ''other'' ''dram_freq'' 0 = 500"
    by code_simp+
  then show ?thesis by (simp add: mk_ComplexCoDRAMsim3_def sample_memory_mk sample_co_def)
qed

lemma sample_co_config: "ms_config (memory sample_co) = ddr4_config"
  by (simp add: sample_co_def sample_memory_def)

text \<open>The number of ticks in a run, and the time since a request in ticks.\<close>

definition simple_ticks :: "simple_op list \<Rightarrow> nat" where
  "simple_ticks xs = length (filter (\<lambda>x. x = STick) xs)"

lemma simple_ticks_simps [simp]:
  "simple_ticks [] = 0" "simple_ticks (x # xs) = (if x = STick then 1 else 0) + simple_ticks xs"
  "simple_ticks (xs @ ys) = simple_ticks xs + simple_ticks ys"
  by (simp_all add: simple_ticks_def)

text \<open>The clock counts the ticks, and no request is later than the clock.\<close>

definition simple_timed :: "int \<Rightarrow> SimpleCoDRAMsim3 \<Rightarrow> nat \<Rightarrow> bool" where
  "simple_timed l s n \<longleftrightarrow> simple_inv l s \<and> uint (simple_clock s) = int n \<and>
     (\<forall>q \<in> set (resp_list s). uint (req_time q) \<le> int n)"

lemma simple_done_iff:
  assumes "simple_timed l s n" and "q \<in> set (resp_list s)" and "0 \<le> l" and "l + int n < 2 ^ 64"
  shows "simple_done (simple_clock s) w q \<longleftrightarrow> co_is_write (co_req q) = w \<and> uint (req_time q) + l \<le> int n"
proof -
  have q: "finish_time q = req_time q + of_int l" "uint (req_time q) \<le> int n" "uint (simple_clock s) = int n"
    using assms(1,2) unfolding simple_timed_def simple_inv_def list_all_iff by blast+
  then have "uint (finish_time q) = uint (req_time q) + l"
    using assms(3,4) uint_add_of_int [of l "req_time q"] by simp
  with q(3) show ?thesis by (simp add: simple_done_def word_le_def)
qed

text \<open>One step: what it does to the clock and to a request under way.\<close>

lemma simple_step_timed:
  assumes "simple_timed l s n" and "simple_step x s = Inr (s', acc, out)" and "0 \<le> l"
    and "l + int n + 1 < 2 ^ 64"
  shows "simple_timed l s' (n + (if x = STick then 1 else 0))"
    and "q \<in> set (resp_list s) \<Longrightarrow> int n < uint (req_time q) + l \<Longrightarrow> q \<in> set (resp_list s')"
    and "q \<in> set (resp_list s') \<Longrightarrow> q \<in> set (resp_list s) \<or> x = SRequest (co_req q)"
proof -
  have inv: "simple_inv l s'" "uint (simple_clock s) = int n" "\<forall>q \<in> set (resp_list s). uint (req_time q) \<le> int n"
    using simple_port.step_law [of l s x] assms(1,2) unfolding simple_timed_def by auto
  have "simple_timed l s' (n + (if x = STick then 1 else 0)) \<and>
    (q \<in> set (resp_list s) \<longrightarrow> int n < uint (req_time q) + l \<longrightarrow> q \<in> set (resp_list s')) \<and>
    (q \<in> set (resp_list s') \<longrightarrow> q \<in> set (resp_list s) \<or> x = SRequest (co_req q))"
  proof (cases x)
    case (SRequest r)
    with assms(2) inv show ?thesis
      by (auto simp: simple_add_request_def Let_def simple_timed_def mk_CoDRAMResponse_def)
  next
    case STick
    have "uint (simple_clock s + 1) = int n + 1"
      using uint_add_of_int [of 1 "simple_clock s"] inv(2) assms(3,4) by simp
    with STick assms(2) inv show ?thesis by (fastforce simp: simple_tick_def simple_timed_def)
  next
    case (SCheck w)
    let ?p = "simple_done (simple_clock s) w"
    have "simple_clock s' = simple_clock s" "resp_list s' = erase_first ?p (resp_list s) \<or> resp_list s' = resp_list s"
      using SCheck assms(2) by (auto simp: simple_check_response_def Let_def split: option.splits)
    moreover have "q \<in> set (erase_first ?p (resp_list s))" if "q \<in> set (resp_list s)" "int n < uint (req_time q) + l"
      using that simple_done_iff [OF assms(1) that(1) assms(3), of w] assms(4) by (intro erase_first_keeps) auto
    ultimately show ?thesis
      using SCheck inv set_erase_first [of ?p "resp_list s"] by (auto simp: simple_timed_def)
  qed
  then show "simple_timed l s' (n + (if x = STick then 1 else 0))"
    and "q \<in> set (resp_list s) \<Longrightarrow> int n < uint (req_time q) + l \<Longrightarrow> q \<in> set (resp_list s')"
    and "q \<in> set (resp_list s') \<Longrightarrow> q \<in> set (resp_list s) \<or> x = SRequest (co_req q)" by blast+
qed

lemma simple_run_timed:
  assumes "simple_timed l s n" and "port_run simple_step ys s = Inr (s', acc, out)" and "0 \<le> l"
    and "l + int n + int (simple_ticks ys) + 1 < 2 ^ 64"
  shows "simple_timed l s' (n + simple_ticks ys)"
    and "q \<in> set (resp_list s) \<Longrightarrow> int n + int (simple_ticks ys) < uint (req_time q) + l \<Longrightarrow> q \<in> set (resp_list s')"
    and "q \<in> set (resp_list s') \<Longrightarrow> q \<in> set (resp_list s) \<or> SRequest (co_req q) \<in> set ys"
proof -
  have "simple_timed l s' (n + simple_ticks ys) \<and>
    (q \<in> set (resp_list s) \<longrightarrow> int n + int (simple_ticks ys) < uint (req_time q) + l \<longrightarrow> q \<in> set (resp_list s')) \<and>
    (q \<in> set (resp_list s') \<longrightarrow> q \<in> set (resp_list s) \<or> SRequest (co_req q) \<in> set ys)"
    using assms(1,2,4)
  proof (induction ys arbitrary: s n acc out)
    case (Cons x ys)
    obtain s1 acc1 out1 acc2 out2 where s1: "simple_step x s = Inr (s1, acc1, out1)"
        "port_run simple_step ys s1 = Inr (s', acc2, out2)"
      using Cons.prems(2) by (auto elim!: bindR_InrE)
    have b: "l + int n + 1 < 2 ^ 64" using Cons.prems(3) by (auto split: if_splits)
    note st = simple_step_timed [OF Cons.prems(1) s1(1) assms(3) b]
    have "simple_timed l s1 (n + (if x = STick then 1 else 0))" by (rule st(1))
    from Cons.IH [OF this s1(2)] Cons.prems(3) st(2,3) [of q] show ?case
      by (cases "x = STick") (auto simp: ac_simps)
  qed simp
  then show "simple_timed l s' (n + simple_ticks ys)"
    and "q \<in> set (resp_list s) \<Longrightarrow> int n + int (simple_ticks ys) < uint (req_time q) + l \<Longrightarrow> q \<in> set (resp_list s')"
    and "q \<in> set (resp_list s') \<Longrightarrow> q \<in> set (resp_list s) \<or> SRequest (co_req q) \<in> set ys" by blast+
qed

text \<open>A request made after any run, and any run after it.\<close>

lemma simple_request_run:
  assumes "0 \<le> l" and "l + int (simple_ticks xs) + int (simple_ticks ys) + 1 < 2 ^ 64"
    and "port_run simple_step (xs @ SRequest r # ys) (mk_SimpleCoDRAMsim3 l) = Inr (s, acc, out)"
  shows "simple_timed l s (simple_ticks xs + simple_ticks ys)"
    and "int (simple_ticks ys) < l \<Longrightarrow> r \<in># simple_owed s"
    and "SRequest r \<notin> set ys \<Longrightarrow> q \<in> set (resp_list s) \<Longrightarrow> co_req q = r \<Longrightarrow> uint (req_time q) \<le> int (simple_ticks xs)"
proof -
  let ?n = "simple_ticks xs"
  obtain s1 acc1 out1 acc2 out2 where x: "port_run simple_step xs (mk_SimpleCoDRAMsim3 l) = Inr (s1, acc1, out1)"
      and y: "port_run simple_step ys (snd (simple_add_request s1 r)) = Inr (s, acc2, out2)"
    using assms(3) by (auto simp: port_run_append elim!: bindR_InrE)
  have "simple_timed l (mk_SimpleCoDRAMsim3 l) 0"
    by (simp add: simple_timed_def simple_inv_def mk_SimpleCoDRAMsim3_def)
  from simple_run_timed(1) [OF this x assms(1)] have s1: "simple_timed l s1 ?n" using assms(2) by simp
  let ?s2 = "snd (simple_add_request s1 r)"
  have b: "l + int ?n + 1 < 2 ^ 64" "l + int ?n + int (simple_ticks ys) + 1 < 2 ^ 64" using assms(2) by simp_all
  have s2: "simple_timed l ?s2 ?n"
    using simple_step_timed(1) [OF s1, of "SRequest r"] assms(1) b(1) by simp
  note run = simple_run_timed [OF s2 y assms(1) b(2)]
  show "simple_timed l s (?n + simple_ticks ys)" by (rule run(1))
  have "\<exists>q0 \<in> set (resp_list ?s2). co_req q0 = r \<and> req_time q0 = simple_clock s1"
    by (simp add: simple_add_request_def Let_def mk_CoDRAMResponse_def)
  then obtain q0 where q0: "q0 \<in> set (resp_list ?s2)" "co_req q0 = r" "req_time q0 = simple_clock s1" by blast
  then have "uint (req_time q0) = int ?n" using s1 by (simp add: simple_timed_def)
  then show "r \<in># simple_owed s" if "int (simple_ticks ys) < l"
    using run(2) [OF q0(1)] that q0(2) by (auto simp: simple_owed_def)
  show "uint (req_time q) \<le> int ?n" if "SRequest r \<notin> set ys" "q \<in> set (resp_list s)" "co_req q = r"
    using run(3) [OF that(2)] that s2 by (auto simp: simple_timed_def)
qed

section \<open>Properties\<close>

lemma mk_ComplexCoDRAMsim3_inv:
  assumes "mk_ComplexCoDRAMsim3 ex reader c0 pad = Inr co" and "c = ms_config (memory co)"
    and "mem_config c" and "\<not> IsHMC c" and "mk_Refresh c = Inr rf"
    and "0 < refresh_interval rf" and "refresh_interval rf < 2 ^ 64" and "refresh_policy c \<noteq> SIZE_POLICY"
  shows "co_inv n co" and "co_owed co = {#}"
proof -
  obtain m where m: "mk_MemorySystem reader c0 = Inr m" and
      co: "co = \<lparr>dram_clock = 0, padding = pad, memory = m, req_list = [], resp_read_queue = [], resp_write_queue = []\<rparr>"
    using assms(1) by (auto simp: mk_ComplexCoDRAMsim3_def Let_def elim!: bindR_InrE split: if_splits)
  obtain c1 d where "mk_dram_system c1 = Inr d" and md: "m = \<lparr>ms_config = c1, dram_system = d\<rparr>"
    using m by (auto simp: mk_MemorySystem_def elim!: bindR_InrE)
  then have d: "mk_dram_system c = Inr d" and mc: "m = \<lparr>ms_config = c, dram_system = d\<rparr>"
    using assms(2) co by simp_all
  have "if IsHMC c then hmc_config c else mem_config c" using assms(3,4) by simp
  from mk_dram_system_inv [OF d this assms(5-8), of n] assms(4)
  have "ms_inv n m" "ms_owed m = {#}" unfolding mc by blast+
  then show "co_inv n co" "co_owed co = {#}" by (simp_all add: co co_inv_def co_sorted_def co_owed_def)
qed

text \<open>
  C7: No request is lost, answered twice or made up. A fresh model performs any
  sequence of requests, ticks and checks for responses; the callback always finds the request
  a completed transaction belongs to, so \<open>INTERNAL ERROR\<close> is never reached. The requests
  accepted are those handed back plus those under way; that these are answered in the end is
  not part of the statement. The memory is not a cube, and self refresh and dual commands are
  off.
\<close>

theorem cosim_answers_once:
  assumes "mk_ComplexCoDRAMsim3 ex reader c0 pad = Inr co" and "c = ms_config (memory co)"
    and "mem_config c" and "\<not> IsHMC c" and "mk_Refresh c = Inr rf"
    and "0 < refresh_interval rf" and "refresh_interval rf < 2 ^ 64" and "refresh_policy c \<noteq> SIZE_POLICY"
  shows "\<exists>co' acc out. port_run co_step xs co = Inr (co', acc, out) \<and> mset acc = co_owed co' + mset out"
  using co_port.metered_run [OF mk_ComplexCoDRAMsim3_inv(1) [OF assms], of xs 0] mk_ComplexCoDRAMsim3_inv(2) [OF assms]
  by auto

theorem cosim_answers_once_witness:
  "\<exists>co' acc out. port_run co_step
       [CoRequest \<lparr>co_address = 64, co_is_write = False, co_meta = 7\<rparr>, CoTick 2, CoCheck False] sample_co =
     Inr (co', acc, out) \<and> mset acc = co_owed co' + mset out"
  using cosim_answers_once [OF sample_co_mk sample_co_config [symmetric] ddr4_mem_config ddr4_not_hmc sample_refresh_mk]
  by blast

text \<open>
  C40: The simple model answers reads and writes alike after the latency, and neither at once. A
  request made after any run is still owed, whatever follows, until the clock has
  ticked the latency; once it has, and the request is still owed and was not made again,
  asking for a response of its direction returns one. The requests made are those answered
  plus those still owed.
\<close>

theorem simple_model_delays_writes:
  assumes "0 \<le> l" and "l + int (simple_ticks xs) + int (simple_ticks ys) + 1 < 2 ^ 64"
  shows "\<exists>s acc out. port_run simple_step (xs @ SRequest r # ys) (mk_SimpleCoDRAMsim3 l) = Inr (s, acc, out) \<and>
    mset (concat (map simple_submits (xs @ SRequest r # ys))) = simple_owed s + mset out \<and>
    (int (simple_ticks ys) < l \<longrightarrow> r \<in># simple_owed s) \<and>
    (l \<le> int (simple_ticks ys) \<longrightarrow> SRequest r \<notin> set ys \<longrightarrow> r \<in># simple_owed s \<longrightarrow>
       fst (simple_check_response (co_is_write r) s) \<noteq> None)"
proof -
  let ?xs = "xs @ SRequest r # ys" and ?m = "mk_SimpleCoDRAMsim3 l"
  have "simple_inv l ?m" "simple_owed ?m = {#}"
    by (simp_all add: simple_inv_def simple_owed_def mk_SimpleCoDRAMsim3_def)
  then obtain s acc out where s: "port_run simple_step ?xs ?m = Inr (s, acc, out)"
      "mset (concat (map simple_submits ?xs)) = simple_owed s + mset out"
    using simple_port.run_answers_all [of l ?m ?xs] by auto
  note run = simple_request_run [OF assms s(1)]
  have "fst (simple_check_response (co_is_write r) s) \<noteq> None"
    if due: "l \<le> int (simple_ticks ys)" "SRequest r \<notin> set ys" "r \<in># simple_owed s"
  proof -
    obtain q where q: "q \<in> set (resp_list s)" "co_req q = r" using due(3) by (auto simp: simple_owed_def)
    have "simple_done (simple_clock s) (co_is_write r) q"
      using simple_done_iff [OF run(1) q(1) assms(1)] run(3) [OF due(2) q] q(2) due(1) assms(2) by simp
    then have "List.find (simple_done (simple_clock s) (co_is_write r)) (resp_list s) \<noteq> None"
      using q(1) by (auto simp: find_None_iff)
    then show ?thesis by (auto simp: simple_check_response_def Let_def)
  qed
  with s run(2) show ?thesis by blast
qed

definition early_read :: CoDRAMRequest where
  "early_read = \<lparr>co_address = 64, co_is_write = False, co_meta = 1\<rparr>"

definition later_write :: CoDRAMRequest where
  "later_write = \<lparr>co_address = 64, co_is_write = True, co_meta = 0\<rparr>"

theorem simple_model_delays_writes_witness:
  "(\<exists>s acc out. port_run simple_step ([SRequest early_read, STick] @ SRequest later_write # [STick, SCheck True])
       (mk_SimpleCoDRAMsim3 2) = Inr (s, acc, out) \<and> later_write \<in># simple_owed s) \<and>
   (\<exists>s acc. port_run simple_step ([SRequest early_read, STick] @ SRequest later_write # [STick, STick])
       (mk_SimpleCoDRAMsim3 2) = Inr (s, acc, []) \<and> fst (simple_check_response True s) \<noteq> None)"
proof
  let ?xs = "[SRequest early_read, STick]"
  have h: "(0 :: int) \<le> 2" "2 + int (simple_ticks ?xs) + int (simple_ticks [STick, SCheck True]) + 1 < 2 ^ 64"
    "2 + int (simple_ticks ?xs) + int (simple_ticks [STick, STick]) + 1 < 2 ^ 64"
    "int (simple_ticks [STick, SCheck True]) < 2" by simp_all
  show "\<exists>s acc out. port_run simple_step (?xs @ SRequest later_write # [STick, SCheck True])
       (mk_SimpleCoDRAMsim3 2) = Inr (s, acc, out) \<and> later_write \<in># simple_owed s"
    using simple_model_delays_writes [OF h(1,2), of later_write] h(4) by blast
  obtain s acc where s: "port_run simple_step (?xs @ SRequest later_write # [STick, STick]) (mk_SimpleCoDRAMsim3 2) =
      Inr (s, acc, [])" by simp
  obtain s' acc' out' where t: "port_run simple_step (?xs @ SRequest later_write # [STick, STick]) (mk_SimpleCoDRAMsim3 2) =
      Inr (s', acc', out')" "mset (concat (map simple_submits (?xs @ SRequest later_write # [STick, STick]))) =
      simple_owed s' + mset out'" "later_write \<in># simple_owed s' \<longrightarrow> fst (simple_check_response (co_is_write later_write) s') \<noteq> None"
    using simple_model_delays_writes [OF h(1,3), of later_write] by (auto simp del: port_run.simps append.simps)
  have o: "s' = s" "out' = []" using s t(1) by simp_all
  then have "later_write \<in># simple_owed s" using arg_cong [OF t(2), of "\<lambda>m. later_write \<in># m"] by simp
  with s t(3) o show "\<exists>s acc. port_run simple_step (?xs @ SRequest later_write # [STick, STick])
       (mk_SimpleCoDRAMsim3 2) = Inr (s, acc, []) \<and> fst (simple_check_response True s) \<noteq> None"
    by (auto simp: later_write_def simp del: port_run.simps append.simps)
qed

end
