(* ===== verification/Ram_Bridge.thy ===== *)
theory Ram_Bridge
  imports Cosimulation
begin

unbundle bit_operations_syntax

text \<open>
  \<open>src/main/resources/csrc/ram.cc\<close>, the bridge between the simulated processor and the
  memory model: the functions the Verilog side calls to request a transfer, to step the model
  and to fetch the responses, with the two sets of addresses that are under way.
\<close>

section \<open>The bridge\<close>

record Bridge =
  dram :: "ComplexCoDRAMsim3 option"
  dram_step_count :: u64
  read_addrs_outstanding :: "u64 set"
  write_addrs_outstanding :: "u64 set"

definition DRAM_RESET_SETTLE_TICKS :: u64 where
  "DRAM_RESET_SETTLE_TICKS = 200"

text \<open>
  \<open>dramsim3_init\<close> with the parsed configuration file; \<open>None\<close> when the file cannot be opened.
  The padding is the default argument of the constructor.
\<close>

definition dramsim3_init :: "Bridge \<Rightarrow> INIReader option \<Rightarrow> Config \<Rightarrow> Bridge result" where
  "dramsim3_init b file c0 =
     (if dram b \<noteq> None then Inl AssertFailed
      else case file of
        None \<Rightarrow> Inl (Exit 1)
      | Some reader \<Rightarrow> bindR (mk_ComplexCoDRAMsim3 False reader c0 66) (\<lambda>co. Inr (b\<lparr>dram := Some co\<rparr>)))"

definition dramsim3_step :: "Bridge \<Rightarrow> nat \<Rightarrow> Bridge result" where
  "dramsim3_step b k =
     (case dram b of
        None \<Rightarrow> Inr b
      | Some co \<Rightarrow> bindR (co_tick k co) (\<lambda>co'.
          Inr (b\<lparr>dram_step_count := dram_step_count b + 1, dram := Some co'\<rparr>)))"

definition dramsim3_finish :: "Bridge \<Rightarrow> Bridge result" where
  "dramsim3_finish b =
     (case dram b of
        None \<Rightarrow> Inr b
      | Some co \<Rightarrow> bindR (ms_PrintStats (memory co)) (\<lambda>_. Inr (b\<lparr>dram := None\<rparr>)))"

definition memory_response :: "Bridge \<Rightarrow> bool \<Rightarrow> u64 \<times> Bridge" where
  "memory_response b w =
     (case dram b of
        None \<Rightarrow> (0, b)
      | Some co \<Rightarrow>
          (case (if w then check_write_response co else check_read_response co) of (response, co') \<Rightarrow>
             (case response of
                None \<Rightarrow> (0, b\<lparr>dram := Some co'\<rparr>)
              | Some resp \<Rightarrow>
                  let a = co_address (co_req resp);
                      b1 = b\<lparr>dram := Some co'\<rparr>
                  in (ucast (co_meta (co_req resp)) OR push_bit 32 1,
                      if w then b1\<lparr>write_addrs_outstanding := write_addrs_outstanding b1 - {a}\<rparr>
                      else b1\<lparr>read_addrs_outstanding := read_addrs_outstanding b1 - {a}\<rparr>))))"

definition memory_request :: "Bridge \<Rightarrow> u64 \<Rightarrow> u32 \<Rightarrow> bool \<Rightarrow> (bool \<times> Bridge) result" where
  "memory_request b a i w =
     (case dram b of
        None \<Rightarrow> Inr (False, b)
      | Some co \<Rightarrow>
          if dram_step_count b < DRAM_RESET_SETTLE_TICKS then Inr (False, b)
          else if a \<in> (if w then write_addrs_outstanding b else read_addrs_outstanding b) then Inr (False, b)
          else bindR (will_accept co a w) (\<lambda>ok.
            if ok then
              bindR (add_request co \<lparr>co_address = a, co_is_write = w, co_meta = i\<rparr>) (\<lambda>(_, co').
              let b1 = b\<lparr>dram := Some co'\<rparr>
              in Inr (True, if w then b1\<lparr>write_addrs_outstanding := insert a (write_addrs_outstanding b1)\<rparr>
                            else b1\<lparr>read_addrs_outstanding := insert a (read_addrs_outstanding b1)\<rparr>))
            else Inr (False, b)))"

section \<open>Contract\<close>

definition bridge_requests :: "Bridge \<Rightarrow> CoDRAMRequest multiset" where
  "bridge_requests b = (case dram b of None \<Rightarrow> {#} | Some co \<Rightarrow> co_owed co)"

text \<open>
  The addresses under way in one direction, each of them once. The two sets of the bridge are
  exactly these, so no two requests of the same direction to one address are ever in the
  memory model together.
\<close>

definition under_way :: "bool \<Rightarrow> CoDRAMRequest multiset \<Rightarrow> u64 multiset" where
  "under_way w rs = image_mset co_address {#r \<in># rs. co_is_write r = w#}"

definition bridge_inv :: "nat \<Rightarrow> Bridge \<Rightarrow> bool" where
  "bridge_inv n b \<longleftrightarrow> (case dram b of None \<Rightarrow> True | Some co \<Rightarrow> co_inv n co) \<and>
     finite (read_addrs_outstanding b) \<and> finite (write_addrs_outstanding b) \<and>
     under_way False (bridge_requests b) = mset_set (read_addrs_outstanding b) \<and>
     under_way True (bridge_requests b) = mset_set (write_addrs_outstanding b)"

text \<open>What the processor sees of a request: its tag and its direction.\<close>

definition bridge_owed :: "Bridge \<Rightarrow> (u32 \<times> bool) multiset" where
  "bridge_owed b = image_mset (\<lambda>r. (co_meta r, co_is_write r)) (bridge_requests b)"

lemma under_way_add: "under_way w (add_mset r rs) = (if co_is_write r = w then add_mset (co_address r) (under_way w rs) else under_way w rs)"
  by (simp add: under_way_def)

lemma memory_request_spec:
  assumes "bridge_inv n b"
  shows "\<exists>ok b'. memory_request b a i w = Inr (ok, b') \<and> bridge_inv n b' \<and>
    bridge_owed b' = (if ok then add_mset (i, w) (bridge_owed b) else bridge_owed b)"
proof (cases "dram b")
  case None
  with assms show ?thesis by (intro exI [of _ False] exI [of _ b]) (simp add: memory_request_def)
next
  case (Some co)
  with assms have inv: "co_inv n co" by (simp add: bridge_inv_def)
  obtain ok where ok: "will_accept co a w = Inr ok"
    using ms_WillAcceptTransaction_total inv unfolding co_inv_def will_accept_def by blast
  let ?r = "\<lparr>co_address = a, co_is_write = w, co_meta = i\<rparr>"
  show ?thesis
  proof (cases "\<not> dram_step_count b < DRAM_RESET_SETTLE_TICKS \<and>
      a \<notin> (if w then write_addrs_outstanding b else read_addrs_outstanding b) \<and> ok")
    case True
    obtain co' where co': "add_request co ?r = Inr (True, co')" "co_inv n co'" "co_owed co' = add_mset ?r (co_owed co)"
      using add_request_spec [OF inv, of ?r] ok True by auto
    let ?b1 = "b\<lparr>dram := Some co'\<rparr>"
    let ?b = "if w then ?b1\<lparr>write_addrs_outstanding := insert a (write_addrs_outstanding b)\<rparr>
      else ?b1\<lparr>read_addrs_outstanding := insert a (read_addrs_outstanding b)\<rparr>"
    have e: "memory_request b a i w = Inr (True, ?b)"
      using True ok Some co'(1) by (simp add: memory_request_def Let_def)
    have rq: "bridge_requests ?b = add_mset ?r (bridge_requests b)" using Some co'(3) by (simp add: bridge_requests_def)
    have "bridge_inv n ?b"
      using assms True Some co'(2) unfolding bridge_inv_def rq under_way_add by (cases w) simp_all
    with e rq show ?thesis by (intro exI [of _ True] exI [of _ ?b]) (simp add: bridge_owed_def)
  next
    case False
    then have "memory_request b a i w = Inr (False, b)" using ok Some by (auto simp: memory_request_def)
    with assms show ?thesis by (intro exI [of _ False] exI [of _ b]) simp
  qed
qed

lemma tag_above:
  fixes i :: u32
  assumes "32 \<le> m"
  shows "(ucast (ucast i OR push_bit m 1 :: u64) :: u32) = i"
  using assms by (intro bit_word_eqI) (auto simp: bit_simps)

lemma mset_set_erase:
  assumes "finite A" and "add_mset a M = mset_set A"
  shows "M = mset_set (A - {a})"
proof -
  have "a \<in># mset_set A" unfolding assms(2) [symmetric] by simp
  then have "a \<in> A" using assms(1) by simp
  then show ?thesis using mset_set.remove [OF assms(1)] assms(2) by simp
qed

lemma response_tag:
  fixes i :: u32
  shows "(ucast i OR push_bit 32 1 :: u64) \<noteq> 0" and "(ucast (ucast i OR push_bit 32 1 :: u64) :: u32) = i"
proof -
  have "bit (ucast i OR push_bit 32 1 :: u64) 32" by (simp add: bit_or_iff bit_push_bit_iff)
  then show "(ucast i OR push_bit 32 1 :: u64) \<noteq> 0" by (metis bit_0_eq bot_apply bot_bool_def)
  show "(ucast (ucast i OR push_bit 32 1 :: u64) :: u32) = i"
    by (rule tag_above) simp
qed

lemma memory_response_spec:
  assumes "bridge_inv n b" and "memory_response b w = (v, b')"
  shows "bridge_inv n b' \<and> (if v = 0 then bridge_owed b' = bridge_owed b
    else bridge_owed b = add_mset (ucast v, w) (bridge_owed b'))"
proof (cases "dram b")
  case None
  with assms show ?thesis by (simp add: memory_response_def)
next
  case (Some co)
  with assms have inv: "co_inv n co" by (simp add: bridge_inv_def)
  obtain r co' where r: "co_check w co = (r, co')" by (cases "co_check w co")
  note spec = co_check_spec [OF inv r]
  note resp = assms(2) [unfolded memory_response_def Some option.case co_check_def [symmetric] r prod.case]
  show ?thesis
  proof (cases r)
    case None
    with resp spec Some assms(1) show ?thesis by (auto simp: bridge_inv_def bridge_owed_def bridge_requests_def)
  next
    case (Some resp1)
    let ?q = "co_req resp1" and ?b1 = "b\<lparr>dram := Some co'\<rparr>"
    have v: "v = ucast (co_meta ?q) OR push_bit 32 1" and b': "b' = (if w then ?b1\<lparr>write_addrs_outstanding := write_addrs_outstanding b - {co_address ?q}\<rparr>
        else ?b1\<lparr>read_addrs_outstanding := read_addrs_outstanding b - {co_address ?q}\<rparr>)"
      using resp Some by (auto simp: Let_def split: if_splits)
    have sp: "co_inv n co'" "co_owed co = add_mset ?q (co_owed co')" "co_is_write ?q = w" using spec Some by auto
    have rq: "bridge_requests b = add_mset ?q (bridge_requests b')"
      using \<open>dram b = Some co\<close> sp(2) by (simp add: bridge_requests_def b')
    have "bridge_inv n b'"
      using assms(1) sp(1,3) unfolding bridge_inv_def rq under_way_add
      by (cases w) (auto simp: b' bridge_requests_def \<open>dram b = Some co\<close> intro: mset_set_erase)
    moreover have "v \<noteq> 0" "ucast v = co_meta ?q" unfolding v by (rule response_tag)+
    ultimately show ?thesis using sp(3) by (simp add: bridge_owed_def rq)
  qed
qed

datatype bridge_op = BRequest u64 u32 bool | BStep nat | BResponse bool

text \<open>A response is the tag in the low half of the value; the value 0 is no response.\<close>

fun bridge_step :: "bridge_op \<Rightarrow> Bridge \<Rightarrow> (Bridge \<times> (u32 \<times> bool) list \<times> (u32 \<times> bool) list) result" where
  "bridge_step (BRequest a i w) b =
     bindR (memory_request b a i w) (\<lambda>(ok, b'). Inr (b', if ok then [(i, w)] else [], []))"
| "bridge_step (BStep k) b = bindR (dramsim3_step b k) (\<lambda>b'. Inr (b', [], []))"
| "bridge_step (BResponse w) b =
     (case memory_response b w of (v, b') \<Rightarrow> Inr (b', [], if v = 0 then [] else [(ucast v, w)]))"

fun bridge_cost :: "bridge_op \<Rightarrow> nat" where
  "bridge_cost (BRequest a i w) = 0"
| "bridge_cost (BStep k) = k"
| "bridge_cost (BResponse w) = 0"

interpretation bridge_port: metered_port bridge_inv bridge_owed bridge_step bridge_cost
proof
  fix x n b assume a: "bridge_inv (bridge_cost x + n) b"
  show "\<exists>b' acc out. bridge_step x b = Inr (b', acc, out) \<and> bridge_inv n b' \<and>
      bridge_owed b + mset acc = bridge_owed b' + mset out"
  proof (cases x)
    case (BRequest ad i w)
    with a memory_request_spec [of n b ad i w] show ?thesis by auto
  next
    case (BStep k)
    show ?thesis
    proof (cases "dram b")
      case None
      with a BStep show ?thesis by (simp add: dramsim3_step_def bridge_inv_def)
    next
      case (Some co)
      with a BStep obtain co' where "co_tick k co = Inr co'" "co_inv n co'" "co_owed co' = co_owed co"
        using co_tick_spec [of k n co] by (auto simp: bridge_inv_def)
      with a BStep Some show ?thesis
        by (simp add: dramsim3_step_def bridge_inv_def bridge_owed_def bridge_requests_def)
    qed
  next
    case (BResponse w)
    obtain v b' where "memory_response b w = (v, b')" by (cases "memory_response b w")
    with a BResponse memory_response_spec [of n b w v b'] show ?thesis by (cases "v = 0") auto
  qed
qed

section \<open>Properties\<close>

text \<open>The static variables of the bridge before anything has run.\<close>

definition Bridge0 :: Bridge where
  "Bridge0 = \<lparr>dram = None, dram_step_count = 0, read_addrs_outstanding = {}, write_addrs_outstanding = {}\<rparr>"

definition sample_bridge :: Bridge where
  "sample_bridge = Bridge0\<lparr>dram := Some sample_co\<rparr>"

lemma sample_bridge_mk: "dramsim3_init Bridge0 (Some ddr4_reader) ddr4_config = Inr sample_bridge"
  by (simp add: dramsim3_init_def Bridge0_def sample_co_mk sample_bridge_def)

lemma sample_bridge_dram: "dram sample_bridge = Some sample_co"
  by (simp add: sample_bridge_def)

text \<open>
  C1: No tag is lost, returned twice or made up. The bridge, initialised from a configuration, performs any sequence of
  requests, steps and polls for responses without failing. The tags of the accepted requests
  are those returned plus those under way, per direction and with their multiplicities, and
  the two sets of the bridge hold each address under way exactly once, so that
  the address of a completed transaction identifies its request. That a request under way is
  answered in the end is not part of the statement. The memory is not a cube, and self refresh
  and dual commands are off.
\<close>

theorem bridge_returns_own_tags:
  assumes "dramsim3_init Bridge0 file c0 = Inr b" and "dram b = Some co" and "c = ms_config (memory co)"
    and "mem_config c" and "\<not> IsHMC c" and "mk_Refresh c = Inr rf"
    and "0 < refresh_interval rf" and "refresh_interval rf < 2 ^ 64" and "refresh_policy c \<noteq> SIZE_POLICY"
  shows "\<exists>b' acc out. port_run bridge_step xs b = Inr (b', acc, out) \<and>
    mset acc = bridge_owed b' + mset out \<and>
    under_way False (bridge_requests b') = mset_set (read_addrs_outstanding b') \<and>
    under_way True (bridge_requests b') = mset_set (write_addrs_outstanding b')"
proof -
  obtain reader where "mk_ComplexCoDRAMsim3 False reader c0 66 = Inr co" and b: "b = Bridge0\<lparr>dram := Some co\<rparr>"
    using assms(1,2) by (auto simp: dramsim3_init_def Bridge0_def elim!: bindR_InrE split: option.splits)
  note st = mk_ComplexCoDRAMsim3_inv [OF this(1) assms(3-9)]
  have "bridge_inv n b" "bridge_owed b = {#}" for n
    using st by (simp_all add: b bridge_inv_def bridge_owed_def bridge_requests_def under_way_def Bridge0_def)
  with bridge_port.metered_run [of xs 0 b] show ?thesis unfolding bridge_inv_def by auto
qed

theorem bridge_returns_own_tags_witness:
  "\<exists>b' acc out. port_run bridge_step
       (replicate 200 (BStep 1) @ [BRequest 64 1 False, BStep 1, BRequest 64 2 False, BResponse False]) sample_bridge =
     Inr (b', acc, out) \<and> mset acc = bridge_owed b' + mset out"
  using bridge_returns_own_tags [OF sample_bridge_mk sample_bridge_dram sample_co_config [symmetric]
      ddr4_mem_config ddr4_not_hmc sample_refresh_mk] by blast

end
