(* ===== verification/Ini_Parser.thy ===== *)
theory Ini_Parser
  imports INIReader
begin

text \<open>
  \<open>DRAMSIM3/ext/headers/INIReader.h\<close>, the parser that reads an INI file line by line and
  calls the handler with each section, name and value. A C string is the list of its
  characters; the buffer of a line holds 199 of them, the names and sections 49.
\<close>

section \<open>Strings\<close>

definition rstrip :: "string \<Rightarrow> string" where
  "rstrip s = rev (dropWhile isspace (rev s))"

definition lskip :: "string \<Rightarrow> string" where
  "lskip s = dropWhile isspace s"

text \<open>
  \<open>find_chars_or_comment\<close>: the text before the character found and the text from there on.
\<close>

fun find_chars_or_comment :: "bool \<Rightarrow> string \<Rightarrow> string \<Rightarrow> string \<times> string" where
  "find_chars_or_comment was_space chars [] = ([], [])"
| "find_chars_or_comment was_space chars (c # s) =
     (if c \<in> set chars \<or> (was_space \<and> c = CHR '';'') then ([], c # s)
      else (case find_chars_or_comment (isspace c) chars s of (before, rest) \<Rightarrow> (c # before, rest)))"

text \<open>\<open>strncpy0\<close> into a buffer of \<open>n\<close> bytes.\<close>

definition strncpy0 :: "nat \<Rightarrow> string \<Rightarrow> string" where
  "strncpy0 n s = take (n - 1) s"

section \<open>Lines\<close>

text \<open>
  \<open>fgets\<close> with a buffer of 200 bytes: up to 199 characters, and no further than a line break.
  The line the parser sees ends at the first NUL.
\<close>

definition INI_MAX_LINE :: nat where
  "INI_MAX_LINE = 200"

fun fgets :: "nat \<Rightarrow> string \<Rightarrow> string \<times> string" where
  "fgets 0 s = ([], s)"
| "fgets (Suc n) [] = ([], [])"
| "fgets (Suc n) (c # s) =
     (if c = CHR 0x0A then ([c], s) else (case fgets n s of (l, rest) \<Rightarrow> (c # l, rest)))"

lemma fgets_append: "fgets n s = (l, rest) \<Longrightarrow> s = l @ rest"
  by (induction n s arbitrary: l rest rule: fgets.induct) (auto split: if_splits prod.splits)

lemma fgets_progress: "0 < n \<Longrightarrow> s \<noteq> [] \<Longrightarrow> length (snd (fgets n s)) < length s"
proof -
  assume "0 < n" and "s \<noteq> []"
  then obtain m c t where "n = Suc m" "s = c # t" by (metis gr0_implies_Suc list.exhaust)
  then show ?thesis using fgets_append [of m t] by (cases "fgets m t") auto
qed

function file_lines :: "string \<Rightarrow> string list" where
  "file_lines s = (if s = [] then [] else case fgets (INI_MAX_LINE - 1) s of (l, rest) \<Rightarrow> l # file_lines rest)"
  by pat_completeness auto
termination
proof (relation "measure length", goal_cases)
  case (2 s l rest)
  then have "snd (fgets (INI_MAX_LINE - 1) s) = rest" by (metis snd_conv)
  then show ?case using fgets_progress [of "INI_MAX_LINE - 1" s] 2(1) by (simp add: INI_MAX_LINE_def)
qed simp

declare file_lines.simps [simp del]

section \<open>The parser\<close>

text \<open>The local variables of the loop, and the user data of the handler.\<close>

record ini_state =
  ini_section :: string
  prev_name :: string
  lineno :: int
  parse_error :: int
  user :: INIReader

definition utf8_bom :: string where
  "utf8_bom = [CHR 0xEF, CHR 0xBB, CHR 0xBF]"

definition note_error :: "ini_state \<Rightarrow> ini_state" where
  "note_error st = (if parse_error st = 0 then st\<lparr>parse_error := lineno st\<rparr> else st)"

definition call_handler ::
  "(INIReader \<Rightarrow> string \<Rightarrow> string \<Rightarrow> string \<Rightarrow> INIReader \<times> bool) \<Rightarrow> string \<Rightarrow> string \<Rightarrow> ini_state \<Rightarrow> ini_state" where
  "call_handler handler name val st =
     (case handler (user st) (ini_section st) name val of (u, ok) \<Rightarrow>
        if ok then st\<lparr>user := u\<rparr> else note_error (st\<lparr>user := u\<rparr>))"

definition ini_line ::
  "(INIReader \<Rightarrow> string \<Rightarrow> string \<Rightarrow> string \<Rightarrow> INIReader \<times> bool) \<Rightarrow> string \<Rightarrow> ini_state \<Rightarrow> ini_state" where
  "ini_line handler l st0 =
     (let st = st0\<lparr>lineno := lineno st0 + 1\<rparr>;
          line = takeWhile (\<lambda>c. c \<noteq> CHR 0x00) l;
          bom = (lineno st = 1 \<and> take 3 line = utf8_bom);
          stripped = rstrip (if bom then drop 3 line else line);
          start = lskip stripped;
          moved = (bom \<or> start \<noteq> stripped)
      in if start \<noteq> [] \<and> (hd start = CHR '';'' \<or> hd start = CHR ''#'') then st
         else if prev_name st \<noteq> [] \<and> start \<noteq> [] \<and> moved then
           call_handler handler (prev_name st) (rstrip (fst (find_chars_or_comment False [] start))) st
         else if start \<noteq> [] \<and> hd start = CHR ''['' then
           (case find_chars_or_comment False '']'' (tl start) of (sec, rest) \<Rightarrow>
              if rest \<noteq> [] \<and> hd rest = CHR '']''
              then st\<lparr>ini_section := strncpy0 50 sec, prev_name := []\<rparr>
              else note_error st)
         else if start \<noteq> [] then
           (case find_chars_or_comment False ''=:'' start of (before, rest) \<Rightarrow>
              if rest \<noteq> [] \<and> (hd rest = CHR ''='' \<or> hd rest = CHR '':'') then
                let name = rstrip before;
                    val = rstrip (fst (find_chars_or_comment False [] (lskip (tl rest))))
                in call_handler handler name val (st\<lparr>prev_name := strncpy0 50 name\<rparr>)
              else note_error st)
         else st)"

definition ini_parse_stream ::
  "(INIReader \<Rightarrow> string \<Rightarrow> string \<Rightarrow> string \<Rightarrow> INIReader \<times> bool) \<Rightarrow> INIReader \<Rightarrow> string \<Rightarrow> int \<times> INIReader" where
  "ini_parse_stream handler u text =
     (let st = fold (ini_line handler) (file_lines text)
            \<lparr>ini_section = [], prev_name = [], lineno = 0, parse_error = 0, user = u\<rparr>
      in (parse_error st, user st))"

text \<open>\<open>ini_parse\<close> on the contents of the file, \<open>None\<close> when it cannot be opened.\<close>

definition ini_parse ::
  "(INIReader \<Rightarrow> string \<Rightarrow> string \<Rightarrow> string \<Rightarrow> INIReader \<times> bool) \<Rightarrow> INIReader \<Rightarrow> string option \<Rightarrow> int \<times> INIReader" where
  "ini_parse handler u file =
     (case file of None \<Rightarrow> (-1, u) | Some text \<Rightarrow> ini_parse_stream handler u text)"

text \<open>The constructor of the reader: its handler collects the values and never fails.\<close>

definition mk_INIReader :: "string option \<Rightarrow> INIReader" where
  "mk_INIReader file =
     (case ini_parse (\<lambda>r sec name val. (ValueHandler r sec name val, True))
             \<lparr>ini_error = 0, ini_values = (\<lambda>_. None), ini_sections = {}\<rparr> file of
        (e, r) \<Rightarrow> r\<lparr>ini_error := e\<rparr>)"

section \<open>Round trip\<close>

text \<open>
  Files as one would write them: sections with their pairs, one per line. The text of names
  and values is plain: no white space, no semicolon, no NUL, and short enough for the
  buffers.
\<close>

definition plain :: "string \<Rightarrow> bool" where
  "plain s \<longleftrightarrow> (\<forall>c \<in> set s. \<not> isspace c \<and> c \<noteq> CHR '';'' \<and> c \<noteq> CHR 0x00)"

definition ok_section :: "string \<Rightarrow> bool" where
  "ok_section s \<longleftrightarrow> plain s \<and> CHR '']'' \<notin> set s \<and> length s \<le> 49"

definition ok_pair :: "string \<times> string \<Rightarrow> bool" where
  "ok_pair p \<longleftrightarrow> plain (fst p) \<and> plain (snd p) \<and> fst p \<noteq> [] \<and> hd (fst p) \<noteq> CHR ''#'' \<and> hd (fst p) \<noteq> CHR ''['' \<and>
     CHR ''='' \<notin> set (fst p) \<and> CHR '':'' \<notin> set (fst p) \<and> length (fst p) + length (snd p) \<le> 190"

type_synonym ini_file = "(string \<times> (string \<times> string) list) list"

definition section_line :: "string \<Rightarrow> string" where
  "section_line s = CHR ''['' # s @ '']''"

definition pair_line :: "string \<times> string \<Rightarrow> string" where
  "pair_line p = fst p @ ''='' @ snd p"

definition ini_lines :: "ini_file \<Rightarrow> string list" where
  "ini_lines es = concat (map (\<lambda>(s, ps). section_line s # map pair_line ps) es)"

definition print_ini :: "ini_file \<Rightarrow> string" where
  "print_ini es = concat (map (\<lambda>l. l @ [CHR 0x0A]) (ini_lines es))"

definition ini_triples :: "ini_file \<Rightarrow> (string \<times> string \<times> string) list" where
  "ini_triples es = concat (map (\<lambda>(s, ps). map (\<lambda>(k, v). (s, k, v)) ps) es)"

definition ini_ok :: "ini_file \<Rightarrow> bool" where
  "ini_ok es \<longleftrightarrow> list_all (\<lambda>(s, ps). ok_section s \<and> list_all ok_pair ps) es"

lemma newline_space: "isspace (CHR 0x0A)"
  by (simp add: isspace_def)

lemma fgets_line:
  assumes "CHR 0x0A \<notin> set l" and "length l < n"
  shows "fgets n (l @ CHR 0x0A # rest) = (l @ [CHR 0x0A], rest)"
  using assms
proof (induction l arbitrary: n)
  case Nil
  then show ?case by (cases n) auto
next
  case (Cons c l)
  then obtain m where "n = Suc m" "length l < m" by (cases n) auto
  with Cons show ?case by auto
qed

lemma file_lines_print:
  assumes "\<forall>l \<in> set ls. CHR 0x0A \<notin> set l \<and> length l < 199"
  shows "file_lines (concat (map (\<lambda>l. l @ [CHR 0x0A]) ls)) = map (\<lambda>l. l @ [CHR 0x0A]) ls"
  using assms
proof (induction ls)
  case Nil
  then show ?case by (simp add: file_lines.simps)
next
  case (Cons l ls)
  then have "fgets 199 (l @ CHR 0x0A # concat (map (\<lambda>l. l @ [CHR 0x0A]) ls)) =
      (l @ [CHR 0x0A], concat (map (\<lambda>l. l @ [CHR 0x0A]) ls))"
    by (intro fgets_line) auto
  with Cons show ?case by (subst file_lines.simps) (simp add: INI_MAX_LINE_def)
qed

lemma rstrip_line: "s \<noteq> [] \<Longrightarrow> \<not> isspace (last s) \<Longrightarrow> rstrip (s @ [CHR 0x0A]) = s"
  by (cases s rule: rev_cases) (auto simp: rstrip_def newline_space)

lemma rstrip_plain: "plain s \<Longrightarrow> rstrip s = s"
  by (cases s rule: rev_cases) (auto simp: rstrip_def plain_def)

lemma lskip_plain: "s = [] \<or> \<not> isspace (hd s) \<Longrightarrow> lskip s = s"
  by (cases s) (auto simp: lskip_def)

lemma find_plain:
  assumes "plain s" and "set s \<inter> set chars = {}"
  shows "find_chars_or_comment sp chars s = (s, [])"
  using assms by (induction s arbitrary: sp) (auto simp: plain_def)

lemma find_stop:
  assumes "plain s" and "set s \<inter> set chars = {}" and "c \<in> set chars"
  shows "find_chars_or_comment sp chars (s @ c # rest) = (s, c # rest)"
  using assms by (induction s arbitrary: sp) (auto simp: plain_def)

lemma no_nul: "CHR 0x00 \<notin> set s \<Longrightarrow> takeWhile (\<lambda>c. c \<noteq> CHR 0x00) s = s"
  by (simp add: takeWhile_eq_all_conv) metis

lemma section_step:
  assumes "ok_section s" and "0 \<le> lineno st"
  shows "ini_line h (section_line s @ [CHR 0x0A]) st =
    st\<lparr>lineno := lineno st + 1, ini_section := s, prev_name := []\<rparr>"
proof -
  let ?l = "section_line s"
  have p: "plain s" "CHR '']'' \<notin> set s" "length s \<le> 49" using assms(1) unfolding ok_section_def by auto
  have n: "takeWhile (\<lambda>c. c \<noteq> CHR 0x00) (?l @ [CHR 0x0A]) = ?l @ [CHR 0x0A]"
    using p(1) by (intro no_nul) (auto simp: section_line_def plain_def)
  have r: "rstrip (?l @ [CHR 0x0A]) = ?l"
    by (rule rstrip_line) (simp_all add: section_line_def isspace_def)
  have k: "lskip ?l = ?l" by (rule lskip_plain) (simp add: section_line_def isspace_def)
  have b: "take 3 (?l @ [CHR 0x0A]) \<noteq> utf8_bom" by (simp add: section_line_def utf8_bom_def)
  have f: "find_chars_or_comment False '']'' (s @ '']'') = (s, '']'')"
    using find_stop [OF p(1), of "'']''" "CHR '']''" False "[]"] p(2) by simp
  show ?thesis
    unfolding ini_line_def Let_def n using b r k f p(3)
    by (simp add: section_line_def strncpy0_def)
qed

lemma pair_step:
  assumes "ok_pair p" and "1 \<le> lineno st"
  shows "ini_line h (pair_line p @ [CHR 0x0A]) st =
    call_handler h (fst p) (snd p) (st\<lparr>lineno := lineno st + 1, prev_name := strncpy0 50 (fst p)\<rparr>)"
proof -
  let ?l = "pair_line p"
  have p: "plain (fst p)" "plain (snd p)" "fst p \<noteq> []" "hd (fst p) \<noteq> CHR ''#''" "hd (fst p) \<noteq> CHR ''[''"
    "CHR ''='' \<notin> set (fst p)" "CHR '':'' \<notin> set (fst p)"
    using assms(1) unfolding ok_pair_def by auto
  obtain c cs where c: "fst p = c # cs" using p(3) by (cases "fst p") auto
  have sp: "\<not> isspace c" "c \<noteq> CHR '';''" using p(1) by (auto simp: plain_def c)
  have n: "takeWhile (\<lambda>c. c \<noteq> CHR 0x00) (?l @ [CHR 0x0A]) = ?l @ [CHR 0x0A]"
    using p(1,2) by (intro no_nul) (auto simp: pair_line_def plain_def)
  have "\<not> isspace (last ?l)"
    using p(2) by (cases "snd p" rule: rev_cases) (auto simp: pair_line_def plain_def isspace_def)
  then have r: "rstrip (?l @ [CHR 0x0A]) = ?l" by (intro rstrip_line) (simp_all add: pair_line_def)
  have k: "lskip ?l = ?l" by (rule lskip_plain) (simp add: pair_line_def c sp)
  have f: "find_chars_or_comment False ''=:'' ?l = (fst p, CHR ''='' # snd p)"
    using find_stop [OF p(1), of "''=:''" "CHR ''=''" False "snd p"] p(6,7) by (simp add: pair_line_def)
  have v: "find_chars_or_comment False [] (snd p) = (snd p, [])" by (rule find_plain [OF p(2)]) simp
  have kv: "lskip (snd p) = snd p" using p(2) by (intro lskip_plain) (cases "snd p"; simp add: plain_def)
  have hl: "?l \<noteq> []" "hd ?l = c" by (simp_all add: pair_line_def c)
  have e: "ini_line h (?l @ [CHR 0x0A]) st =
     (case find_chars_or_comment False ''=:'' ?l of (before, rest) \<Rightarrow>
        if rest \<noteq> [] \<and> (hd rest = CHR ''='' \<or> hd rest = CHR '':'') then
          let name = rstrip before; val = rstrip (fst (find_chars_or_comment False [] (lskip (tl rest))))
          in call_handler h name val (st\<lparr>lineno := lineno st + 1, prev_name := strncpy0 50 name\<rparr>)
        else note_error (st\<lparr>lineno := lineno st + 1\<rparr>))"
    unfolding ini_line_def Let_def n using assms(2) r k hl sp p(4,5) by (simp add: c)
  show ?thesis unfolding e f using v kv rstrip_plain p(1,2) by (simp add: Let_def)
qed

definition collect :: "INIReader \<Rightarrow> string \<Rightarrow> string \<Rightarrow> string \<Rightarrow> INIReader \<times> bool" where
  "collect r sec name val = (ValueHandler r sec name val, True)"

definition add_triple :: "string \<times> string \<times> string \<Rightarrow> INIReader \<Rightarrow> INIReader" where
  "add_triple t r = ValueHandler r (fst t) (fst (snd t)) (snd (snd t))"

lemma pairs_fold:
  assumes "list_all ok_pair ps" and "1 \<le> lineno st" and "ini_section st = s"
  shows "\<exists>st'. fold (ini_line collect) (map (\<lambda>l. l @ [CHR 0x0A]) (map pair_line ps)) st = st' \<and>
    1 \<le> lineno st' \<and> parse_error st' = parse_error st \<and>
    user st' = fold add_triple (map (\<lambda>(k, v). (s, k, v)) ps) (user st)"
  using assms
proof (induction ps arbitrary: st)
  case (Cons p ps)
  let ?st = "st\<lparr>lineno := lineno st + 1, prev_name := strncpy0 50 (fst p),
    user := ValueHandler (user st) s (fst p) (snd p)\<rparr>"
  have e: "ini_line collect (pair_line p @ [CHR 0x0A]) st = ?st"
    using pair_step [of p st collect] Cons.prems by (simp add: call_handler_def collect_def)
  have "1 \<le> lineno ?st" "ini_section ?st = s" using Cons.prems by simp_all
  from Cons.IH [OF _ this] Cons.prems(1) e show ?case by (cases p) (simp add: add_triple_def)
qed simp

lemma file_fold:
  assumes "ini_ok es" and "0 \<le> lineno st"
  shows "parse_error (fold (ini_line collect) (map (\<lambda>l. l @ [CHR 0x0A]) (ini_lines es)) st) = parse_error st \<and>
    user (fold (ini_line collect) (map (\<lambda>l. l @ [CHR 0x0A]) (ini_lines es)) st) = fold add_triple (ini_triples es) (user st)"
  using assms
proof (induction es arbitrary: st)
  case (Cons e es)
  obtain s ps where e: "e = (s, ps)" by (cases e)
  let ?st = "st\<lparr>lineno := lineno st + 1, ini_section := s, prev_name := []\<rparr>"
  have ok: "ok_section s" "list_all ok_pair ps" "ini_ok es" using Cons.prems(1) by (simp_all add: ini_ok_def e)
  note s1 = section_step [OF ok(1) Cons.prems(2), of collect]
  have "1 \<le> lineno ?st" "ini_section ?st = s" using Cons.prems(2) by simp_all
  then obtain st2 where s2: "fold (ini_line collect) (map (\<lambda>l. l @ [CHR 0x0A]) (map pair_line ps)) ?st = st2"
      "1 \<le> lineno st2" "parse_error st2 = parse_error st" "user st2 = fold add_triple (map (\<lambda>(k, v). (s, k, v)) ps) (user st)"
    using pairs_fold [OF ok(2)] by auto
  have l: "ini_lines (e # es) = (section_line s # map pair_line ps) @ ini_lines es"
    "ini_triples (e # es) = map (\<lambda>(k, v). (s, k, v)) ps @ ini_triples es"
    by (simp_all add: ini_lines_def ini_triples_def e)
  have "fold (ini_line collect) (map (\<lambda>l. l @ [CHR 0x0A]) (ini_lines (e # es))) st =
      fold (ini_line collect) (map (\<lambda>l. l @ [CHR 0x0A]) (ini_lines es)) st2"
    unfolding l map_append fold_append using s1 s2(1) by simp
  then show ?case using Cons.IH [OF ok(3), of st2] s2(2-4) l(2) by simp
qed (simp add: ini_lines_def ini_triples_def)

lemma ini_lines_short:
  assumes "ini_ok es" and "l \<in> set (ini_lines es)"
  shows "CHR 0x0A \<notin> set l \<and> length l < 199"
proof -
  have p: "CHR 0x0A \<notin> set s" if "plain s" for s using that newline_space unfolding plain_def by blast
  obtain s ps where e: "(s, ps) \<in> set es" "l = section_line s \<or> l \<in> pair_line ` set ps"
    using assms(2) by (auto simp: ini_lines_def)
  then have ok: "ok_section s" "\<forall>q \<in> set ps. ok_pair q" using assms(1) by (auto simp: ini_ok_def list_all_iff)
  from e(2) show ?thesis
  proof
    assume "l = section_line s"
    with ok(1) p show ?thesis by (auto simp: ok_section_def section_line_def)
  next
    assume "l \<in> pair_line ` set ps"
    then obtain q where "l = pair_line q" "ok_pair q" using ok(2) by blast
    with p show ?thesis by (auto simp: ok_pair_def pair_line_def)
  qed
qed

lemma fold_Get:
  assumes "distinct (map (\<lambda>t. MakeKey (fst t) (fst (snd t))) ts)"
    and "\<forall>t \<in> set ts. ini_values r (MakeKey (fst t) (fst (snd t))) = None" and "(s, k, v) \<in> set ts"
  shows "Get (fold add_triple ts r) s k d = v"
  using assms
proof (induction ts rule: rev_induct)
  case (snoc t ts)
  have keep: "ini_values (fold add_triple us r) key = ini_values r key"
    if "key \<notin> (\<lambda>t. MakeKey (fst t) (fst (snd t))) ` set us" for us key
    using that by (induction us arbitrary: r) (auto simp: add_triple_def ValueHandler_def Let_def)
  have e: "fold add_triple (ts @ [t]) r = ValueHandler (fold add_triple ts r) (fst t) (fst (snd t)) (snd (snd t))"
    by (simp add: add_triple_def [of t])
  show ?case
  proof (cases "t = (s, k, v)")
    case True
    then have "ini_values (fold add_triple ts r) (MakeKey s k) = None"
      using keep [of "MakeKey s k" ts] snoc.prems(1,2) by auto
    then show ?thesis unfolding e using Get_ValueHandler_same True by simp
  next
    case False
    then have m: "(s, k, v) \<in> set ts" using snoc.prems(3) by auto
    then have "MakeKey (fst t) (fst (snd t)) \<noteq> MakeKey s k" using snoc.prems(1) by force
    with snoc.IH m snoc.prems show ?thesis unfolding e by (simp add: Get_ValueHandler_other)
  qed
qed simp

text \<open>
  C39: Reading back what was written. A file of sections with plain names and values, printed
  one entry per line, is parsed without error, and the reader returns for every entry the
  value that was written, provided no two entries have the same section and name up to case.
\<close>

theorem ini_roundtrip:
  assumes "ini_ok es" and "distinct (map (\<lambda>(s, k, v). MakeKey s k) (ini_triples es))"
    and "(s, k, v) \<in> set (ini_triples es)"
  shows "ParseError (mk_INIReader (Some (print_ini es))) = 0 \<and> Get (mk_INIReader (Some (print_ini es))) s k d = v"
proof -
  let ?r = "\<lparr>ini_error = 0, ini_values = (\<lambda>_. None), ini_sections = {}\<rparr>"
  have l: "file_lines (print_ini es) = map (\<lambda>l. l @ [CHR 0x0A]) (ini_lines es)"
    unfolding print_ini_def using ini_lines_short [OF assms(1)] by (intro file_lines_print) blast
  have "ini_parse_stream collect ?r (print_ini es) = (0, fold add_triple (ini_triples es) ?r)"
    unfolding ini_parse_stream_def l Let_def using file_fold [OF assms(1)] by simp
  then have "mk_INIReader (Some (print_ini es)) = (fold add_triple (ini_triples es) ?r)\<lparr>ini_error := 0\<rparr>"
    unfolding mk_INIReader_def ini_parse_def collect_def [abs_def] by simp
  moreover have "(\<lambda>(s, k, v :: string). MakeKey s k) = (\<lambda>t. MakeKey (fst t) (fst (snd t)))" by auto
  with assms(2,3) have "Get (fold add_triple (ini_triples es) ?r) s k d = v" by (intro fold_Get) simp_all
  ultimately show ?thesis by (simp add: ParseError_def Get_def)
qed

definition sample_ini :: ini_file where
  "sample_ini = [(''system'', [(''channels'', ''1''), (''bus_width'', ''64'')]), (''other'', [(''cpu_freq'', ''3500'')])]"

theorem ini_roundtrip_witness:
  "Get (mk_INIReader (Some (print_ini sample_ini))) ''other'' ''cpu_freq'' [] = ''3500''"
proof -
  have "ini_ok sample_ini" by code_simp
  moreover have "distinct (map (\<lambda>(s, k, v). MakeKey s k) (ini_triples sample_ini))" by code_simp
  moreover have "(''other'', ''cpu_freq'', ''3500'') \<in> set (ini_triples sample_ini)"
    by (simp add: sample_ini_def ini_triples_def)
  ultimately show ?thesis using ini_roundtrip by blast
qed

end
