(* ===== verification/Spec2Isabelle.thy ===== *)
theory Spec2Isabelle
  imports Ram_Bridge Ini_Parser
begin

text \<open>
  \<^bold>\<open>The memory simulator of intenscale-core.\<close> The repository holds a RISC-V processor written
  in Chisel, an emulator in C++ that runs it, and DRAMSim3, a cycle-level model of DRAM that
  the emulator uses as its main memory. This development models DRAMSim3 and the bridge
  between it and the emulator, and proves what makes them correct.

  \<^bold>\<open>The parts and how they interact.\<close> The Verilog side calls \<open>memory_request\<close>,
  \<open>dramsim3_step\<close> and \<open>memory_response\<close> of \<open>ram.cc\<close>. They use a cosimulation model
  (\<open>cosimulation.cc\<close>), which passes requests to a \<open>MemorySystem\<close> and pairs its callbacks with
  them. The memory system is a JEDEC memory with one controller for each channel
  (\<open>dram_system.cc\<close>) or a Hybrid Memory Cube with one for each vault (\<open>hmc.cc\<close>). A controller
  (\<open>controller.cc\<close>) turns transactions into DRAM commands, keeps them in a command queue
  (\<open>command_queue.cc\<close>), and issues at most one in a cycle to its channel (\<open>channel_state.cc\<close>),
  whose banks (\<open>bankstate.cc\<close>) say which command is needed and when it is allowed, by the
  delays of \<open>timing.cc\<close>. A refresh generator (\<open>refresh.cc\<close>) adds refreshes, and
  \<open>simple_stats.cc\<close> counts. The parameters come from an INI file (\<open>INIReader.h\<close>,
  \<open>configuration.cc\<close>).

  \<^bold>\<open>Theories.\<close> All paths are below \<open>DRAMSIM3/src\<close> unless another is given. Definitions have
  the names of the C++ functions, with a prefix where two classes share a name (\<open>js_\<close> for the
  JEDEC memory, \<open>ms_\<close> for the interface, \<open>ctl_\<close> for the controller, \<open>cq_\<close> for the command
  queue, \<open>bank_\<close> for a bank); a class is a record and its constructor is \<open>mk_\<close> with its name.

    \<^item> \<open>Dram_Prelude\<close>: machine integers, the \<open>error\<close> type with every way a run can stop, the
      result type, checked vectors, shared lemmas.
    \<^item> \<open>Common\<close> (\<open>common.h\<close>, \<open>common.cc\<close>): addresses, commands, transactions, bit helpers.
    \<^item> \<open>INIReader\<close> and \<open>Ini_Parser\<close> (\<open>DRAMSIM3/ext/headers/INIReader.h\<close>): the typed readers, and
      the parser from the characters of a file. What is printed is read back.
    \<^item> \<open>Configuration\<close> (\<open>configuration.cc\<close>) and \<open>Emulator_Config\<close> (the INI file of the emulator):
      the parameters and the address mapping, which is injective, in range and invertible.
    \<^item> \<open>Timing\<close> (\<open>timing.cc\<close>): all delays and tables.
    \<^item> \<open>Bank_State\<close> (\<open>bankstate.cc\<close>): the bank. After any sequence of commands its state, open
      row and hit count are those the sequence determines, and illegal sequences abort.
    \<^item> \<open>Channel_State\<close> (\<open>channel_state.cc\<close>) and \<open>Channel_Trace\<close>: the channel, and its histories as
      an inductive relation. Every history keeps the delays, the protocol and the activation
      windows, and every request gets a command after the largest delay.
    \<^item> \<open>Simple_Stats\<close> (\<open>simple_stats.cc\<close>): counters and histograms. After any run, with
      ends of epochs anywhere, each value is the number of its events.
    \<^item> \<open>Refresh\<close> (\<open>refresh.cc\<close>): the schedule of every policy.
    \<^item> \<open>Command_Queue\<close> (\<open>command_queue.cc\<close>): no command is lost or duplicated, the first ready
      one is chosen, a waiting refresh suspends its banks.
    \<^item> \<open>Transaction_Port\<close>: the contracts of a memory as locales. A run is a list of steps; what
      was accepted is what was answered plus what is outstanding. The locale \<open>metered_port\<close> has
      a budget of steps, \<open>transaction_port\<close> none, and an \<open>open_port\<close> accepts everything.
    \<^item> \<open>Controller\<close> (\<open>controller.cc\<close>), \<open>Dram_System\<close> (\<open>dram_system.cc\<close>), \<open>Hmc_System\<close> (\<open>hmc.cc\<close>),
      \<open>Memory_System\<close> (\<open>memory_system.cc\<close>), \<open>Cosimulation\<close> (\<open>cosimulation.cc\<close>) and \<open>Ram_Bridge\<close>
      (\<open>src/main/resources/csrc/ram.cc\<close>): each interprets one of these contracts, using the
      contract of the part below it.

  \<^bold>\<open>How state, effects and failures are modelled.\<close> State is passed explicitly. Objects that
  the code reaches by pointer or reference are values inside their owner; callbacks are
  returned as lists in the order of the calls. Every \<open>AbruptExit\<close>, \<open>exit\<close>, \<open>abort\<close>, failed
  assertion, index outside a vector and division by zero is a value of \<open>error\<close>. DRAMSim3 is
  modelled as its default build, \<open>Release\<close>, has it, where \<open>assert(ok)\<close> of
  \<open>JedecDRAMSystem::AddTransaction\<close> is compiled out. Clocks and addresses are \<open>64 word\<close>s and
  wrap around.

  \<^bold>\<open>What the theorems on runs say.\<close> They show that no step fails and that the accepted
  transactions are, as a multiset, those answered plus those outstanding: none is lost,
  duplicated or made up. They do not show that an outstanding transaction is answered in the
  end. \<open>channel_progress\<close> gives progress for a single channel, not for the scheduler above it.

  \<^bold>\<open>Assumptions on the configuration.\<close> \<open>ctl_config\<close> asks for a geometry of at least one rank,
  bank group and bank, an address mapping whose fields are in range, and for self refresh and
  HBM dual commands to be off. \<open>mem_config\<close> adds channels in range and an epoch that is not
  empty. \<open>hmc_config\<close> adds at least one link, one of the block sizes of the code, and a clock
  ratio that is defined. The refresh interval is positive and below \<open>2 ^ 64\<close>. The theorems on
  the cosimulation model and the bridge are for JEDEC memories. The emulator's configuration
  satisfies the assumptions on JEDEC memories and is their witness; the witness for the cube is
  \<open>cube_config\<close>, made from it by changing parameters, not a file of the repository. With self refresh on the
  controller can abort: a request for a rank that may not leave self refresh yet ends the
  simulation, which \<open>Controller\<close> proves.

  \<^bold>\<open>Bounds and loops.\<close> Loops of \<open>hmc.cc\<close> that need not end for every state are
  \<open>partial_function (option)\<close>; not ending is the error \<open>Diverges\<close>, and the theorems show that
  it does not occur. The cube counts picoseconds in 64 bits, at most 800 for a tick, so its
  runs satisfy \<open>800 * ticks + 1600 \<le> 2 ^ 64\<close>, below which the counter does not wrap around.
  The controller's command trace and the simple model are judged in runs of fewer than
  \<open>2 ^ 64\<close> cycles for the same reason. The number \<open>k\<close> of memory cycles in a tick of the cosimulation model is a comparison
  of two sums of \<open>double\<close>s; it is an argument, and the theorems hold for every choice.

  \<^bold>\<open>Not modelled.\<close>
    \<^item> Floating point: energies, averages, the thermal model, times in nanoseconds.
    \<^item> Output: printing, JSON statistics, file names. The command trace is kept as a list.
    \<^item> The builds with \<open>THERMAL\<close> and \<open>COSIM_DOUBLE_CHECK_ACCEPT\<close>, and the mutex of the
      cosimulation model: the calls of a run are sequential.
    \<^item> In \<open>ram.cc\<close> the memory image: mapped memory, image readers, footprints.
    \<^item> \<open>cpu.cc\<close> and \<open>main.cc\<close> (stimulus and command line), \<open>emulator.cc\<close>, the debug interfaces
      and the image loaders.
    \<^item> \<open>comlog.cc\<close> and \<open>float_fix.cc\<close>, separate tools for processor logs. They are computations
      that could be modelled, and are outside the memory simulator.
    \<^item> The Chisel sources, the Verilog helpers, the test programs and third-party headers.
\<close>

end
